(* ===== verification/Prelude.thy ===== *)
theory Prelude
  imports Main "HOL-Library.Word" "HOL-Library.AList" "HOL-Library.Multiset"
begin

text \<open>
  Shared vocabulary of the development: the machine integer types of the Go and C sources,
  the byte-order conversions of \<open>encoding/binary\<close> that they use, and generic facts on lists,
  maps and words. The collection \<open>slice_defs\<close> holds the operations on Go
  slices that proofs unfold, \<open>keeps_drops\<close> the facts that an operation leaves the drop counts as
  they are, which the AF_PACKET theories fill.
\<close>

unbundle bit_operations_syntax

type_synonym byte = "8 word"
type_synonym u8 = "8 word"
type_synonym u16 = "16 word"
type_synonym u32 = "32 word"
type_synonym u64 = "64 word"
type_synonym bytes = "byte list"

named_theorems slice_defs
named_theorems keeps_drops

section \<open>Byte order\<close>

text \<open>\<open>binary.BigEndian\<close> and \<open>binary.LittleEndian\<close>, with the shifts of the library code.
  The slices the sources pass always have the exact width, so the arguments are the bytes.\<close>

definition BigEndian_Uint16 :: "byte \<Rightarrow> byte \<Rightarrow> u16" where
  "BigEndian_Uint16 b0 b1 = ucast b1 OR push_bit 8 (ucast b0)"

definition BigEndian_Uint32 :: "byte \<Rightarrow> byte \<Rightarrow> byte \<Rightarrow> byte \<Rightarrow> u32" where
  "BigEndian_Uint32 b0 b1 b2 b3 =
     ucast b3 OR push_bit 8 (ucast b2) OR push_bit 16 (ucast b1) OR push_bit 24 (ucast b0)"

definition BigEndian_PutUint32 :: "u32 \<Rightarrow> bytes" where
  "BigEndian_PutUint32 v =
     [ucast (drop_bit 24 v), ucast (drop_bit 16 v), ucast (drop_bit 8 v), ucast v]"

definition BigEndian_PutUint16 :: "u16 \<Rightarrow> bytes" where
  "BigEndian_PutUint16 v = [ucast (drop_bit 8 v), ucast v]"

definition LittleEndian_Uint32 :: "byte \<Rightarrow> byte \<Rightarrow> byte \<Rightarrow> byte \<Rightarrow> u32" where
  "LittleEndian_Uint32 b0 b1 b2 b3 =
     ucast b0 OR push_bit 8 (ucast b1) OR push_bit 16 (ucast b2) OR push_bit 24 (ucast b3)"

definition LittleEndian_PutUint32 :: "u32 \<Rightarrow> bytes" where
  "LittleEndian_PutUint32 v =
     [ucast v, ucast (drop_bit 8 v), ucast (drop_bit 16 v), ucast (drop_bit 24 v)]"

definition LittleEndian_PutUint64 :: "u64 \<Rightarrow> bytes" where
  "LittleEndian_PutUint64 v = map (\<lambda>i. ucast (drop_bit (8 * i) v)) [0..<8]"

text \<open>A big-endian read of the bytes \<open>bs\<close> into a 32-bit register, for the one, two and four
  byte loads of packet filters.\<close>

fun be_val :: "bytes \<Rightarrow> u32 \<Rightarrow> u32" where
  "be_val [] acc = acc"
| "be_val (b # bs) acc = be_val bs (push_bit 8 acc OR ucast b)"

definition rd :: "bytes \<Rightarrow> nat \<Rightarrow> nat \<Rightarrow> u32 option" where
  "rd f off n = (if off + n \<le> length f then Some (be_val (take n (drop off f)) 0) else None)"

section \<open>Go slices\<close>

text \<open>\<open>s[lo:hi]\<close> on a slice whose capacity is its length: out of range panics (\<open>None\<close>).\<close>

definition slice :: "'a list \<Rightarrow> nat \<Rightarrow> nat \<Rightarrow> 'a list option" where
  "slice s lo hi = (if lo \<le> hi \<and> hi \<le> length s then Some (take (hi - lo) (drop lo s)) else None)"

text \<open>\<open>copy(dst[lo:hi], src)\<close> into a window of \<open>dst\<close>: the copied count is the minimum of the
  two lengths; the result is the new content of \<open>dst\<close>.\<close>

definition copy_into :: "'a list \<Rightarrow> nat \<Rightarrow> nat \<Rightarrow> 'a list \<Rightarrow> ('a list \<times> nat) option" where
  "copy_into dst lo hi src =
     (if lo \<le> hi \<and> hi \<le> length dst
      then let n = min (hi - lo) (length src)
           in Some (take lo dst @ take n src @ drop (lo + n) dst, n)
      else None)"

lemmas slice_ops [slice_defs] = slice_def copy_into_def Let_def

section \<open>Go maps\<close>

text \<open>A map that is ranged over is an association list with distinct keys. The order of a
  \<open>range\<close> is open: it is a parameter \<open>rng\<close> that permutes the entries.\<close>

definition range_order :: "('a list \<Rightarrow> 'a list) \<Rightarrow> bool" where
  "range_order rng \<longleftrightarrow> (\<forall>l. mset (rng l) = mset l)"

section \<open>Strings\<close>

text \<open>\<open>strings.HasPrefix\<close>.\<close>

definition HasPrefix :: "string \<Rightarrow> string \<Rightarrow> bool" where
  "HasPrefix s p = (length p \<le> length s \<and> take (length p) s = p)"

section \<open>Lemmas\<close>

lemma BigEndian_Uint32_Put:
  "BigEndian_PutUint32 v = [a, b, c, d] \<Longrightarrow> BigEndian_Uint32 a b c d = v"
  unfolding BigEndian_PutUint32_def BigEndian_Uint32_def
  by (rule bit_word_eqI, rename_tac n, case_tac "n < 16"; case_tac "n < 24")
    (auto simp: bit_simps)

lemma LittleEndian_Uint32_Put:
  "LittleEndian_PutUint32 v = [a, b, c, d] \<Longrightarrow> LittleEndian_Uint32 a b c d = v"
  unfolding LittleEndian_PutUint32_def LittleEndian_Uint32_def
  by (rule bit_word_eqI, rename_tac n, case_tac "n < 16"; case_tac "n < 24")
    (auto simp: bit_simps)

lemma length_PutUint [simp]:
  "length (BigEndian_PutUint32 v) = 4"
  "length (BigEndian_PutUint16 w) = 2"
  "length (LittleEndian_PutUint32 v) = 4"
  "length (LittleEndian_PutUint64 x) = 8"
  by (simp_all add: BigEndian_PutUint32_def BigEndian_PutUint16_def
      LittleEndian_PutUint32_def LittleEndian_PutUint64_def)

lemma rd_None_iff: "rd f off n = None \<longleftrightarrow> length f < off + n"
  by (auto simp: rd_def)

lemma rd_Some_iff: "rd f off n = Some v \<longleftrightarrow>
    off + n \<le> length f \<and> v = be_val (take n (drop off f)) 0"
  by (auto simp: rd_def)

lemma rd_SomeD: "rd f off n = Some v \<Longrightarrow> off + n \<le> length f"
  by (simp add: rd_def split: if_splits)

lemma rd_ex: "off + n \<le> length f \<Longrightarrow> \<exists>v. rd f off n = Some v"
  by (simp add: rd_def)

lemma slice_full [simp]: "slice s 0 (length s) = Some s"
  by (simp add: slice_defs)

lemma slice_append_left [simp]: "slice (xs @ ys) 0 (length xs) = Some xs"
  by (simp add: slice_defs)

lemma copy_into_exact:
  "lo + length src \<le> length dst \<Longrightarrow>
     copy_into dst lo (lo + length src) src =
       Some (take lo dst @ src @ drop (lo + length src) dst, length src)"
  by (simp add: slice_defs)

lemma length_copy_into:
  "copy_into dst lo hi src = Some (dst', n) \<Longrightarrow> length dst' = length dst"
  by (auto simp: slice_defs split: if_splits)

lemma ran_delete_inj:
  "inj_on m (dom m) \<Longrightarrow> m k = Some v \<Longrightarrow> ran (m(k := None)) = ran m - {v}"
  by (auto simp: ran_def inj_on_def dom_def split: if_splits) (metis option.inject)

lemma update_fresh: "k \<notin> fst ` set al \<Longrightarrow> AList.update k v al = al @ [(k, v)]"
  by (induction al) auto

lemma map_of_snoc_fresh: "k \<notin> fst ` set al \<Longrightarrow> map_of (al @ [(k, v)]) = (map_of al)(k \<mapsto> v)"
  by (induction al) (auto simp: fun_eq_iff)

lemma range_order_facts:
  assumes "range_order rng"
  shows "set (rng l) = set l" "distinct (map f (rng l)) = distinct (map f l)"
    "mset (concat (map g (rng l))) = mset (concat (map g l))"
proof -
  have m: "mset (rng l) = mset l" using assms by (simp add: range_order_def)
  then show "set (rng l) = set l" by (rule mset_eq_setD)
  from m have "mset (map f (rng l)) = mset (map f l)" by simp
  then show "distinct (map f (rng l)) = distinct (map f l)" by (rule mset_eq_imp_distinct_iff)
  from m have "mset (map (mset \<circ> g) (rng l)) = mset (map (mset \<circ> g) l)" by simp
  then have "sum_list (map (mset \<circ> g) (rng l)) = sum_list (map (mset \<circ> g) l)" by (metis sum_mset_sum_list)
  then show "mset (concat (map g (rng l))) = mset (concat (map g l))" by (simp add: mset_concat)
qed

lemma range_order_id [simp]: "range_order id" "range_order (\<lambda>l. l)"
  by (simp_all add: range_order_def)

end
