(* ===== verification/Config.thy ===== *)
theory Config
  imports Prelude
begin

text \<open>
  \<open>internal/config/config.go\<close>: loading the configuration from the environment. The environment
  is the function \<open>env\<close> behind \<open>os.LookupEnv\<close>. The number parsers of \<open>strconv\<close> and
  \<open>strings.ToLower\<close> are modelled on bytes. Bytes above 127 are left as they are by \<open>ToLower\<close>
  here; Go maps some of them, but never to a digit, to \<open>x\<close> or to a letter from \<open>a\<close> to \<open>f\<close>, so
  no decision of \<open>Load\<close> depends on it.
\<close>

section \<open>Strings and numbers\<close>

definition lower :: "char \<Rightarrow> char" where
  "lower c = (let n = (of_char c :: nat) in if 65 \<le> n \<and> n \<le> 90 then char_of (n + 32) else c)"

definition ToLower :: "string \<Rightarrow> string" where
  "ToLower s = map lower s"

datatype parse_error = ErrSyntax | ErrRange

text \<open>The value of a digit character, \<open>None\<close> for any other byte.\<close>

definition digit_of :: "char \<Rightarrow> nat option" where
  "digit_of c =
     (let n = (of_char c :: nat); l = (of_char (lower c) :: nat) in
      if 48 \<le> n \<and> n \<le> 57 then Some (n - 48)
      else if 97 \<le> l \<and> l \<le> 122 then Some (l - 97 + 10)
      else None)"

text \<open>The loop of \<open>strconv.ParseUint\<close> with a 32-bit result. Its 64-bit accumulator cannot wrap:
  it is at most \<open>2 ^ 32 - 1\<close> before each step.\<close>

fun parse_loop :: "nat \<Rightarrow> string \<Rightarrow> nat \<Rightarrow> parse_error + nat" where
  "parse_loop base [] n = Inr n"
| "parse_loop base (c # cs) n =
     (case digit_of c of
        None \<Rightarrow> Inl ErrSyntax
      | Some d \<Rightarrow>
          if d \<ge> base then Inl ErrSyntax
          else if n * base + d > 2 ^ 32 - 1 then Inl ErrRange
          else parse_loop base cs (n * base + d))"

definition ParseUint32 :: "string \<Rightarrow> nat \<Rightarrow> parse_error + nat" where
  "ParseUint32 s base = (if s = [] then Inl ErrSyntax else parse_loop base s 0)"

text \<open>\<open>strconv.Atoi\<close>: \<open>None\<close> is an error, which its only caller does not look into.\<close>

fun dec_value :: "string \<Rightarrow> nat \<Rightarrow> nat option" where
  "dec_value [] n = Some n"
| "dec_value (c # cs) n =
     (let k = (of_char c :: nat) in
      if 48 \<le> k \<and> k \<le> 57 then dec_value cs (n * 10 + (k - 48)) else None)"

definition Atoi :: "string \<Rightarrow> int option" where
  "Atoi s =
     (case s of
        [] \<Rightarrow> None
      | c # cs \<Rightarrow>
          let neg = (c = CHR ''-''); ds = (if c = CHR ''-'' \<or> c = CHR ''+'' then cs else s) in
          if ds = [] then None
          else case dec_value ds 0 of
              None \<Rightarrow> None
            | Some n \<Rightarrow>
                let v = (if neg then - int n else int n) in
                if - (2 ^ 63) \<le> v \<and> v < 2 ^ 63 then Some v else None)"

section \<open>Load\<close>

record Config =
  NDRAddr :: string
  VNI :: u32
  NDRMTU :: int
  CaptureMode :: string
  LogLevel :: string
  MetricsAddr :: string
  HealthAddr :: string

datatype config_error = BadVNI string parse_error | VNITooLarge nat | BadMTU string | BadMode string

type_synonym env = "string \<Rightarrow> string option"

definition getenv :: "env \<Rightarrow> string \<Rightarrow> string \<Rightarrow> string" where
  "getenv env k def = (case env k of Some v \<Rightarrow> v | None \<Rightarrow> def)"

definition parse_vni :: "string \<Rightarrow> parse_error + nat" where
  "parse_vni s =
     (let l = ToLower s in
      if HasPrefix l ''0x'' then ParseUint32 (drop 2 l) 16 else ParseUint32 s 10)"

definition capture_modes :: "string list" where
  "capture_modes = [[], ''auto'', ''tcbpf'', ''afpacket'']"

definition Load :: "env \<Rightarrow> Config \<times> config_error option" where
  "Load env =
     (let c = \<lparr>NDRAddr = getenv env ''SENSOR_NDR_ADDR'' [],
               VNI = 0, NDRMTU = 0,
               CaptureMode = getenv env ''CAPTURE_MODE'' ''auto'',
               LogLevel = ToLower (getenv env ''LOG_LEVEL'' ''info''),
               MetricsAddr = getenv env ''METRICS_ADDR'' '':9090'',
               HealthAddr = getenv env ''HEALTH_ADDR'' '':8080''\<rparr>;
          vniStr = getenv env ''VNI'' ''0'' in
      case parse_vni vniStr of
        Inl e \<Rightarrow> (c, Some (BadVNI vniStr e))
      | Inr vni \<Rightarrow>
          if (of_nat vni :: u64) AND 0xff000000 \<noteq> 0 then (c, Some (VNITooLarge vni))
          else
            let c = c\<lparr>VNI := of_nat vni\<rparr>;
                mtuStr = getenv env ''NDR_MTU'' ''1500'' in
            case Atoi mtuStr of
              None \<Rightarrow> (c, Some (BadMTU mtuStr))
            | Some mtu \<Rightarrow>
                if mtu < 100 \<or> mtu > 65535 then (c, Some (BadMTU mtuStr))
                else
                  let c = c\<lparr>NDRMTU := mtu\<rparr> in
                  if CaptureMode c \<in> set capture_modes then (c, None)
                  else (c, Some (BadMode (CaptureMode c))))"

section \<open>Reference printers\<close>

text \<open>The notations an operator writes: decimal, and hexadecimal digits in either case.\<close>

definition digit_char :: "bool \<Rightarrow> nat \<Rightarrow> char" where
  "digit_char upper d =
     (if d < 10 then char_of (48 + d) else if upper then char_of (55 + d) else char_of (87 + d))"

fun print_nat :: "bool \<Rightarrow> nat \<Rightarrow> nat \<Rightarrow> string" where
  "print_nat upper base n =
     (if base < 2 \<or> n < base then [digit_char upper n]
      else print_nat upper base (n div base) @ [digit_char upper (n mod base)])"

declare print_nat.simps [simp del]

section \<open>Lemmas\<close>

lemma parse_loop_append:
  "parse_loop base (xs @ ys) n =
     (case parse_loop base xs n of Inl e \<Rightarrow> Inl e | Inr m \<Rightarrow> parse_loop base ys m)"
  by (induction base xs n rule: parse_loop.induct) (auto split: option.splits)

lemma digit_char_of:
  assumes "d < 16"
  shows "digit_of (digit_char upper d) = Some d"
proof -
  have "d \<in> set [0..<16]" using assms by simp
  then show ?thesis
    by (cases upper) (auto simp: upt_rec digit_of_def digit_char_def lower_def)
qed

lemma parse_loop_print:
  assumes "2 \<le> base" and "base \<le> 16" and "n < 2 ^ 32"
  shows "parse_loop base (print_nat upper base n) 0 = Inr n"
  using assms(3)
proof (induction n rule: less_induct)
  case (less n)
  show ?case
  proof (cases "n < base")
    case True
    with assms less.prems show ?thesis
      by (simp add: print_nat.simps [of upper base n] digit_char_of)
  next
    case False
    with assms have "n div base < n" by simp
    with less have "parse_loop base (print_nat upper base (n div base)) 0 = Inr (n div base)"
      by simp
    moreover have "n div base * base + n mod base = n" by simp
    moreover have "n mod base < base" using assms by simp
    moreover from this assms have "digit_of (digit_char upper (n mod base)) = Some (n mod base)"
      by (intro digit_char_of) linarith
    ultimately show ?thesis
      using False assms less.prems
      by (simp add: print_nat.simps [of upper base n] parse_loop_append not_le)
  qed
qed

lemma parse_loop_bound: "parse_loop base s n = Inr m \<Longrightarrow> n < 2 ^ 32 \<Longrightarrow> m < 2 ^ 32"
  by (induction base s n rule: parse_loop.induct) (auto split: option.splits if_splits)

lemma parse_vni_bound: "parse_vni s = Inr n \<Longrightarrow> n < 2 ^ 32"
  by (auto simp: parse_vni_def ParseUint32_def Let_def split: if_splits dest: parse_loop_bound)

lemma vni_mask:
  assumes "n < 2 ^ 32"
  shows "(of_nat n :: u64) AND 0xff000000 = 0 \<longleftrightarrow> n < 2 ^ 24"
proof -
  have m: "(0xff000000 :: nat) = push_bit 24 (mask 8)" by (simp add: mask_eq_exp_minus_1)
  have "n AND 0xff000000 = push_bit 24 (take_bit 8 (drop_bit 24 n))"
    unfolding m by (rule bit_eqI) (auto simp: bit_simps)
  also have "\<dots> = n div 2 ^ 24 * 2 ^ 24"
    using assms by (simp add: push_bit_eq_mult drop_bit_eq_div take_bit_nat_eq_self_iff)
  finally have e: "n AND 0xff000000 = n div 2 ^ 24 * 2 ^ 24" .
  have "unat ((of_nat n :: u64) AND 0xff000000) = n AND 0xff000000"
    using assms by (simp add: unsigned_and_eq unat_of_nat)
  then show ?thesis
    unfolding e by (auto simp: word_unat_eq_iff div_eq_0_iff)
qed

lemma lower_lower: "lower (lower c) = lower c"
  by (auto simp: lower_def Let_def)

lemma lower_consts: "lower (CHR ''0'') = CHR ''0''" "lower (CHR ''x'') = CHR ''x''" "lower (CHR ''X'') = CHR ''x''"
  by code_simp+

lemma digit_of_lower: "digit_of (lower c) = digit_of c"
proof (cases "65 \<le> (of_char c :: nat) \<and> (of_char c :: nat) \<le> 90")
  case True
  then show ?thesis by (auto simp: digit_of_def lower_def Let_def)
next
  case False
  then show ?thesis by (auto simp: digit_of_def lower_def Let_def)
qed

lemma parse_loop_ToLower: "parse_loop base (ToLower s) n = parse_loop base s n"
  by (induction s arbitrary: n) (auto simp: ToLower_def digit_of_lower split: option.splits)

lemma parse_loop_digits:
  "parse_loop base s n = Inr m \<Longrightarrow> c \<in> set s \<Longrightarrow> \<exists>d. digit_of c = Some d \<and> d < base"
  by (induction base s n rule: parse_loop.induct) (auto split: option.splits if_splits)

lemma print_nat_nonempty [simp]: "print_nat upper base n \<noteq> []"
  by (subst print_nat.simps) simp

lemma dec_no_prefix:
  assumes "parse_loop 10 s 0 = Inr m"
  shows "\<not> HasPrefix (ToLower s) ''0x''"
proof
  assume "HasPrefix (ToLower s) ''0x''"
  then obtain a c cs where s: "s = a # c # cs" and c: "lower c = CHR ''x''"
    by (auto simp: HasPrefix_def ToLower_def take_Cons' Suc_le_length_iff map_eq_Cons_conv numeral_2_eq_2
        split: if_splits)
  from parse_loop_digits [OF assms, of c] s obtain d where "digit_of c = Some d" "d < 10" by auto
  moreover have "digit_of c = digit_of (CHR ''x'')" using digit_of_lower [of c] c by simp
  moreover have "digit_of (CHR ''x'') = Some 33" by (simp add: digit_of_def lower_def)
  ultimately show False by simp
qed

text \<open>The three notations of a network identifier.\<close>

definition vni_notations :: "nat \<Rightarrow> string set" where
  "vni_notations n = {print_nat False 10 n} \<union>
     {x @ print_nat up 16 n | x up. x \<in> {''0x'', ''0X''}}"

lemma parse_vni_notations:
  assumes "n < 2 ^ 32" and "s \<in> vni_notations n"
  shows "parse_vni s = Inr n"
proof (cases "s = print_nat False 10 n")
  case True
  have "parse_loop 10 s 0 = Inr n" using assms(1) True by (simp add: parse_loop_print)
  with dec_no_prefix [OF this] True show ?thesis
    by (simp add: parse_vni_def ParseUint32_def Let_def)
next
  case False
  then obtain x up where x: "x \<in> {''0x'', ''0X''}" and s: "s = x @ print_nat up 16 n"
    using assms(2) by (auto simp: vni_notations_def)
  have l: "ToLower s = ''0x'' @ ToLower (print_nat up 16 n)"
    using x s by (auto simp: ToLower_def lower_consts)
  have "parse_loop 16 (ToLower (print_nat up 16 n)) 0 = Inr n"
    unfolding parse_loop_ToLower using assms(1) by (simp add: parse_loop_print)
  moreover have "ToLower (print_nat up 16 n) \<noteq> []" by (simp add: ToLower_def)
  ultimately show ?thesis
    unfolding parse_vni_def l by (simp add: HasPrefix_def ParseUint32_def)
qed

section \<open>Properties\<close>

lemma Load_None:
  "Load env = (c, None) \<longleftrightarrow>
     (\<exists>n m. parse_vni (getenv env ''VNI'' ''0'') = Inr n \<and> n < 2 ^ 24 \<and>
        Atoi (getenv env ''NDR_MTU'' ''1500'') = Some m \<and> 100 \<le> m \<and> m \<le> 65535 \<and>
        getenv env ''CAPTURE_MODE'' ''auto'' \<in> set capture_modes \<and>
        c = \<lparr>NDRAddr = getenv env ''SENSOR_NDR_ADDR'' [], VNI = of_nat n, NDRMTU = m,
             CaptureMode = getenv env ''CAPTURE_MODE'' ''auto'',
             LogLevel = ToLower (getenv env ''LOG_LEVEL'' ''info''),
             MetricsAddr = getenv env ''METRICS_ADDR'' '':9090'',
             HealthAddr = getenv env ''HEALTH_ADDR'' '':8080''\<rparr>)"
proof (cases "parse_vni (getenv env ''VNI'' ''0'')")
  case (Inl e)
  then show ?thesis by (simp add: Load_def Let_def)
next
  case (Inr n)
  note vni_mask [OF parse_vni_bound [OF Inr]]
  with Inr show ?thesis
    by (auto simp: Load_def Let_def split: option.splits if_splits)
qed

lemma unat_vni: "n < 2 ^ 24 \<Longrightarrow> unat (of_nat n :: u32) = n"
  by (simp add: unat_of_nat)

lemma vni_mask32: "unat (v :: u32) < 2 ^ 24 \<Longrightarrow> v AND 0xff000000 = 0"
proof -
  assume "unat v < 2 ^ 24"
  then have "v = take_bit 24 v"
    by (simp add: word_unat_eq_iff unsigned_take_bit_eq take_bit_nat_eq_self)
  moreover have "take_bit 24 v AND 0xff000000 = 0"
  proof -
    have m: "(0xff000000 :: u32) = push_bit 24 (mask 8)" by (simp add: mask_eq_exp_minus_1)
    show ?thesis unfolding m by (rule bit_word_eqI) (auto simp: bit_simps)
  qed
  ultimately show ?thesis by simp
qed

text \<open>C7: a configuration that \<open>Load\<close> accepts is in range: the network identifier is the value of
  the \<open>VNI\<close> string and fits 24 bits, the MTU lies in 100 to 65535, and the capture mode is
  one that \<open>capture.Pick\<close> knows.\<close>

theorem Load_in_range:
  assumes "Load env = (c, None)"
  shows "parse_vni (getenv env ''VNI'' ''0'') = Inr (unat (VNI c)) \<and>
    unat (VNI c) < 2 ^ 24 \<and> VNI c AND 0xff000000 = 0 \<and>
    Atoi (getenv env ''NDR_MTU'' ''1500'') = Some (NDRMTU c) \<and> 100 \<le> NDRMTU c \<and> NDRMTU c \<le> 65535 \<and>
    CaptureMode c \<in> set capture_modes"
  using assms by (auto simp: Load_None unat_vni vni_mask32)

definition default_config :: Config where
  "default_config = \<lparr>NDRAddr = [], VNI = 0, NDRMTU = 1500, CaptureMode = ''auto'',
     LogLevel = ''info'', MetricsAddr = '':9090'', HealthAddr = '':8080''\<rparr>"

text \<open>The empty environment loads the documented defaults (\<open>TestLoadDefaults\<close>).\<close>

lemma Load_defaults: "Load (\<lambda>_. None) = (default_config, None)"
proof -
  have "parse_vni ''0'' = Inr 0"
    by (simp add: parse_vni_def ToLower_def lower_def HasPrefix_def ParseUint32_def digit_of_def)
  moreover have "Atoi ''1500'' = Some 1500" by (simp add: Atoi_def)
  moreover have "ToLower ''info'' = ''info''" by (simp add: ToLower_def lower_def)
  ultimately show ?thesis
    unfolding Load_None by (simp add: getenv_def capture_modes_def default_config_def)
qed

theorem Load_in_range_witness:
  "Load (\<lambda>_. None) = (default_config, None) \<and> unat (VNI default_config) < 2 ^ 24 \<and>
   100 \<le> NDRMTU default_config \<and> CaptureMode default_config \<in> set capture_modes"
  using Load_in_range [OF Load_defaults] Load_defaults by simp

text \<open>C8: round trip of the network identifier. In an environment that loads, replacing \<open>VNI\<close> by
  any notation of a 24-bit number (decimal, or hexadecimal digits of either case behind \<open>0x\<close>
  or \<open>0X\<close>) loads the same configuration with exactly that number.\<close>

theorem Load_vni_roundtrip:
  assumes "Load env = (c, None)" and "n < 2 ^ 24" and "s \<in> vni_notations n"
  shows "Load (env(''VNI'' \<mapsto> s)) = (c\<lparr>VNI := of_nat n\<rparr>, None)"
  using assms(1) assms(2) parse_vni_notations [OF _ assms(3)]
  by (auto simp: Load_None getenv_def)

theorem Load_vni_roundtrip_witness:
  "Load (\<lambda>_. None) = (default_config, None) \<and> ''0xabc'' \<in> vni_notations 0xabc \<and>
   Load ((\<lambda>_. None)(''VNI'' \<mapsto> ''0xabc'')) = (default_config\<lparr>VNI := 0xabc\<rparr>, None)"
proof -
  have "print_nat False 16 0xabc = ''abc''" by code_simp
  then have v: "''0xabc'' \<in> vni_notations 0xabc"
    by (auto simp: vni_notations_def intro!: exI [of _ "''0x''"] exI [of _ False])
  from Load_vni_roundtrip [OF Load_defaults _ v] Load_defaults v show ?thesis by simp
qed

end
