(* ===== verification/Filter_Spec.thy ===== *)
theory Filter_Spec
  imports Prelude
begin

text \<open>
  The drop rules of \<open>internal/filter/spec.go\<close>: the \<open>Spec\<close> structure, the \<open>Default\<close> rules,
  the drop-reason labels and their order, and the declarative reading of a \<open>Spec\<close> on a frame
  that the comments of \<open>spec.go\<close> and \<open>cbpf.go\<close> give, against which both filter programs are
  verified.
\<close>

section \<open>The rules\<close>

record Spec =
  MetadataIP :: "byte \<times> byte \<times> byte \<times> byte"
  DNSPort :: u16
  VXLANPort :: u16
  VXLANSrcPort :: u16
  K8sNoiseTCPPorts :: "u16 list"
  K8sNoiseUDPPorts :: "u16 list"
  IPv4Only :: bool
  TCPUDPOnly :: bool

definition Default :: Spec where
  "Default = \<lparr>
     MetadataIP = (169, 254, 169, 254),
     DNSPort = 53,
     VXLANPort = 4789,
     VXLANSrcPort = 16401,
     K8sNoiseTCPPorts = [22, 8080, 8181, 9090, 10249, 10250, 10255, 10256],
     K8sNoiseUDPPorts = [123],
     IPv4Only = True,
     TCPUDPOnly = True \<rparr>"

section \<open>Drop reasons\<close>

type_synonym DropReason = string

definition DropNonIPv4 :: DropReason where "DropNonIPv4 = ''non_ipv4''"
definition DropMetadata :: DropReason where "DropMetadata = ''metadata''"
definition DropNonL4 :: DropReason where "DropNonL4 = ''non_tcp_udp''"
definition DropDNS :: DropReason where "DropDNS = ''dns''"
definition DropVXLAN :: DropReason where "DropVXLAN = ''vxlan_self''"
definition DropTruncate :: DropReason where "DropTruncate = ''truncated''"
definition DropK8sNoise :: DropReason where "DropK8sNoise = ''k8s_noise''"

lemmas DropReason_defs = DropNonIPv4_def DropMetadata_def DropNonL4_def DropDNS_def
  DropVXLAN_def DropTruncate_def DropK8sNoise_def

definition AllReasons :: "DropReason list" where
  "AllReasons = [DropNonIPv4, DropMetadata, DropNonL4, DropDNS, DropVXLAN, DropTruncate,
     DropK8sNoise]"

section \<open>What a specification means for a frame\<close>

text \<open>\<open>metadata\<close> is the big-endian value of \<open>MetadataIP\<close>. A field that lies outside the frame
  has no value, and a frame is accepted only when every field its rules look at has one.
  The layer-4 ports sit behind the IP header, whose length is the low nibble of byte 14
  counted in words.\<close>

definition metadata :: "Spec \<Rightarrow> u32" where
  "metadata sp = (case MetadataIP sp of (a, b, c, d) \<Rightarrow> BigEndian_Uint32 a b c d)"

definition ihl_bytes :: "bytes \<Rightarrow> nat" where
  "ihl_bytes f = 4 * unat (f ! 14 AND 15)"

definition ethertype :: "bytes \<Rightarrow> u32 option" where "ethertype f = rd f 12 2"
definition ip_src :: "bytes \<Rightarrow> u32 option" where "ip_src f = rd f 26 4"
definition ip_dst :: "bytes \<Rightarrow> u32 option" where "ip_dst f = rd f 30 4"
definition ip_proto :: "bytes \<Rightarrow> u32 option" where "ip_proto f = rd f 23 1"
definition l4_sport :: "bytes \<Rightarrow> u32 option" where "l4_sport f = rd f (14 + ihl_bytes f) 2"
definition l4_dport :: "bytes \<Rightarrow> u32 option" where "l4_dport f = rd f (16 + ihl_bytes f) 2"

text \<open>\<open>allowed v bad\<close>: the field is present and its value is none of \<open>bad\<close>.\<close>

definition allowed :: "u32 option \<Rightarrow> u32 list \<Rightarrow> bool" where
  "allowed v bad = (case v of None \<Rightarrow> False | Some x \<Rightarrow> x \<notin> set bad)"

definition spec_accepts :: "Spec \<Rightarrow> bytes \<Rightarrow> bool" where
  "spec_accepts sp f \<longleftrightarrow>
     ethertype f = Some 0x0800 \<and>
     allowed (ip_src f) [metadata sp] \<and>
     allowed (ip_dst f) [metadata sp] \<and>
     (ip_proto f = Some 6 \<and>
        allowed (l4_sport f) (map ucast (K8sNoiseTCPPorts sp)) \<and>
        allowed (l4_dport f) (map ucast (K8sNoiseTCPPorts sp))
      \<or> ip_proto f = Some 17 \<and>
        allowed (l4_sport f)
          (ucast (DNSPort sp) # ucast (VXLANSrcPort sp) # map ucast (K8sNoiseUDPPorts sp)) \<and>
        allowed (l4_dport f)
          (ucast (DNSPort sp) # ucast (VXLANPort sp) # map ucast (K8sNoiseUDPPorts sp)))"

text \<open>The minimal frames of \<open>cbpf_test.go\<close>: Ethernet, a 20-byte IPv4 header and 8 bytes of
  layer 4. They are the concrete inputs of the witnesses.\<close>

definition buildFrameSrc :: "u16 \<Rightarrow> byte \<Rightarrow> bytes \<Rightarrow> bytes \<Rightarrow> u16 \<Rightarrow> u16 \<Rightarrow> bytes" where
  "buildFrameSrc ety proto src dst sport dport =
     replicate 12 0 @ BigEndian_PutUint16 ety @ [0x45] @ replicate 8 0 @ [proto] @ [0, 0] @
     src @ dst @ BigEndian_PutUint16 sport @ BigEndian_PutUint16 dport @ replicate 4 0"

definition buildFrame :: "u16 \<Rightarrow> byte \<Rightarrow> bytes \<Rightarrow> u16 \<Rightarrow> u16 \<Rightarrow> bytes" where
  "buildFrame ety proto dst sport dport = buildFrameSrc ety proto [10, 0, 0, 1] dst sport dport"

lemmas field_defs = ethertype_def ip_src_def ip_dst_def ip_proto_def l4_sport_def l4_dport_def

section \<open>Lemmas\<close>

lemma allowed_None [simp]: "\<not> allowed None bad"
  by (simp add: allowed_def)

lemma allowed_Some [simp]: "allowed (Some x) bad \<longleftrightarrow> x \<notin> set bad"
  by (simp add: allowed_def)

lemma metadata_Default [simp]: "metadata Default = 0xa9fea9fe"
  by (simp add: metadata_def Default_def BigEndian_Uint32_def)

end
