(* ===== verification/Metrics.thy ===== *)
theory Metrics
  imports Filter_Spec "HOL-Library.Log_Nat"
begin

text \<open>
  \<open>internal/metrics/prom.go\<close>: the metric descriptors and their registration. The Prometheus client
  library is not part of the repository: its operations are the fields of a record \<open>prom\<close>, and
  the locale \<open>prom_registry\<close> states what the library documents of them. A series is a metric name
  with its label values. Values are the whole numbers that the program adds; the library keeps
  them in a \<open>float64\<close>, so its promise is for totals below \<open>2 ^ 53\<close>.
\<close>

section \<open>float64\<close>

text \<open>The conversion \<open>float64(x)\<close> of an unsigned integer: exact up to 53 significant bits, rounded
  to nearest with ties to even above.\<close>

definition float64 :: "nat \<Rightarrow> nat" where
  "float64 n =
     (let e = floorlog 2 n - 53; q = n div 2 ^ e; r = n mod 2 ^ e in
      (if 2 * r > 2 ^ e \<or> 2 * r = 2 ^ e \<and> odd q then q + 1 else q) * 2 ^ e)"

section \<open>The client library\<close>

record desc =
  d_name :: string
  d_labels :: "string list"

type_synonym series = "string \<times> string list"

text \<open>\<open>p_register\<close> is \<open>MustRegister\<close> of one collector (\<open>None\<close>: it panics), \<open>p_add\<close> and \<open>p_set\<close> act
  on one series, \<open>p_val\<close> is what a scrape shows.\<close>

record 'm prom =
  p_register :: "desc \<Rightarrow> 'm \<Rightarrow> 'm option"
  p_add :: "series \<Rightarrow> nat \<Rightarrow> 'm \<Rightarrow> 'm"
  p_set :: "series \<Rightarrow> nat \<Rightarrow> 'm \<Rightarrow> 'm"
  p_val :: "'m \<Rightarrow> series \<Rightarrow> nat option"

text \<open>\<open>WithLabelValues\<close> panics when the number of values is not the number of labels.\<close>

definition WithLabelValues :: "desc \<Rightarrow> string list \<Rightarrow> series option" where
  "WithLabelValues d vs = (if length vs = length (d_labels d) then Some (d_name d, vs) else None)"

definition vec_add :: "'m prom \<Rightarrow> desc \<Rightarrow> string list \<Rightarrow> nat \<Rightarrow> 'm \<Rightarrow> 'm option" where
  "vec_add P d vs v m = (case WithLabelValues d vs of None \<Rightarrow> None | Some s \<Rightarrow> Some (p_add P s v m))"

definition vec_set :: "'m prom \<Rightarrow> desc \<Rightarrow> string list \<Rightarrow> nat \<Rightarrow> 'm \<Rightarrow> 'm option" where
  "vec_set P d vs v m = (case WithLabelValues d vs of None \<Rightarrow> None | Some s \<Rightarrow> Some (p_set P s v m))"

definition counter_add :: "'m prom \<Rightarrow> desc \<Rightarrow> nat \<Rightarrow> 'm \<Rightarrow> 'm" where
  "counter_add P d v m = p_add P (d_name d, []) v m"

section \<open>The metrics of the sensor\<close>

record Metrics =
  PacketsCaptured :: desc
  PacketsForwarded :: desc
  BytesForwarded :: desc
  FilterDrops :: desc
  KernelDrops :: desc
  MTUExceeded :: desc
  SendErrors :: desc
  CaptureMode :: desc
  Info :: desc

definition metrics :: Metrics where
  "metrics =
     \<lparr>PacketsCaptured = \<lparr>d_name = ''sensor_packets_captured_total'', d_labels = [''iface'', ''direction'']\<rparr>,
      PacketsForwarded = \<lparr>d_name = ''sensor_packets_forwarded_total'', d_labels = []\<rparr>,
      BytesForwarded = \<lparr>d_name = ''sensor_bytes_forwarded_total'', d_labels = []\<rparr>,
      FilterDrops = \<lparr>d_name = ''sensor_packets_dropped_filter_total'', d_labels = [''reason'']\<rparr>,
      KernelDrops = \<lparr>d_name = ''sensor_packets_dropped_kernel_total'', d_labels = []\<rparr>,
      MTUExceeded = \<lparr>d_name = ''sensor_mtu_exceeded_total'', d_labels = []\<rparr>,
      SendErrors = \<lparr>d_name = ''sensor_ndr_send_errors_total'', d_labels = []\<rparr>,
      CaptureMode = \<lparr>d_name = ''sensor_capture_mode'', d_labels = [''mode'']\<rparr>,
      Info = \<lparr>d_name = ''sensor_info'', d_labels = [''version'', ''node'', ''mode'', ''ndr_configured'']\<rparr>\<rparr>"

definition collectors :: "Metrics \<Rightarrow> desc list" where
  "collectors m = [PacketsCaptured m, PacketsForwarded m, BytesForwarded m, FilterDrops m, KernelDrops m,
     MTUExceeded m, SendErrors m, CaptureMode m, Info m]"

fun MustRegister :: "'m prom \<Rightarrow> desc list \<Rightarrow> 'm \<Rightarrow> 'm option" where
  "MustRegister P [] reg = Some reg"
| "MustRegister P (d # ds) reg =
     (case p_register P d reg of None \<Rightarrow> None | Some reg \<Rightarrow> MustRegister P ds reg)"

fun init_reasons :: "'m prom \<Rightarrow> desc \<Rightarrow> DropReason list \<Rightarrow> 'm \<Rightarrow> 'm option" where
  "init_reasons P d [] reg = Some reg"
| "init_reasons P d (r # rs) reg =
     (case vec_add P d [r] 0 reg of None \<Rightarrow> None | Some reg \<Rightarrow> init_reasons P d rs reg)"

fun init_modes :: "'m prom \<Rightarrow> desc \<Rightarrow> string list \<Rightarrow> 'm \<Rightarrow> 'm option" where
  "init_modes P d [] reg = Some reg"
| "init_modes P d (mode # modes) reg =
     (case vec_set P d [mode] 0 reg of None \<Rightarrow> None | Some reg \<Rightarrow> init_modes P d modes reg)"

definition New :: "'m prom \<Rightarrow> 'm \<Rightarrow> (Metrics \<times> 'm) option" where
  "New P reg =
     (let m = metrics in
      case MustRegister P (collectors m) reg of
        None \<Rightarrow> None
      | Some reg \<Rightarrow>
     (case init_reasons P (FilterDrops m) AllReasons reg of
        None \<Rightarrow> None
      | Some reg \<Rightarrow>
     (case init_modes P (CaptureMode m) [''tcbpf'', ''afpacket''] reg of
        None \<Rightarrow> None
      | Some reg \<Rightarrow> Some (m, reg))))"

text \<open>\<open>Handler\<close> hands the registry to \<open>promhttp.HandlerFor\<close>, both as what is scraped and as where the
  handler counts its own errors.\<close>

definition metrics_Handler :: "('m \<Rightarrow> 'm \<Rightarrow> 'h) \<Rightarrow> 'm \<Rightarrow> 'h" where
  "metrics_Handler HandlerFor reg = HandlerFor reg reg"

section \<open>Laws of the library\<close>

text \<open>The value of a series, 0 when it does not exist yet.\<close>

definition amount :: "'m prom \<Rightarrow> 'm \<Rightarrow> series \<Rightarrow> nat" where
  "amount P m s = (case p_val P m s of Some x \<Rightarrow> x | None \<Rightarrow> 0)"

locale prom_registry =
  fixes P :: "'m prom" and registered :: "'m \<Rightarrow> desc set"
  assumes register_fresh:
      "d_name d \<notin> d_name ` registered m \<Longrightarrow>
         \<exists>m'. p_register P d m = Some m' \<and> registered m' = insert d (registered m) \<and>
           (\<forall>s. p_val P m' s = (if s = (d_name d, []) \<and> d_labels d = [] then Some 0 else p_val P m s))"
    and add_exact:
      "amount P m s + v < 2 ^ 53 \<Longrightarrow> p_val P (p_add P s v m) s = Some (amount P m s + v)"
    and add_other: "s' \<noteq> s \<Longrightarrow> p_val P (p_add P s v m) s' = p_val P m s'"
    and set_val: "p_val P (p_set P s v m) s' = (if s' = s then Some v else p_val P m s')"
    and add_registered: "registered (p_add P s v m) = registered m"
    and set_registered: "registered (p_set P s v m) = registered m"
begin

lemma amount_add:
  "amount P m s + v < 2 ^ 53 \<Longrightarrow> amount P (p_add P s v m) s = amount P m s + v"
  "s' \<noteq> s \<Longrightarrow> amount P (p_add P s v m) s' = amount P m s'"
  using add_exact [of m s v] add_other [of s' s v m] by (simp_all add: amount_def)

lemma amount_add_if:
  "amount P m s + v < 2 ^ 53 \<Longrightarrow> amount P (p_add P s v m) s' = amount P m s' + (if s' = s then v else 0)"
  by (simp add: amount_add)

lemma amount_set: "amount P (p_set P s v m) s' = (if s' = s then v else amount P m s')"
  by (simp add: amount_def set_val)

lemma MustRegister_fresh:
  "distinct (map d_name ds) \<Longrightarrow> d_name ` set ds \<inter> d_name ` registered m = {} \<Longrightarrow>
     \<exists>m'. MustRegister P ds m = Some m' \<and> registered m' = set ds \<union> registered m \<and>
       (\<forall>s. p_val P m' s = (if \<exists>d \<in> set ds. s = (d_name d, []) \<and> d_labels d = [] then Some 0 else p_val P m s))"
proof (induction ds arbitrary: m)
  case (Cons d ds)
  from Cons.prems obtain m1 where m1: "p_register P d m = Some m1" "registered m1 = insert d (registered m)"
    "\<And>s. p_val P m1 s = (if s = (d_name d, []) \<and> d_labels d = [] then Some 0 else p_val P m s)"
    using register_fresh [of d m] by auto
  have "d_name ` set ds \<inter> d_name ` registered m1 = {}" using Cons.prems by (auto simp: m1(2))
  with Cons.IH [of m1] Cons.prems obtain m2 where "MustRegister P ds m1 = Some m2"
    "registered m2 = set ds \<union> registered m1"
    "\<forall>s. p_val P m2 s = (if \<exists>d \<in> set ds. s = (d_name d, []) \<and> d_labels d = [] then Some 0 else p_val P m1 s)"
    by auto
  with m1 show ?case by auto
qed simp

lemma init_reasons_ok:
  "length (d_labels d) = 1 \<Longrightarrow> (\<forall>r. p_val P m (d_name d, [r]) = None \<or> p_val P m (d_name d, [r]) = Some 0) \<Longrightarrow>
     \<exists>m'. init_reasons P d rs m = Some m' \<and> registered m' = registered m \<and>
       (\<forall>s. p_val P m' s = (if \<exists>r \<in> set rs. s = (d_name d, [r]) then Some 0 else p_val P m s))"
proof (induction rs arbitrary: m)
  case (Cons r rs)
  let ?m = "p_add P (d_name d, [r]) 0 m"
  have z: "amount P m (d_name d, [r]) = 0" using Cons.prems(2) [THEN spec, of r] by (auto simp: amount_def)
  have v: "p_val P ?m s = (if s = (d_name d, [r]) then Some 0 else p_val P m s)" for s
    using add_exact [of m "(d_name d, [r])" 0] add_other [of s "(d_name d, [r])" 0 m] z by auto
  have "\<forall>r. p_val P ?m (d_name d, [r]) = None \<or> p_val P ?m (d_name d, [r]) = Some 0"
    using Cons.prems(2) by (simp add: v)
  from Cons.IH [OF Cons.prems(1) this] Cons.prems(1) show ?case
    by (auto simp: vec_add_def WithLabelValues_def v add_registered)
qed simp

lemma init_modes_ok:
  "length (d_labels d) = 1 \<Longrightarrow>
     \<exists>m'. init_modes P d ms m = Some m' \<and> registered m' = registered m \<and>
       (\<forall>s. p_val P m' s = (if \<exists>r \<in> set ms. s = (d_name d, [r]) then Some 0 else p_val P m s))"
proof (induction ms arbitrary: m)
  case (Cons r ms)
  from Cons.IH [OF Cons.prems, of "p_set P (d_name d, [r]) 0 m"] Cons.prems show ?case
    by (auto simp: vec_set_def WithLabelValues_def set_val set_registered)
qed simp

lemma New_fresh:
  assumes "registered reg = {}" "\<forall>s. p_val P reg s = None"
  shows "\<exists>m. New P reg = Some (metrics, m) \<and> registered m = set (collectors metrics) \<and>
    (\<forall>s. p_val P m s =
      (if (\<exists>d \<in> set (collectors metrics). s = (d_name d, []) \<and> d_labels d = []) \<or>
          (\<exists>r \<in> set AllReasons. s = (d_name (FilterDrops metrics), [r])) \<or>
          (\<exists>k \<in> {''tcbpf'', ''afpacket''}. s = (d_name (CaptureMode metrics), [k]))
       then Some 0 else None))"
proof -
  have names: "distinct (map d_name (collectors metrics))" by (simp add: collectors_def metrics_def)
  have e: "p_val P reg s = None" for s using assms(2) ..
  obtain m1 where m1: "MustRegister P (collectors metrics) reg = Some m1" "registered m1 = set (collectors metrics)"
    "\<And>s. p_val P m1 s = (if \<exists>d \<in> set (collectors metrics). s = (d_name d, []) \<and> d_labels d = [] then Some 0 else None)"
    using MustRegister_fresh [OF names, of reg] unfolding e assms(1) by auto
  have l: "length (d_labels (FilterDrops metrics)) = 1" "length (d_labels (CaptureMode metrics)) = 1"
    by (simp_all add: metrics_def)
  obtain m2 where m2: "init_reasons P (FilterDrops metrics) AllReasons m1 = Some m2" "registered m2 = registered m1"
    "\<And>s. p_val P m2 s = (if \<exists>r \<in> set AllReasons. s = (d_name (FilterDrops metrics), [r]) then Some 0 else p_val P m1 s)"
    using init_reasons_ok [OF l(1), of m1 AllReasons] by (auto simp: m1(3))
  obtain m3 where m3: "init_modes P (CaptureMode metrics) [''tcbpf'', ''afpacket''] m2 = Some m3"
    "registered m3 = registered m2"
    "\<And>s. p_val P m3 s = (if \<exists>k \<in> set [''tcbpf'', ''afpacket'']. s = (d_name (CaptureMode metrics), [k]) then Some 0 else p_val P m2 s)"
    using init_modes_ok [OF l(2), of "[''tcbpf'', ''afpacket'']" m2] by blast
  have "New P reg = Some (metrics, m3)" by (simp add: New_def Let_def m1(1) m2(1) m3(1) del: init_modes.simps)
  moreover have "registered m3 = set (collectors metrics)" by (simp add: m1(2) m2(2) m3(2))
  moreover have "p_val P m3 s =
      (if (\<exists>d \<in> set (collectors metrics). s = (d_name d, []) \<and> d_labels d = []) \<or>
          (\<exists>r \<in> set AllReasons. s = (d_name (FilterDrops metrics), [r])) \<or>
          (\<exists>k \<in> {''tcbpf'', ''afpacket''}. s = (d_name (CaptureMode metrics), [k]))
       then Some 0 else None)" for s
    unfolding m3(3) m2(3) m1(3) by simp
  ultimately show ?thesis by blast
qed

end

text \<open>A reference registry: the registered descriptors and the values.\<close>

type_synonym ref_reg = "desc list \<times> (series \<rightharpoonup> nat)"

definition ref_prom :: "ref_reg prom" where
  "ref_prom =
     \<lparr>p_register = (\<lambda>d (ds, f). if d_name d \<in> d_name ` set ds then None
        else Some (d # ds, if d_labels d = [] then f((d_name d, []) \<mapsto> 0) else f)),
      p_add = (\<lambda>s v (ds, f). (ds, f(s \<mapsto> (case f s of Some x \<Rightarrow> x | None \<Rightarrow> 0) + v))),
      p_set = (\<lambda>s v (ds, f). (ds, f(s \<mapsto> v))),
      p_val = snd\<rparr>"

interpretation ref_registry: prom_registry ref_prom "\<lambda>m. set (fst m)"
  by unfold_locales (auto simp: ref_prom_def amount_def split: prod.splits)

section \<open>Properties\<close>

lemma float64_exact: "n < 2 ^ 53 \<Longrightarrow> float64 n = n"
proof -
  assume "n < 2 ^ 53"
  then have "floorlog 2 n \<le> 53" by (intro floorlog_leI) simp_all
  then show ?thesis by (simp add: float64_def)
qed



end
