(* ===== verification/Forward.thy ===== *)
theory Forward
  imports Prelude
begin

text \<open>
  \<open>internal/forward/vxlan.go\<close>: the VXLAN forwarder with its reused send buffer. The UDP socket
  is a parameter: \<open>dial\<close> answers \<open>net.DialUDP\<close>, \<open>write\<close> answers each \<open>conn.Write\<close> with an error
  or the number of bytes written. \<open>Send\<close> returns, beside the new forwarder and its result, the
  datagram it handed to the socket. A panic of the Go code is the value \<open>None\<close> (\<open>Send\<close>) or
  \<open>NewPanic\<close> (\<open>New\<close>).
\<close>

section \<open>net.ParseIP\<close>

text \<open>The dotted-decimal parser of \<open>net.ParseIP\<close>, character by character: \<open>acc\<close> the fields
  read, \<open>val\<close> and \<open>digs\<close> the current octet and its number of digits. An IPv6 literal is left
  to the parameter \<open>v6\<close>.\<close>

definition is_digit :: "char \<Rightarrow> bool" where
  "is_digit c = (48 \<le> (of_char c :: nat) \<and> (of_char c :: nat) \<le> 57)"

definition digit_val :: "char \<Rightarrow> nat" where
  "digit_val c = of_char c - 48"

fun parseIPv4 :: "string \<Rightarrow> byte list \<Rightarrow> nat \<Rightarrow> nat \<Rightarrow> bytes option" where
  "parseIPv4 [] acc val digs =
     (if length acc < 3 \<or> digs = 0 then None else Some (acc @ [of_nat val]))"
| "parseIPv4 (c # cs) acc val digs =
     (if is_digit c then
        if digs = 1 \<and> val = 0 then None
        else let v = val * 10 + digit_val c in
             if v > 255 then None else parseIPv4 cs acc v (Suc digs)
      else if c = CHR ''.'' then
        if digs = 0 \<or> cs = [] then None
        else if length acc = 3 then None
        else parseIPv4 cs (acc @ [of_nat val]) 0 0
      else None)"

fun ip_kind :: "string \<Rightarrow> char option" where
  "ip_kind [] = None"
| "ip_kind (c # cs) = (if c = CHR ''.'' \<or> c = CHR '':'' \<or> c = CHR ''%'' then Some c else ip_kind cs)"

definition ParseIP :: "(string \<Rightarrow> bytes option) \<Rightarrow> string \<Rightarrow> bytes option" where
  "ParseIP v6 s =
     (case ip_kind s of
        Some c \<Rightarrow> if c = CHR ''.'' then parseIPv4 s [] 0 0
                  else if c = CHR '':'' then v6 s else None
      | None \<Rightarrow> None)"

section \<open>The forwarder\<close>

definition VXLANOverhead :: int where "VXLANOverhead = 50"

record Forwarder =
  header :: bytes
  dst :: "bytes \<times> nat"
  innerMax :: int
  buf :: bytes
  sent :: u64
  sendErrors :: u64
  mtuExceeded :: u64
  bytesOut :: u64

datatype new_error = VniOutOfRange u32 | InvalidNDRAddress string | DialNDR string | NewPanic

definition vxlan_header :: "u32 \<Rightarrow> bytes" where
  "vxlan_header vni = BigEndian_PutUint32 0x08000000 @ BigEndian_PutUint32 (push_bit 8 vni)"

definition New ::
  "(string \<Rightarrow> bytes option) \<Rightarrow> (bytes \<Rightarrow> nat \<Rightarrow> string option) \<Rightarrow> string \<Rightarrow> u32 \<Rightarrow> int
     \<Rightarrow> new_error + Forwarder" where
  "New v6 dial ndrAddr vni ndrMTU =
     (if vni AND 0xff000000 \<noteq> 0 then Inl (VniOutOfRange vni)
      else case ParseIP v6 ndrAddr of
        None \<Rightarrow> Inl (InvalidNDRAddress ndrAddr)
      | Some ip \<Rightarrow>
          (case dial ip 4789 of
             Some e \<Rightarrow> Inl (DialNDR e)
           | None \<Rightarrow>
               (let hdr = vxlan_header vni;
                    imax = ndrMTU - VXLANOverhead in
                if imax + 8 < 0 then Inl NewPanic
                else case copy_into (replicate (nat (imax + 8)) 0) 0 8 hdr of
                    None \<Rightarrow> Inl NewPanic
                  | Some (b, n) \<Rightarrow>
                      Inr \<lparr>header = hdr, dst = (ip, 4789), innerMax = imax, buf = b,
                           sent = 0, sendErrors = 0, mtuExceeded = 0, bytesOut = 0\<rparr>)))"

type_synonym write_fn = "bytes \<Rightarrow> string + nat"

definition Send :: "write_fn \<Rightarrow> Forwarder \<Rightarrow> bytes \<Rightarrow> (Forwarder \<times> nat \<times> bytes option) option" where
  "Send wr f frame =
     (if int (length frame) > innerMax f
      then Some (f\<lparr>mtuExceeded := mtuExceeded f + 1\<rparr>, 0, None)
      else case copy_into (buf f) 8 (8 + length frame) frame of
        None \<Rightarrow> None
      | Some (b, n) \<Rightarrow>
          (case slice b 0 (8 + n) of
             None \<Rightarrow> None
           | Some dg \<Rightarrow>
               (case wr dg of
                  Inl e \<Rightarrow> Some (f\<lparr>buf := b, sendErrors := sendErrors f + 1\<rparr>, 0, Some dg)
                | Inr written \<Rightarrow>
                    Some (f\<lparr>buf := b, sent := sent f + 1,
                            bytesOut := bytesOut f + of_nat written\<rparr>,
                          length frame, Some dg))))"

record FwdStats =
  Sent :: u64
  SendErrors :: u64
  MTUExceeded :: u64
  BytesOut :: u64

definition FStats :: "Forwarder \<Rightarrow> FwdStats" where
  "FStats f = \<lparr>Sent = sent f, SendErrors = sendErrors f, MTUExceeded = mtuExceeded f,
     BytesOut = bytesOut f\<rparr>"

text \<open>\<open>Close\<close> closes the socket; \<open>conn_close\<close> is its answer.\<close>

definition FClose :: "(bytes \<times> nat \<Rightarrow> string option) \<Rightarrow> Forwarder \<Rightarrow> string option" where
  "FClose conn_close f = conn_close (dst f)"

text \<open>The forwarder on a sequence of frames, each with the answer of the socket.\<close>

fun run_sends :: "(write_fn \<times> bytes) list \<Rightarrow> Forwarder \<Rightarrow> (Forwarder \<times> bytes list) option" where
  "run_sends [] f = Some (f, [])"
| "run_sends ((wr, frame) # rest) f =
     (case Send wr f frame of
        None \<Rightarrow> None
      | Some (f', n, dg) \<Rightarrow>
          (case run_sends rest f' of
             None \<Rightarrow> None
           | Some (f'', dgs) \<Rightarrow> Some (f'', (case dg of None \<Rightarrow> dgs | Some d \<Rightarrow> d # dgs))))"

section \<open>Invariant\<close>

definition fwd_inv :: "Forwarder \<Rightarrow> bool" where
  "fwd_inv f \<longleftrightarrow> 0 \<le> innerMax f \<and> length (header f) = 8 \<and>
     length (buf f) = nat (innerMax f) + 8 \<and> take 8 (buf f) = header f"

lemma length_vxlan_header [simp]: "length (vxlan_header vni) = 8"
  by (simp add: vxlan_header_def)

lemma New_Inr:
  assumes "New v6 dial addr vni mtu = Inr f"
  shows "fwd_inv f" and "innerMax f = mtu - 50" and "header f = vxlan_header vni"
    and "vni AND 0xff000000 = 0" and "\<exists>ip. ParseIP v6 addr = Some ip \<and> dst f = (ip, 4789)"
    and "sent f = 0" and "sendErrors f = 0" and "mtuExceeded f = 0"
  using assms
  by (auto simp: New_def fwd_inv_def VXLANOverhead_def slice_defs
      split: if_splits option.splits)

lemma Send_inv:
  assumes "fwd_inv f"
  shows "Send wr f frame = Some
    (if int (length frame) > innerMax f
     then (f\<lparr>mtuExceeded := mtuExceeded f + 1\<rparr>, 0, None)
     else let dg = header f @ frame; b = dg @ drop (length dg) (buf f) in
       (case wr dg of
          Inl e \<Rightarrow> (f\<lparr>buf := b, sendErrors := sendErrors f + 1\<rparr>, 0, Some dg)
        | Inr written \<Rightarrow> (f\<lparr>buf := b, sent := sent f + 1,
            bytesOut := bytesOut f + of_nat written\<rparr>, length frame, Some dg)))"
proof (cases "int (length frame) > innerMax f")
  case True
  then show ?thesis by (simp add: Send_def)
next
  case False
  with assms have fit: "8 + length frame \<le> length (buf f)" and hd: "take 8 (buf f) = header f"
      and len: "length (header f) = 8"
    by (auto simp: fwd_inv_def)
  have "copy_into (buf f) 8 (8 + length frame) frame =
      Some ((header f @ frame) @ drop (8 + length frame) (buf f), length frame)"
    using copy_into_exact [OF fit] hd by simp
  moreover have "slice ((header f @ frame) @ drop (8 + length frame) (buf f)) 0 (8 + length frame)
      = Some (header f @ frame)"
    using slice_append_left [of "header f @ frame"] len by simp
  ultimately show ?thesis
    using False len by (simp add: Send_def Let_def split: sum.splits)
qed

lemma Send_fwd_inv:
  assumes "fwd_inv f" and "Send wr f frame = Some (f', n, dg)"
  shows "fwd_inv f' \<and> header f' = header f \<and> innerMax f' = innerMax f \<and> dst f' = dst f"
  using assms(2) assms(1)
  by (auto simp: Send_inv [OF assms(1)] Let_def fwd_inv_def split: if_splits sum.splits)

lemma Send_fits:
  assumes "fwd_inv f" "int (length frame) \<le> innerMax f"
  shows "\<exists>f' n. Send wr f frame = Some (f', n, Some (header f @ frame))"
  using assms(2) by (cases "wr (header f @ frame)") (simp_all add: Send_inv [OF assms(1)] Let_def)

section \<open>Reference forwarder\<close>

text \<open>What \<open>Send\<close> promises, without the shared buffer: a fresh slice of header and frame per
  datagram, as the forwarder did before it reused its buffer. \<open>fwd_abs\<close> forgets the buffer.\<close>

record fwd_spec =
  fs_header :: bytes
  fs_max :: int
  fs_stats :: FwdStats

definition fwd_abs :: "Forwarder \<Rightarrow> fwd_spec" where
  "fwd_abs f = \<lparr>fs_header = header f, fs_max = innerMax f, fs_stats = FStats f\<rparr>"

definition Send_spec :: "write_fn \<Rightarrow> fwd_spec \<Rightarrow> bytes \<Rightarrow> fwd_spec \<times> nat \<times> bytes option" where
  "Send_spec wr a frame =
     (let st = fs_stats a in
      if int (length frame) > fs_max a
      then (a\<lparr>fs_stats := st\<lparr>MTUExceeded := MTUExceeded st + 1\<rparr>\<rparr>, 0, None)
      else let dg = fs_header a @ frame in
        case wr dg of
          Inl e \<Rightarrow> (a\<lparr>fs_stats := st\<lparr>SendErrors := SendErrors st + 1\<rparr>\<rparr>, 0, Some dg)
        | Inr w \<Rightarrow> (a\<lparr>fs_stats := st\<lparr>Sent := Sent st + 1, BytesOut := BytesOut st + of_nat w\<rparr>\<rparr>,
                    length frame, Some dg))"

section \<open>Properties\<close>

lemma Send_simulates:
  assumes "fwd_inv f"
  shows "\<exists>f' n dg. Send wr f frame = Some (f', n, dg) \<and> fwd_inv f' \<and>
    Send_spec wr (fwd_abs f) frame = (fwd_abs f', n, dg)"
proof -
  obtain f' n dg where r: "Send wr f frame = Some (f', n, dg)"
    using Send_inv [OF assms] by (metis prod_cases3)
  moreover have "Send_spec wr (fwd_abs f) frame = (fwd_abs f', n, dg)"
    using r by (auto simp: Send_inv [OF assms] Send_spec_def fwd_abs_def FStats_def Let_def
        split: if_splits sum.splits)
  ultimately show ?thesis using Send_fwd_inv [OF assms r] by blast
qed

text \<open>C5: the buffer-reusing \<open>Send\<close> refines the allocating one. On a forwarder that \<open>New\<close> made or
  that earlier sends left, it never panics, keeps the invariant, and its result, its counters
  and the datagram on the wire are those of the reference, whatever the socket answers.\<close>

theorem Send_refines:
  assumes "fwd_inv f"
  shows "\<exists>f' n dg. Send wr f frame = Some (f', n, dg) \<and> fwd_inv f' \<and>
    Send_spec wr (fwd_abs f) frame = (fwd_abs f', n, dg)"
  using assms by (rule Send_simulates)

definition example_fwd :: Forwarder where
  "example_fwd = \<lparr>header = vxlan_header 0x0a0b0c, dst = ([10, 0, 0, 5], 4789), innerMax = 50,
     buf = vxlan_header 0x0a0b0c @ replicate 50 0,
     sent = 0, sendErrors = 0, mtuExceeded = 0, bytesOut = 0\<rparr>"

lemma example_fwd: "New (\<lambda>_. None) (\<lambda>_ _. None) ''10.0.0.5'' 0x0a0b0c 100 = Inr example_fwd"
  by (simp add: New_def ParseIP_def is_digit_def digit_val_def VXLANOverhead_def slice_defs
      example_fwd_def)

theorem Send_refines_witness:
  "fwd_inv example_fwd \<and>
   (\<exists>f' n dg. Send (\<lambda>d. Inr (length d)) example_fwd [1, 2, 3] = Some (f', n, dg) \<and> fwd_inv f' \<and>
      Send_spec (\<lambda>d. Inr (length d)) (fwd_abs example_fwd) [1, 2, 3] = (fwd_abs f', n, dg))"
proof -
  have "fwd_inv example_fwd" using example_fwd by (rule New_Inr)
  then show ?thesis using Send_refines by blast
qed

text \<open>The decoder of RFC 7348: flags byte, reserved bytes, network identifier.\<close>

definition decode_vxlan :: "bytes \<Rightarrow> (byte \<times> u32 \<times> bytes) option" where
  "decode_vxlan d =
     (case d of
        fl # r0 # r1 # r2 # v0 # v1 # v2 # r3 # inner \<Rightarrow>
          if r0 = 0 \<and> r1 = 0 \<and> r2 = 0 \<and> r3 = 0
          then Some (fl, BigEndian_Uint32 0 v0 v1 v2, inner) else None
      | _ \<Rightarrow> None)"

lemma vni_bits:
  assumes "(vni :: u32) AND 0xff000000 = 0" and "bit vni n"
  shows "n < 24"
proof (rule ccontr)
  assume "\<not> n < 24"
  moreover have "n < 32" using assms(2) bit_imp_le_length by fastforce
  ultimately have "bit (0xff000000 :: u32) n"
    by (auto simp: bit_numeral_rec numeral_eq_Suc less_Suc_eq)
  with assms(2) have "bit (vni AND 0xff000000) n" by (simp add: bit_and_iff)
  with assms(1) show False by simp
qed

lemma decode_vxlan_header:
  assumes "vni AND 0xff000000 = 0"
  shows "decode_vxlan (vxlan_header vni @ frame) = Some (0x08, vni, frame)"
proof -
  have "BigEndian_Uint32 0 (ucast (drop_bit 24 (push_bit 8 vni))) (ucast (drop_bit 16 (push_bit 8 vni)))
      (ucast (drop_bit 8 (push_bit 8 vni))) = vni"
    by (intro bit_word_eqI, rename_tac n, case_tac "n < 16")
      (auto simp: BigEndian_Uint32_def bit_simps dest: vni_bits [OF assms])
  moreover have "(ucast (push_bit 8 vni) :: byte) = 0"
    by (rule bit_word_eqI) (auto simp: bit_simps)
  ultimately show ?thesis
    by (simp add: decode_vxlan_def vxlan_header_def BigEndian_PutUint32_def)
qed

lemma run_sends_inv:
  assumes "fwd_inv f"
  shows "\<exists>f' dgs. run_sends ps f = Some (f', dgs) \<and> fwd_inv f' \<and>
    dgs = map (\<lambda>(wr, fr). header f @ fr) (filter (\<lambda>(wr, fr). int (length fr) \<le> innerMax f) ps) \<and>
    sent f' + sendErrors f' + mtuExceeded f' =
      sent f + sendErrors f + mtuExceeded f + of_nat (length ps)"
  using assms
proof (induction ps arbitrary: f)
  case Nil
  then show ?case by simp
next
  case (Cons p ps)
  obtain wr fr where p: "p = (wr, fr)" by (cases p)
  obtain f1 n dg where s: "Send wr f fr = Some (f1, n, dg)"
    using Send_inv [OF Cons.prems] by (metis prod_cases3)
  note inv = Send_fwd_inv [OF Cons.prems s]
  obtain f' dgs where r: "run_sends ps f1 = Some (f', dgs)" "fwd_inv f'"
    "dgs = map (\<lambda>(wr, fr). header f1 @ fr) (filter (\<lambda>(wr, fr). int (length fr) \<le> innerMax f1) ps)"
    "sent f' + sendErrors f' + mtuExceeded f' = sent f1 + sendErrors f1 + mtuExceeded f1 + of_nat (length ps)"
    using Cons.IH inv by blast
  have step: "sent f1 + sendErrors f1 + mtuExceeded f1 = sent f + sendErrors f + mtuExceeded f + 1"
    "dg = (if int (length fr) \<le> innerMax f then Some (header f @ fr) else None)"
    using s by (auto simp: Send_inv [OF Cons.prems] Let_def split: if_splits sum.splits)
  show ?case
    using r inv step by (auto simp: p s)
qed

text \<open>C6: what the appliance receives. A forwarder that \<open>New\<close> returned handles any sequence of
  frames without a panic. The datagrams it hands to the socket are exactly the frames that fit the link MTU,
  in order, each behind an RFC 7348 header that decodes to the configured network
  identifier with the I flag set and every reserved byte zero, and never longer than the MTU
  minus the outer headers. Every frame is counted once: sent, failed or over the MTU.\<close>

theorem run_sends_correct:
  assumes "New v6 dial addr vni mtu = Inr f"
  shows "\<exists>f' dgs. run_sends ps f = Some (f', dgs) \<and>
    map decode_vxlan dgs =
      map (\<lambda>fr. Some (0x08, vni, fr)) (filter (\<lambda>fr. int (length fr) \<le> mtu - 50) (map snd ps)) \<and>
    (\<forall>d \<in> set dgs. int (length d) \<le> mtu - 42) \<and>
    sent f' + sendErrors f' + mtuExceeded f' = of_nat (length ps)"
proof -
  note N = New_Inr [OF assms]
  obtain f' dgs where r: "run_sends ps f = Some (f', dgs)"
    "dgs = map (\<lambda>(wr, fr). header f @ fr) (filter (\<lambda>(wr, fr). int (length fr) \<le> innerMax f) ps)"
    "sent f' + sendErrors f' + mtuExceeded f' = sent f + sendErrors f + mtuExceeded f + of_nat (length ps)"
    using run_sends_inv [OF N(1)] by blast
  have "map decode_vxlan dgs =
      map (\<lambda>fr. Some (0x08, vni, fr)) (filter (\<lambda>fr. int (length fr) \<le> mtu - 50) (map snd ps))"
    unfolding r(2) by (induction ps) (auto simp: N decode_vxlan_header)
  moreover have "\<forall>d \<in> set dgs. int (length d) \<le> mtu - 42"
    unfolding r(2) by (auto simp: N)
  ultimately show ?thesis using r N by auto
qed

theorem run_sends_correct_witness:
  "New (\<lambda>_. None) (\<lambda>_ _. None) ''10.0.0.5'' 0x0a0b0c 100 = Inr example_fwd \<and>
   (\<exists>f' dgs. run_sends [(\<lambda>d. Inr (length d), [1, 2]), (\<lambda>d. Inl ''refused'', replicate 51 7)] example_fwd
        = Some (f', dgs) \<and> map decode_vxlan dgs = [Some (0x08, 0x0a0b0c, [1, 2])] \<and>
      sent f' + sendErrors f' + mtuExceeded f' = 2)"
  using run_sends_correct [OF example_fwd, of "[(\<lambda>d. Inr (length d), [1, 2]), (\<lambda>d. Inl ''refused'', replicate 51 7)]"]
    example_fwd by auto

end
