(* ===== verification/Health.thy ===== *)
theory Health
  imports Prelude
begin

text \<open>
  \<open>internal/health/http.go\<close>: the liveness and readiness endpoints. Times are Unix nanoseconds
  and durations nanoseconds, both \<open>int64\<close>, so they are 64-bit words compared as signed
  numbers; \<open>now\<close> is the clock at the request. A response is its status and body.
\<close>

section \<open>Server\<close>

record Server =
  ready :: bool
  lastForward :: "64 word"
  lastCapture :: "64 word"
  staleAfter :: "64 word"

definition New :: "64 word \<Rightarrow> Server" where
  "New stale = \<lparr>ready = False, lastForward = 0, lastCapture = 0, staleAfter = stale\<rparr>"

definition MarkReady :: "Server \<Rightarrow> Server" where
  "MarkReady s = s\<lparr>ready := True\<rparr>"

definition ObserveForward :: "64 word \<Rightarrow> Server \<Rightarrow> Server" where
  "ObserveForward t s = s\<lparr>lastForward := t\<rparr>"

definition ObserveCapture :: "64 word \<Rightarrow> Server \<Rightarrow> Server" where
  "ObserveCapture t s = s\<lparr>lastCapture := t\<rparr>"

type_synonym response = "nat \<times> string"

text \<open>\<open>http.Error\<close> ends the message with a newline.\<close>

definition http_Error :: "string \<Rightarrow> nat \<Rightarrow> response" where
  "http_Error msg code = (code, msg @ [CHR 0x0A])"

definition readyz :: "Server \<Rightarrow> 64 word \<Rightarrow> response" where
  "readyz s now =
     (if \<not> ready s then http_Error ''not attached'' 503
      else
        let capAge = now - lastCapture s; fwdAge = now - lastForward s in
        if capAge <s staleAfter s \<and> staleAfter s <s fwdAge then http_Error ''not forwarding'' 503
        else (200, ''ready''))"

definition Handler :: "Server \<Rightarrow> 64 word \<Rightarrow> string \<Rightarrow> response" where
  "Handler s now path =
     (if path = ''/healthz'' then (200, ''ok'')
      else if path = ''/readyz'' then readyz s now
      else http_Error ''404 page not found'' 404)"

section \<open>What the packet loop does to the server\<close>

text \<open>The calls of \<open>cmd/sensor/main.go\<close>, in the order it makes them.\<close>

datatype health_event = EvReady | EvCapture "64 word" | EvForward "64 word"

fun health_step :: "Server \<Rightarrow> health_event \<Rightarrow> Server" where
  "health_step s EvReady = MarkReady s"
| "health_step s (EvCapture t) = ObserveCapture t s"
| "health_step s (EvForward t) = ObserveForward t s"

definition health_run :: "Server \<Rightarrow> health_event list \<Rightarrow> Server" where
  "health_run = foldl health_step"

fun event_time :: "health_event \<Rightarrow> int option" where
  "event_time EvReady = None"
| "event_time (EvCapture t) = Some (sint t)"
| "event_time (EvForward t) = Some (sint t)"

text \<open>The time of the last event of a kind, 0 (the zero value of the field) when there is none.\<close>

fun last_capture :: "health_event list \<Rightarrow> int" where
  "last_capture [] = 0"
| "last_capture (e # es) = (case e of EvCapture t \<Rightarrow> sint t | _ \<Rightarrow> last_capture es)"

fun last_forward :: "health_event list \<Rightarrow> int" where
  "last_forward [] = 0"
| "last_forward (e # es) = (case e of EvForward t \<Rightarrow> sint t | _ \<Rightarrow> last_forward es)"

lemmas Server_defs = New_def MarkReady_def ObserveForward_def ObserveCapture_def

section \<open>Lemmas\<close>

lemma sint_diff:
  fixes now t :: "64 word"
  assumes "0 \<le> sint t" and "0 \<le> sint now"
  shows "sint (now - t) = sint now - sint t"
proof -
  have "sint now < 2 ^ 63" "sint t < 2 ^ 63"
    using sint_lt [of now] sint_lt [of t] by simp_all
  with assms show ?thesis
    by (simp add: sint_word_ariths signed_take_bit_int_eq_self_iff)
qed

lemma health_run_snoc: "health_run s (es @ [e]) = health_step (health_run s es) e"
  by (simp add: health_run_def)

lemma health_run_fields:
  "ready (health_run (New d) es) \<longleftrightarrow> EvReady \<in> set es"
  "sint (lastCapture (health_run (New d) es)) = last_capture (rev es)"
  "sint (lastForward (health_run (New d) es)) = last_forward (rev es)"
  "staleAfter (health_run (New d) es) = d"
proof (induction es rule: rev_induct)
  case Nil
  { case 1 show ?case by (simp add: health_run_def New_def) }
  { case 2 show ?case by (simp add: health_run_def New_def) }
  { case 3 show ?case by (simp add: health_run_def New_def) }
  { case 4 show ?case by (simp add: health_run_def New_def) }
next
  case (snoc e es)
  { case 1 show ?case using snoc by (cases e) (simp_all add: health_run_snoc Server_defs) }
  { case 2 show ?case using snoc by (cases e) (simp_all add: health_run_snoc Server_defs) }
  { case 3 show ?case using snoc by (cases e) (simp_all add: health_run_snoc Server_defs) }
  { case 4 show ?case using snoc by (cases e) (simp_all add: health_run_snoc Server_defs) }
qed

lemma last_times_ready:
  "last_capture (es @ [EvReady]) = last_capture es" "last_forward (es @ [EvReady]) = last_forward es"
  by (induction es) (simp_all split: health_event.split)

lemma last_times_nonneg:
  assumes "\<forall>e \<in> set es. \<forall>t. event_time e = Some t \<longrightarrow> 0 \<le> t \<and> t \<le> T"
  shows "0 \<le> last_capture es" and "0 \<le> last_forward es"
  using assms by (induction es) (auto split: health_event.splits)

lemma readyz_status:
  assumes "\<forall>e \<in> set es. \<forall>t. event_time e = Some t \<longrightarrow> 0 \<le> t \<and> t \<le> sint now"
    and "0 \<le> sint now"
  shows "fst (Handler (health_run (New d) es) now ''/readyz'') =
    (if EvReady \<in> set es \<and>
        \<not> (sint now - last_capture (rev es) < sint d \<and> sint d < sint now - last_forward (rev es))
     then 200 else 503)"
proof -
  let ?s = "health_run (New d) es"
  have "0 \<le> last_capture (rev es)" and "0 \<le> last_forward (rev es)"
    using last_times_nonneg [of "rev es"] assms(1) by auto
  with assms(2) have "sint (now - lastCapture ?s) = sint now - last_capture (rev es)"
    and "sint (now - lastForward ?s) = sint now - last_forward (rev es)"
    by (simp_all add: sint_diff health_run_fields)
  then show ?thesis
    by (simp add: Handler_def readyz_def http_Error_def Let_def word_sless_alt health_run_fields)
qed

section \<open>Properties\<close>

text \<open>C9: readiness is decided by the last observations. After any sequence of the calls the
  sensor makes on a fresh server, with a clock that does not run backwards, \<open>/readyz\<close> answers
  200 exactly when the server was marked ready and it is not the case that a packet was
  captured less than \<open>staleAfter\<close> ago while the last successful forward is more than
  \<open>staleAfter\<close> ago; the 64-bit subtraction never misjudges an age.\<close>

theorem readyz_decision:
  assumes "\<forall>e \<in> set es. \<forall>t. event_time e = Some t \<longrightarrow> 0 \<le> t \<and> t \<le> sint now"
    and "0 \<le> sint now"
  shows "fst (Handler (health_run (New d) es) now ''/readyz'') =
    (if EvReady \<in> set es \<and>
        \<not> (sint now - last_capture (rev es) < sint d \<and> sint d < sint now - last_forward (rev es))
     then 200 else 503)"
  using assms by (rule readyz_status)

theorem readyz_decision_witness:
  "fst (Handler (health_run (New 30) [EvReady, EvForward 10, EvCapture 90]) 100 ''/readyz'') = 503 \<and>
   fst (Handler (health_run (New 30) [EvReady, EvCapture 90, EvForward 91]) 100 ''/readyz'') = 200"
  using readyz_decision [of "[EvReady, EvForward 10, EvCapture 90]" 100 30]
    readyz_decision [of "[EvReady, EvCapture 90, EvForward 91]" 100 30]
  by simp

end
