(* ===== verification/Iface.thy ===== *)
theory Iface
  imports Prelude "HOL-Library.Sublist"
begin

text \<open>
  \<open>internal/iface\<close>: choosing the interfaces to capture on (\<open>discovery.go\<close>) and following
  pod veths through netlink (\<open>watcher.go\<close>). \<open>net.Interfaces\<close> and the netlink subscription are
  inputs: a list of interfaces or an error, and the sequence of what the select of the event
  loop receives. The callbacks \<open>onAdd\<close> and \<open>onRemove\<close> are recorded in call order.
\<close>

section \<open>Discovery\<close>

record NetInterface =
  ifi_name :: string
  ifi_flags :: u32

definition skipPrefixes :: "string list" where
  "skipPrefixes = [''veth'', ''br-'', ''docker'', ''cali'', ''cni'', ''flannel'', ''lo'', ''tunl'',
     ''weave'', ''azv'', ''lxc'', ''eni'', ''kube-ipvs0'', ''dummy'']"

fun any_prefix :: "string list \<Rightarrow> string \<Rightarrow> bool" where
  "any_prefix [] name = False"
| "any_prefix (p # ps) name = (if HasPrefix name p then True else any_prefix ps name)"

definition shouldSkip :: "string \<Rightarrow> bool" where
  "shouldSkip name = any_prefix skipPrefixes name"

definition podVethPrefixes :: "string list" where
  "podVethPrefixes = [''veth'', ''eni'', ''azv'', ''cali'']"

definition IsPodVeth :: "string \<Rightarrow> bool" where
  "IsPodVeth name = any_prefix podVethPrefixes name"

abbreviation (input) FlagUp :: u32 where "FlagUp \<equiv> 1"

fun list_loop :: "NetInterface list \<Rightarrow> string list" where
  "list_loop [] = []"
| "list_loop (i # is) =
     (if ifi_flags i AND FlagUp = 0 then list_loop is
      else if shouldSkip (ifi_name i) then list_loop is
      else ifi_name i # list_loop is)"

fun veth_loop :: "NetInterface list \<Rightarrow> string list" where
  "veth_loop [] = []"
| "veth_loop (i # is) =
     (if ifi_flags i AND FlagUp = 0 then veth_loop is
      else if IsPodVeth (ifi_name i) then ifi_name i # veth_loop is
      else veth_loop is)"

definition ListIfaces :: "string + NetInterface list \<Rightarrow> string + string list" where
  "ListIfaces all = (case all of Inl e \<Rightarrow> Inl e | Inr is \<Rightarrow> Inr (list_loop is))"

definition ListPodVeths :: "string + NetInterface list \<Rightarrow> string + string list" where
  "ListPodVeths all = (case all of Inl e \<Rightarrow> Inl e | Inr is \<Rightarrow> Inr (veth_loop is))"

section \<open>Watcher\<close>

abbreviation (input) RTM_NEWLINK :: u16 where "RTM_NEWLINK \<equiv> 16"
abbreviation (input) RTM_DELLINK :: u16 where "RTM_DELLINK \<equiv> 17"
abbreviation (input) IFF_UP :: u32 where "IFF_UP \<equiv> 1"

record LinkUpdate =
  upd_type :: u16
  upd_name :: string
  upd_flags :: u32

datatype callback = OnAdd string | OnRemove string

definition applyUpdate :: "LinkUpdate \<Rightarrow> callback list" where
  "applyUpdate upd =
     (let name = upd_name upd in
      if \<not> IsPodVeth name then []
      else if upd_type upd = RTM_NEWLINK then
        (if upd_flags upd AND IFF_UP \<noteq> 0 then [OnAdd name] else [])
      else if upd_type upd = RTM_DELLINK then [OnRemove name]
      else [])"

text \<open>What one turn of the select receives, and how \<open>Watch\<close> ends. A loop whose inputs are used
  up is still waiting.\<close>

datatype watch_input = CtxDone | Update LinkUpdate | ChanClosed

datatype watch_result = WatchNil | WatchErr string | WatchWaiting

fun watch_loop :: "watch_input list \<Rightarrow> callback list \<times> watch_result" where
  "watch_loop [] = ([], WatchWaiting)"
| "watch_loop (CtxDone # rest) = ([], WatchNil)"
| "watch_loop (ChanClosed # rest) =
     ([], WatchErr ''netlink subscription channel closed unexpectedly'')"
| "watch_loop (Update upd # rest) =
     (let (cbs, r) = watch_loop rest in (applyUpdate upd @ cbs, r))"

definition Watch ::
  "string option \<Rightarrow> string + NetInterface list \<Rightarrow> watch_input list \<Rightarrow> callback list \<times> watch_result"
where
  "Watch subscribe all inputs =
     (case subscribe of
        Some e \<Rightarrow> ([], WatchErr e)
      | None \<Rightarrow>
          (let snapshot = (case ListPodVeths all of Inl e \<Rightarrow> [] | Inr names \<Rightarrow> map OnAdd names);
               (cbs, r) = watch_loop inputs
           in (snapshot @ cbs, r)))"

text \<open>\<open>watcher_nonlinux.go\<close>: no callbacks, and \<open>nil\<close>.\<close>

definition stub_Watch :: "callback list \<times> watch_result" where
  "stub_Watch = ([], WatchNil)"

section \<open>The kernel's link table\<close>

text \<open>The table of links (name to \<open>IFF_UP\<close>) that the netlink messages report changes of, and
  the set a client of the callbacks maintains.\<close>

type_synonym link_table = "string \<rightharpoonup> bool"

definition link_change :: "link_table \<Rightarrow> LinkUpdate \<Rightarrow> link_table" where
  "link_change T upd =
     (if upd_type upd = RTM_NEWLINK then T(upd_name upd \<mapsto> (upd_flags upd AND IFF_UP \<noteq> 0))
      else if upd_type upd = RTM_DELLINK then T(upd_name upd := None)
      else T)"

definition link_changes :: "link_table \<Rightarrow> LinkUpdate list \<Rightarrow> link_table" where
  "link_changes = foldl link_change"

fun track :: "string set \<Rightarrow> callback \<Rightarrow> string set" where
  "track A (OnAdd n) = insert n A"
| "track A (OnRemove n) = A - {n}"

definition tracked :: "string set \<Rightarrow> callback list \<Rightarrow> string set" where
  "tracked = foldl track"

text \<open>A listing of \<open>net.Interfaces\<close> taken while the table is \<open>T\<close>.\<close>

definition listing_of :: "link_table \<Rightarrow> NetInterface list \<Rightarrow> bool" where
  "listing_of T is \<longleftrightarrow>
     (\<forall>n. T n = Some True \<longleftrightarrow> (\<exists>i \<in> set is. ifi_name i = n \<and> ifi_flags i AND FlagUp \<noteq> 0))"

section \<open>Lemmas\<close>

lemma any_prefix_iff: "any_prefix ps name \<longleftrightarrow> (\<exists>p \<in> set ps. HasPrefix name p)"
  by (induction ps) auto

lemma pod_veth_skipped: "IsPodVeth name \<Longrightarrow> shouldSkip name"
  by (auto simp: IsPodVeth_def shouldSkip_def any_prefix_iff podVethPrefixes_def skipPrefixes_def)

lemma list_loop_filter:
  "list_loop is = map ifi_name (filter (\<lambda>i. ifi_flags i AND 1 \<noteq> 0 \<and> \<not> shouldSkip (ifi_name i)) is)"
  by (induction "is") auto

lemma veth_loop_filter:
  "veth_loop is = map ifi_name (filter (\<lambda>i. ifi_flags i AND 1 \<noteq> 0 \<and> IsPodVeth (ifi_name i)) is)"
  by (induction "is") auto

lemma applyUpdate_pod_veth: "OnAdd n \<in> set (applyUpdate u) \<or> OnRemove n \<in> set (applyUpdate u) \<Longrightarrow> IsPodVeth n"
  by (auto simp: applyUpdate_def Let_def split: if_splits)

lemma watch_loop_pod_veth:
  "OnAdd n \<in> set (fst (watch_loop ins)) \<or> OnRemove n \<in> set (fst (watch_loop ins)) \<Longrightarrow> IsPodVeth n"
  by (induction ins rule: watch_loop.induct)
    (auto simp: case_prod_beta intro: applyUpdate_pod_veth)

lemma Watch_pod_veth:
  "OnAdd n \<in> set (fst (Watch sub all ins)) \<or> OnRemove n \<in> set (fst (Watch sub all ins)) \<Longrightarrow> IsPodVeth n"
  using watch_loop_pod_veth [of n ins]
  by (auto simp: Watch_def ListPodVeths_def veth_loop_filter case_prod_beta split: option.splits sum.splits)

lemma tracked_simps [simp]:
  "tracked A [] = A"
  "tracked A (c # cs) = tracked (track A c) cs"
  by (simp_all add: tracked_def)

lemma tracked_append [simp]: "tracked A (xs @ ys) = tracked (tracked A xs) ys"
  by (simp add: tracked_def)

lemma tracked_adds [simp]: "tracked A (map OnAdd ns) = A \<union> set ns"
  by (induction ns arbitrary: A) auto

lemma link_changes_simps [simp]:
  "link_changes T [] = T"
  "link_changes T (u # us) = link_changes (link_change T u) us"
  by (simp_all add: link_changes_def)

lemma link_changes_append: "link_changes T (us @ vs) = link_changes (link_changes T us) vs"
  by (simp add: link_changes_def)

lemma watch_loop_updates:
  "watch_loop (map Update us @ rest) =
     (concat (map applyUpdate us) @ fst (watch_loop rest), snd (watch_loop rest))"
  by (induction us) (auto simp: split_beta)

lemma track_step:
  "n \<in> tracked A (applyUpdate u) \<longleftrightarrow>
     (if upd_name u = n \<and> IsPodVeth n \<and> upd_type u = 16 \<and> upd_flags u AND 1 \<noteq> 0 then True
      else if upd_name u = n \<and> IsPodVeth n \<and> upd_type u = 17 then False
      else n \<in> A)"
  by (auto simp: applyUpdate_def Let_def)

text \<open>Replaying changes on a set that a snapshot of their outcome started: a link that ends up
  is not lost, and a link that ends deleted is not kept.\<close>

lemma replay_keeps_up:
  assumes "IsPodVeth n" and "n \<in> A" and "link_changes T us n = Some True"
  shows "n \<in> tracked A (concat (map applyUpdate us))"
  using assms(3)
  by (induction us rule: rev_induct)
    (auto simp: assms(1,2) track_step link_changes_append link_change_def split: if_splits)

lemma replay_only_links:
  assumes "n \<in> tracked A (concat (map applyUpdate us))"
  shows "n \<in> A \<or> IsPodVeth n \<and> link_changes T us n \<noteq> None"
  using assms
  by (induction us rule: rev_induct)
    (auto simp: track_step link_changes_append link_change_def split: if_splits)

text \<open>In step with the table, a tracked set that covers the links that are up and holds only
  existing pod veths stays so.\<close>

definition covers :: "link_table \<Rightarrow> string set \<Rightarrow> bool" where
  "covers T A \<longleftrightarrow>
     (\<forall>n. (IsPodVeth n \<and> T n = Some True \<longrightarrow> n \<in> A) \<and> (n \<in> A \<longrightarrow> IsPodVeth n \<and> T n \<noteq> None))"

lemma covers_step: "covers T A \<Longrightarrow> covers (link_change T u) (tracked A (applyUpdate u))"
  unfolding covers_def
proof (intro allI, goal_cases)
  case (1 n)
  then have "(IsPodVeth n \<and> T n = Some True \<longrightarrow> n \<in> A) \<and> (n \<in> A \<longrightarrow> IsPodVeth n \<and> T n \<noteq> None)"
    by blast
  then show ?case
    unfolding track_step link_change_def
    by (cases "upd_flags u AND 1 = 0"; cases "T n"; cases "upd_name u = n"; cases "upd_type u = 16";
        cases "upd_type u = 17"; cases "IsPodVeth n"; cases "n \<in> A"; simp)
qed

lemma covers_run: "covers T A \<Longrightarrow> covers (link_changes T us) (tracked A (concat (map applyUpdate us)))"
proof (induction us arbitrary: T A)
  case Nil
  then show ?case by simp
next
  case (Cons u us)
  from Cons.IH [OF covers_step [OF Cons.prems]] show ?case by simp
qed

lemma covers_snapshot:
  assumes "listing_of (link_changes T us) is"
  shows "covers (link_changes T us) (tracked (set (veth_loop is)) (concat (map applyUpdate us)))"
proof -
  have A: "n \<in> set (veth_loop is) \<longleftrightarrow> IsPodVeth n \<and> link_changes T us n = Some True" for n
    using assms by (auto simp: listing_of_def veth_loop_filter)
  show ?thesis
    unfolding covers_def
  proof (intro allI conjI impI)
    fix n assume "IsPodVeth n \<and> link_changes T us n = Some True"
    then show "n \<in> tracked (set (veth_loop is)) (concat (map applyUpdate us))"
      using replay_keeps_up A by blast
  next
    fix n assume "n \<in> tracked (set (veth_loop is)) (concat (map applyUpdate us))"
    from replay_only_links [OF this, of T] show "IsPodVeth n" "link_changes T us n \<noteq> None"
      by (auto simp: A)
  qed
qed

section \<open>Properties\<close>

text \<open>C10: what the two listings contain. \<open>List\<close> gives the interfaces that are up and have none of the
  skipped prefixes, \<open>ListPodVeths\<close> those that are up and have a pod prefix, both in the order of
  \<open>net.Interfaces\<close> and with its error. Whatever the two calls see of the system, no name is in both,
  so the startup and the watcher never attach the same interface.\<close>

theorem listings_disjoint:
  "(case all of Inl e \<Rightarrow> ListIfaces all = Inl e \<and> ListPodVeths all = Inl e
    | Inr is \<Rightarrow> \<exists>names veths. ListIfaces all = Inr names \<and> ListPodVeths all = Inr veths \<and>
        subseq names (map ifi_name is) \<and> subseq veths (map ifi_name is) \<and>
        set names = {ifi_name i |i. i \<in> set is \<and> ifi_flags i AND 1 \<noteq> 0 \<and> \<not> (\<exists>p \<in> set skipPrefixes. HasPrefix (ifi_name i) p)} \<and>
        set veths = {ifi_name i |i. i \<in> set is \<and> ifi_flags i AND 1 \<noteq> 0 \<and> (\<exists>p \<in> set podVethPrefixes. HasPrefix (ifi_name i) p)}) \<and>
   \<not> (\<exists>n names veths. ListIfaces all = Inr names \<and> ListPodVeths later = Inr veths \<and> n \<in> set names \<and> n \<in> set veths)"
proof (intro conjI)
  show "\<not> (\<exists>n names veths. ListIfaces all = Inr names \<and> ListPodVeths later = Inr veths \<and> n \<in> set names \<and> n \<in> set veths)"
    by (auto simp: ListIfaces_def ListPodVeths_def list_loop_filter veth_loop_filter dest: pod_veth_skipped split: sum.splits)
qed (auto simp: ListIfaces_def ListPodVeths_def list_loop_filter veth_loop_filter shouldSkip_def IsPodVeth_def any_prefix_iff
       intro!: subseq_map split: sum.splits)

text \<open>C11: subscribing before the snapshot leaves no gap. Let the kernel make the changes \<open>before\<close>
  between the subscription and the snapshot, and \<open>after\<close> later, all delivered on the
  channel. When \<open>Watch\<close> has consumed them and waits, the interfaces its callbacks have added
  and not removed include every pod veth that is up, and all of them are pod veths that
  still exist.\<close>

theorem Watch_covers:
  assumes "listing_of (link_changes T before) is"
    and "Watch None (Inr is) (map Update (before @ after)) = (cbs, r)"
  shows "covers (link_changes T (before @ after)) (tracked {} cbs) \<and> r = WatchWaiting"
proof -
  have "cbs = map OnAdd (veth_loop is) @ concat (map applyUpdate before) @ concat (map applyUpdate after)"
    and r: "r = WatchWaiting"
    using assms(2) watch_loop_updates [of "before @ after" "[]"]
    by (auto simp: Watch_def ListPodVeths_def)
  then have "tracked {} cbs = tracked (tracked (set (veth_loop is)) (concat (map applyUpdate before)))
      (concat (map applyUpdate after))"
    by simp
  with covers_run [OF covers_snapshot [OF assms(1)], of after] r show ?thesis
    by (simp add: link_changes_append)
qed

definition up_link :: "string \<Rightarrow> LinkUpdate" where
  "up_link n = \<lparr>upd_type = 16, upd_name = n, upd_flags = 1\<rparr>"

definition del_link :: "string \<Rightarrow> LinkUpdate" where
  "del_link n = \<lparr>upd_type = 17, upd_name = n, upd_flags = 0\<rparr>"

theorem Watch_covers_witness:
  "let before = [up_link ''veth1'', up_link ''veth2'']; after = [del_link ''veth1''];
       is = [\<lparr>ifi_name = ''veth1'', ifi_flags = 1\<rparr>, \<lparr>ifi_name = ''veth2'', ifi_flags = 1\<rparr>];
       cbs = fst (Watch None (Inr is) (map Update (before @ after)))
   in listing_of (link_changes Map.empty before) is \<and>
      covers (link_changes Map.empty (before @ after)) (tracked {} cbs)"
proof -
  let ?b = "[up_link ''veth1'', up_link ''veth2'']" and ?a = "[del_link ''veth1'']"
  let ?is = "[\<lparr>ifi_name = ''veth1'', ifi_flags = 1\<rparr>, \<lparr>ifi_name = ''veth2'', ifi_flags = 1\<rparr>]"
  have l: "listing_of (link_changes Map.empty ?b) ?is"
    by (auto simp: listing_of_def up_link_def link_change_def)
  from Watch_covers [OF l, of ?a "fst (Watch None (Inr ?is) (map Update (?b @ ?a)))"
      "snd (Watch None (Inr ?is) (map Update (?b @ ?a)))"]
  show ?thesis unfolding Let_def using l by simp
qed

end
