(* ===== verification/Capture.thy ===== *)
theory Capture
  imports Iface
begin

text \<open>
  \<open>internal/capture/capture.go\<close> and \<open>probe.go\<close>: the data that both backends deliver, the choice
  of a backend, and the contract of the \<open>Capturer\<close> interface as a locale with the lemmas of its
  client, the goroutine of \<open>cmd/sensor/main.go\<close> that follows pod veths. The stub of
  \<open>stub_nonlinux.go\<close> is here as well.
\<close>

section \<open>Data\<close>

datatype Direction = DirIngress | DirEgress | DirUnknown

fun Direction_String :: "Direction \<Rightarrow> string" where
  "Direction_String DirIngress = ''ingress''"
| "Direction_String DirEgress = ''egress''"
| "Direction_String DirUnknown = ''unknown''"

record Packet =
  Data :: bytes
  Iface :: string
  Dir :: Direction

record Stats =
  CapturedPackets :: u64
  KernelDrops :: u64
  FilterDrops :: "(string \<times> u64) list"

section \<open>Choosing a backend\<close>

datatype pick_error = Unsupported string | UnknownMode string

text \<open>The feature probes of \<open>cilium/ebpf\<close>: \<open>None\<close> when available, otherwise the error.\<close>

record features =
  HaveRingBuf :: "string option"
  HaveSchedCLS :: "string option"

definition probeTCBPF :: "features \<Rightarrow> string option" where
  "probeTCBPF ft =
     (case HaveRingBuf ft of
        Some e \<Rightarrow> Some (''ringbuf map: '' @ e)
      | None \<Rightarrow>
          (case HaveSchedCLS ft of
             Some e \<Rightarrow> Some (''sched_cls program: '' @ e)
           | None \<Rightarrow> None))"

definition Pick :: "features \<Rightarrow> string \<Rightarrow> pick_error + string" where
  "Pick ft preferred =
     (if preferred = ''tcbpf'' then
        (case probeTCBPF ft of Some e \<Rightarrow> Inl (Unsupported e) | None \<Rightarrow> Inr ''tcbpf'')
      else if preferred = ''afpacket'' then Inr ''afpacket''
      else if preferred = [] \<or> preferred = ''auto'' then
        (case probeTCBPF ft of Some e \<Rightarrow> Inr ''afpacket'' | None \<Rightarrow> Inr ''tcbpf'')
      else Inl (UnknownMode preferred))"

section \<open>The non-Linux stub\<close>

record stub = stub_mode :: string

definition stub_Pick :: "string \<Rightarrow> string + string" where
  "stub_Pick preferred = Inl ''capture is only supported on linux''"

definition stub_NewTCBPF :: "string + unit" where
  "stub_NewTCBPF = Inl ''linux only''"

definition stub_NewAFPacket :: stub where
  "stub_NewAFPacket = \<lparr>stub_mode = ''afpacket-stub''\<rparr>"

definition stub_Start :: "stub \<Rightarrow> string list \<Rightarrow> string + unit" where
  "stub_Start s ifaces = Inl ''linux only''"

definition stub_Attach :: "stub \<Rightarrow> string \<Rightarrow> string option" where
  "stub_Attach s iface = Some ''linux only''"

definition stub_Detach :: "stub \<Rightarrow> string \<Rightarrow> string option" where
  "stub_Detach s iface = Some ''linux only''"

definition stub_Stats :: "stub \<Rightarrow> Stats" where
  "stub_Stats s = \<lparr>CapturedPackets = 0, KernelDrops = 0, FilterDrops = []\<rparr>"

definition stub_Close :: "stub \<Rightarrow> string option" where
  "stub_Close s = None"

definition stub_Mode :: "stub \<Rightarrow> string" where
  "stub_Mode s = stub_mode s"

section \<open>The client of Attach and Detach\<close>

text \<open>The callbacks that \<open>main\<close> hands to \<open>iface.Watch\<close>: an error of \<open>Attach\<close> is logged, one of
  \<open>Detach\<close> discarded, so only the state of the capturer matters.\<close>

fun run_callbacks ::
  "(string \<Rightarrow> 's \<Rightarrow> 's) \<Rightarrow> (string \<Rightarrow> 's \<Rightarrow> 's) \<Rightarrow> callback list \<Rightarrow> 's \<Rightarrow> 's" where
  "run_callbacks att det [] s = s"
| "run_callbacks att det (OnAdd n # cs) s = run_callbacks att det cs (att n s)"
| "run_callbacks att det (OnRemove n # cs) s = run_callbacks att det cs (det n s)"

section \<open>Contract of a capturer\<close>

text \<open>What every backend guarantees: the operations keep its invariant, \<open>Attach\<close> adds at most
  its interface, \<open>Detach\<close> removes at most its interface, \<open>Close\<close> leaves nothing attached.\<close>

locale capturer =
  fixes att :: "string \<Rightarrow> 's \<Rightarrow> 's"
    and det :: "string \<Rightarrow> 's \<Rightarrow> 's"
    and cls :: "'s \<Rightarrow> 's"
    and attached :: "'s \<Rightarrow> string set"
    and inv :: "'s \<Rightarrow> bool"
  assumes att_inv: "inv s \<Longrightarrow> inv (att n s)"
    and det_inv: "inv s \<Longrightarrow> inv (det n s)"
    and att_keeps: "inv s \<Longrightarrow> attached s \<subseteq> attached (att n s)"
    and att_adds: "inv s \<Longrightarrow> attached (att n s) \<subseteq> insert n (attached s)"
    and det_keeps: "inv s \<Longrightarrow> attached s - {n} \<subseteq> attached (det n s)"
    and det_drops: "inv s \<Longrightarrow> attached (det n s) \<subseteq> attached s"
    and cls_all: "inv s \<Longrightarrow> attached (cls s) = {}"
begin

lemma run_callbacks_inv: "inv s \<Longrightarrow> inv (run_callbacks att det cs s)"
proof (induction cs arbitrary: s)
  case Nil
  then show ?case by simp
next
  case (Cons c cs)
  then show ?case by (cases c) (simp_all add: att_inv det_inv)
qed

text \<open>Interfaces that no callback names are left alone, whatever fails.\<close>

lemma run_callbacks_frame:
  "inv s \<Longrightarrow> OnAdd n \<notin> set cs \<Longrightarrow> OnRemove n \<notin> set cs \<Longrightarrow>
     n \<in> attached (run_callbacks att det cs s) \<longleftrightarrow> n \<in> attached s"
proof (induction cs arbitrary: s)
  case Nil
  then show ?case by simp
next
  case (Cons c cs)
  show ?case
  proof (cases c)
    case (OnAdd m)
    with Cons.prems have "n \<in> attached (att m s) \<longleftrightarrow> n \<in> attached s"
      using att_keeps [of s m] att_adds [of s m] by auto
    with OnAdd Cons.IH [of "att m s"] Cons.prems show ?thesis by (simp add: att_inv)
  next
    case (OnRemove m)
    with Cons.prems have "n \<in> attached (det m s) \<longleftrightarrow> n \<in> attached s"
      using det_keeps [of s m] det_drops [of s m] by auto
    with OnRemove Cons.IH [of "det m s"] Cons.prems show ?thesis by (simp add: det_inv)
  qed
qed

end

text \<open>A backend whose \<open>Detach\<close> always takes effect.\<close>

locale capturer_exact = capturer +
  assumes det_exact: "inv s \<Longrightarrow> n \<notin> attached (det n s)"
begin

lemma run_callbacks_tracked:
  "inv s \<Longrightarrow> attached s \<subseteq> A \<Longrightarrow> attached (run_callbacks att det cs s) \<subseteq> tracked A cs"
proof (induction cs arbitrary: s A)
  case Nil
  then show ?case by simp
next
  case (Cons c cs)
  show ?case
  proof (cases c)
    case (OnAdd n)
    from Cons.prems att_adds [of s n] have "attached (att n s) \<subseteq> insert n A" by auto
    with OnAdd Cons.IH [of "att n s" "insert n A"] Cons.prems att_inv show ?thesis by simp
  next
    case (OnRemove n)
    with Cons.prems det_drops [of s n] det_exact [of s n]
    have "attached (det n s) \<subseteq> A - {n}" by auto
    with OnRemove Cons.IH [of "det n s" "A - {n}"] Cons.prems det_inv show ?thesis by simp
  qed
qed

end

section \<open>Lemmas\<close>

lemma probeTCBPF_None:
  "probeTCBPF ft = None \<longleftrightarrow> HaveRingBuf ft = None \<and> HaveSchedCLS ft = None"
  by (auto simp: probeTCBPF_def split: option.splits)

lemma Pick_known:
  "preferred \<in> set [[], ''auto'', ''tcbpf'', ''afpacket''] \<Longrightarrow>
     Pick ft preferred \<noteq> Inl (UnknownMode m)"
  by (auto simp: Pick_def split: option.splits)

lemma Pick_modes: "Pick ft preferred = Inr m \<Longrightarrow> m = ''tcbpf'' \<or> m = ''afpacket''"
  by (auto simp: Pick_def split: option.splits if_splits)

end
