(* ===== verification/Reporter.thy ===== *)
theory Reporter
  imports Metrics Forward Health Capture
begin

text \<open>
  The two loops of \<open>cmd/sensor/main.go\<close> that feed the metrics: the packet loop of \<open>run\<close>, and
  \<open>statsReporter\<close>, which turns the running totals of the capturer and the forwarder into counter
  increments. Both work on any Prometheus registry (record \<open>prom\<close>); \<open>None\<close> is a panic.
\<close>

section \<open>The packet loop\<close>

text \<open>One turn, for a packet, the clock when it is received, the answer of the socket, and the clock
  after sending.\<close>

type_synonym turn = "Packet \<times> 64 word \<times> write_fn \<times> 64 word"

fun packet_loop ::
  "'m prom \<Rightarrow> Metrics \<Rightarrow> turn list \<Rightarrow> Server \<times> 'm \<times> Forwarder \<Rightarrow> (Server \<times> 'm \<times> Forwarder) option"
where
  "packet_loop P M [] (hs, m, fwd) = Some (hs, m, fwd)"
| "packet_loop P M ((pkt, t1, wr, t2) # turns) (hs, m, fwd) =
     (let hs = ObserveCapture t1 hs in
      case vec_add P (PacketsCaptured M) [Iface pkt, Direction_String (Dir pkt)] 1 m of
        None \<Rightarrow> None
      | Some m \<Rightarrow>
     (case Send wr fwd (Data pkt) of
        None \<Rightarrow> None
      | Some (fwd, n, dg) \<Rightarrow>
          if n = 0 then packet_loop P M turns (hs, m, fwd)
          else
            let m = counter_add P (PacketsForwarded M) 1 m;
                m = counter_add P (BytesForwarded M) (float64 (n + nat VXLANOverhead)) m
            in packet_loop P M turns (ObserveForward t2 hs, m, fwd)))"

section \<open>statsReporter\<close>

definition statsIntervalSec :: u64 where "statsIntervalSec = 10"

record prev_totals =
  prevCaptured :: u64
  prevSent :: u64
  prevBytes :: u64
  prevKernelDrops :: u64
  prevMTU :: u64
  prevSendErr :: u64
  prevFilterDrops :: "string \<rightharpoonup> u64"

definition no_totals :: prev_totals where
  "no_totals = \<lparr>prevCaptured = 0, prevSent = 0, prevBytes = 0, prevKernelDrops = 0, prevMTU = 0,
     prevSendErr = 0, prevFilterDrops = Map.empty\<rparr>"

text \<open>Reading a missing key of a Go map gives the zero value.\<close>

definition prev_reason :: "prev_totals \<Rightarrow> string \<Rightarrow> u64" where
  "prev_reason p reason = (case prevFilterDrops p reason of Some v \<Rightarrow> v | None \<Rightarrow> 0)"

text \<open>The line that every tick logs.\<close>

record tick_log =
  pps_in :: u64
  pps_out :: u64
  mbps_out :: u64
  kernel_drops :: u64
  mtu_exceeded :: u64
  send_errors :: u64

definition delta :: "u64 \<Rightarrow> u64 \<Rightarrow> nat" where
  "delta new old = float64 (unat (new - old))"

fun report_reasons ::
  "'m prom \<Rightarrow> Metrics \<Rightarrow> (string \<times> u64) list \<Rightarrow> prev_totals \<times> 'm \<Rightarrow> (prev_totals \<times> 'm) option"
where
  "report_reasons P M [] (p, m) = Some (p, m)"
| "report_reasons P M ((reason, v) # drops) (p, m) =
     (case vec_add P (Metrics.FilterDrops M) [reason] (delta v (prev_reason p reason)) m of
        None \<Rightarrow> None
      | Some m \<Rightarrow> report_reasons P M drops (p\<lparr>prevFilterDrops := (prevFilterDrops p)(reason \<mapsto> v)\<rparr>, m))"

definition report ::
  "'m prom \<Rightarrow> Metrics \<Rightarrow> ((string \<times> u64) list \<Rightarrow> (string \<times> u64) list) \<Rightarrow> Stats \<Rightarrow> FwdStats \<Rightarrow>
     prev_totals \<times> 'm \<Rightarrow> (tick_log \<times> prev_totals \<times> 'm) option"
where
  "report P M rng cs fs s =
     (case s of (p, m) \<Rightarrow>
      let m = counter_add P (Metrics.KernelDrops M) (delta (Stats.KernelDrops cs) (prevKernelDrops p)) m;
          p = p\<lparr>prevKernelDrops := Stats.KernelDrops cs\<rparr> in
      case report_reasons P M (rng (Stats.FilterDrops cs)) (p, m) of
        None \<Rightarrow> None
      | Some (p, m) \<Rightarrow>
          let m = counter_add P (Metrics.MTUExceeded M) (delta (FwdStats.MTUExceeded fs) (prevMTU p)) m;
              p = p\<lparr>prevMTU := FwdStats.MTUExceeded fs\<rparr>;
              m = counter_add P (Metrics.SendErrors M) (delta (FwdStats.SendErrors fs) (prevSendErr p)) m;
              p = p\<lparr>prevSendErr := FwdStats.SendErrors fs\<rparr>;
              capDelta = CapturedPackets cs - prevCaptured p;
              sentDelta = Sent fs - prevSent p;
              bytesDelta = BytesOut fs - prevBytes p;
              p = p\<lparr>prevCaptured := CapturedPackets cs, prevSent := Sent fs, prevBytes := BytesOut fs\<rparr>
          in Some (\<lparr>pps_in = capDelta div statsIntervalSec, pps_out = sentDelta div statsIntervalSec,
                    mbps_out = bytesDelta * 8 div 1000000 div statsIntervalSec,
                    kernel_drops = Stats.KernelDrops cs, mtu_exceeded = FwdStats.MTUExceeded fs,
                    send_errors = FwdStats.SendErrors fs\<rparr>, p, m))"

text \<open>What the select of \<open>statsReporter\<close> receives: the ticker, with the statistics read then, or the
  end of the context.\<close>

datatype rep_input = RepTick Stats FwdStats | RepDone

fun statsReporter ::
  "'m prom \<Rightarrow> Metrics \<Rightarrow> ((string \<times> u64) list \<Rightarrow> (string \<times> u64) list) \<Rightarrow> rep_input list \<Rightarrow>
     prev_totals \<times> 'm \<Rightarrow> (tick_log list \<times> prev_totals \<times> 'm) option"
where
  "statsReporter P M rng [] (p, m) = Some ([], p, m)"
| "statsReporter P M rng (RepDone # inputs) (p, m) = Some ([], p, m)"
| "statsReporter P M rng (RepTick cs fs # inputs) (p, m) =
     (case report P M rng cs fs (p, m) of
        None \<Rightarrow> None
      | Some (l, s) \<Rightarrow>
          (case statsReporter P M rng inputs s of
             None \<Rightarrow> None
           | Some (ls, s) \<Rightarrow> Some (l # ls, s)))"

section \<open>Exported totals\<close>

abbreviation (input) plain :: "desc \<Rightarrow> series" where "plain d \<equiv> (d_name d, [])"

text \<open>The registry shows what the reporter last saw.\<close>

definition exported :: "'m prom \<Rightarrow> prev_totals \<Rightarrow> 'm \<Rightarrow> bool" where
  "exported P p m \<longleftrightarrow>
     amount P m (plain (Metrics.KernelDrops metrics)) = unat (prevKernelDrops p) \<and>
     amount P m (plain (Metrics.MTUExceeded metrics)) = unat (prevMTU p) \<and>
     amount P m (plain (Metrics.SendErrors metrics)) = unat (prevSendErr p) \<and>
     (\<forall>r. amount P m (d_name (Metrics.FilterDrops metrics), [r]) = unat (prev_reason p r))"

text \<open>Totals that have not fallen and are below the exact range of the registry.\<close>

definition grown :: "u64 \<Rightarrow> u64 \<Rightarrow> bool" where
  "grown old new \<longleftrightarrow> unat old \<le> unat new \<and> unat new < 2 ^ 53"

definition grows :: "prev_totals \<Rightarrow> Stats \<Rightarrow> FwdStats \<Rightarrow> bool" where
  "grows p cs fs \<longleftrightarrow>
     grown (prevKernelDrops p) (Stats.KernelDrops cs) \<and> grown (prevMTU p) (FwdStats.MTUExceeded fs) \<and>
     grown (prevSendErr p) (FwdStats.SendErrors fs) \<and> distinct (map fst (Stats.FilterDrops cs)) \<and>
     (\<forall>(r, v) \<in> set (Stats.FilterDrops cs). grown (prev_reason p r) v)"

text \<open>The totals after a tick.\<close>

definition seen :: "Stats \<Rightarrow> FwdStats \<Rightarrow> prev_totals \<Rightarrow> prev_totals" where
  "seen cs fs p =
     \<lparr>prevCaptured = CapturedPackets cs, prevSent = Sent fs, prevBytes = BytesOut fs,
      prevKernelDrops = Stats.KernelDrops cs, prevMTU = FwdStats.MTUExceeded fs,
      prevSendErr = FwdStats.SendErrors fs,
      prevFilterDrops = prevFilterDrops p ++ map_of (Stats.FilterDrops cs)\<rparr>"

fun all_grow :: "prev_totals \<Rightarrow> (Stats \<times> FwdStats) list \<Rightarrow> bool" where
  "all_grow p [] = True"
| "all_grow p ((cs, fs) # ticks) = (grows p cs fs \<and> all_grow (seen cs fs p) ticks)"

definition last_seen :: "(Stats \<times> FwdStats) list \<Rightarrow> prev_totals \<Rightarrow> prev_totals" where
  "last_seen ticks p = foldl (\<lambda>p (cs, fs). seen cs fs p) p ticks"

lemma delta_grown: "grown old new \<Longrightarrow> delta new old = unat new - unat old"
  by (auto simp: delta_def grown_def unat_sub word_le_nat_alt intro!: float64_exact)

lemma report_reasons_map:
  "report_reasons P M drops (p, m) = Some (p', m') \<Longrightarrow>
     p' = p\<lparr>prevFilterDrops := prevFilterDrops p ++ map_of (rev drops)\<rparr>"
proof (induction drops arbitrary: p m)
  case (Cons d drops)
  obtain r v where d: "d = (r, v)" by fastforce
  let ?p = "p\<lparr>prevFilterDrops := (prevFilterDrops p)(r \<mapsto> v)\<rparr>"
  from Cons.prems obtain m1 where "report_reasons P M drops (?p, m1) = Some (p', m')"
    by (auto simp: d split: option.splits)
  note Cons.IH [OF this]
  moreover have "prevFilterDrops ?p ++ map_of (rev drops) = prevFilterDrops p ++ map_of (rev (d # drops))"
    by (simp add: d)
  ultimately show ?case
    by (cases p) (simp only: prev_totals.select_convs prev_totals.update_convs)
qed simp

lemma map_of_permuted:
  "mset xs = mset ys \<Longrightarrow> distinct (map fst ys) \<Longrightarrow> map_of xs = map_of ys"
  by (metis (no_types, lifting) map_of_inject_set mset_eq_imp_distinct_iff mset_eq_setD mset_map)

context prom_registry
begin

lemma exported_add_plain:
  assumes "amount P m s = unat old" "grown old new" "s = plain d"
  shows "amount P (counter_add P d (delta new old) m) s = unat new"
    "s' \<noteq> s \<Longrightarrow> amount P (counter_add P d (delta new old) m) s' = amount P m s'"
  using assms amount_add(1) [of m s "delta new old"] amount_add(2) [of s' s]
  by (auto simp: counter_add_def delta_grown grown_def)

lemma report_reasons_exported:
  assumes "exported P p m" "distinct (map fst drops)" "\<forall>(r, v) \<in> set drops. grown (prev_reason p r) v"
  shows "\<exists>p' m'. report_reasons P metrics drops (p, m) = Some (p', m') \<and> exported P p' m'"
  using assms
proof (induction drops arbitrary: p m)
  case (Cons d drops)
  obtain r v where d: "d = (r, v)" by fastforce
  let ?s = "(d_name (Metrics.FilterDrops metrics), [r])"
  let ?p = "p\<lparr>prevFilterDrops := (prevFilterDrops p)(r \<mapsto> v)\<rparr>"
  let ?m = "p_add P ?s (delta v (prev_reason p r)) m"
  have g: "grown (prev_reason p r) v" using Cons.prems(3) d by simp
  have amt: "amount P ?m ?s = unat v" "s' \<noteq> ?s \<Longrightarrow> amount P ?m s' = amount P m s'" for s'
    using Cons.prems(1) g amount_add(1) [of m ?s "delta v (prev_reason p r)"] amount_add(2) [of s' ?s]
    by (auto simp: exported_def delta_grown grown_def)
  have pr: "prev_reason ?p x = (if x = r then v else prev_reason p x)" for x by (simp add: prev_reason_def)
  have "exported P ?p ?m" using Cons.prems(1) amt by (simp add: exported_def pr)
  moreover have "\<forall>(x, w) \<in> set drops. grown (prev_reason ?p x) w"
    using Cons.prems(2,3) by (force simp: d pr)
  ultimately obtain p' m' where "report_reasons P metrics drops (?p, ?m) = Some (p', m')" "exported P p' m'"
    using Cons.IH [of ?p ?m] Cons.prems(2) by auto
  then show ?case by (simp add: d vec_add_def WithLabelValues_def metrics_def)
qed auto

lemma exported_plain:
  assumes "exported P p m"
  shows "grown (prevKernelDrops p) k \<Longrightarrow>
      exported P (p\<lparr>prevKernelDrops := k\<rparr>) (counter_add P (Metrics.KernelDrops metrics) (delta k (prevKernelDrops p)) m)"
    and "grown (prevMTU p) k \<Longrightarrow>
      exported P (p\<lparr>prevMTU := k\<rparr>) (counter_add P (Metrics.MTUExceeded metrics) (delta k (prevMTU p)) m)"
    and "grown (prevSendErr p) k \<Longrightarrow>
      exported P (p\<lparr>prevSendErr := k\<rparr>) (counter_add P (Metrics.SendErrors metrics) (delta k (prevSendErr p)) m)"
proof -
  have names: "d_name (Metrics.KernelDrops metrics) \<noteq> d_name (Metrics.MTUExceeded metrics)"
    "d_name (Metrics.KernelDrops metrics) \<noteq> d_name (Metrics.SendErrors metrics)"
    "d_name (Metrics.MTUExceeded metrics) \<noteq> d_name (Metrics.SendErrors metrics)"
    by (simp_all add: metrics_def)
  have [simp]: "prev_reason (p\<lparr>prevKernelDrops := k\<rparr>) = prev_reason p"
    "prev_reason (p\<lparr>prevMTU := k\<rparr>) = prev_reason p" "prev_reason (p\<lparr>prevSendErr := k\<rparr>) = prev_reason p"
    by (simp_all add: prev_reason_def fun_eq_iff)
  note add = exported_add_plain [OF _ _ refl]
  show "exported P (p\<lparr>prevKernelDrops := k\<rparr>) (counter_add P (Metrics.KernelDrops metrics) (delta k (prevKernelDrops p)) m)"
    if "grown (prevKernelDrops p) k"
    using assms names that add [of m "Metrics.KernelDrops metrics" "prevKernelDrops p" k] by (simp add: exported_def)
  show "exported P (p\<lparr>prevMTU := k\<rparr>) (counter_add P (Metrics.MTUExceeded metrics) (delta k (prevMTU p)) m)"
    if "grown (prevMTU p) k"
    using assms names that add [of m "Metrics.MTUExceeded metrics" "prevMTU p" k] by (simp add: exported_def)
  show "exported P (p\<lparr>prevSendErr := k\<rparr>) (counter_add P (Metrics.SendErrors metrics) (delta k (prevSendErr p)) m)"
    if "grown (prevSendErr p) k"
    using assms names that add [of m "Metrics.SendErrors metrics" "prevSendErr p" k] by (simp add: exported_def)
qed

lemma report_exported:
  assumes "range_order rng" "exported P p m" "grows p cs fs"
  shows "\<exists>l m'. report P metrics rng cs fs (p, m) = Some (l, seen cs fs p, m') \<and> exported P (seen cs fs p) m'"
proof -
  let ?drops = "rng (Stats.FilterDrops cs)"
  let ?p1 = "p\<lparr>prevKernelDrops := Stats.KernelDrops cs\<rparr>"
  let ?m1 = "counter_add P (Metrics.KernelDrops metrics) (delta (Stats.KernelDrops cs) (prevKernelDrops p)) m"
  have g: "grown (prevKernelDrops p) (Stats.KernelDrops cs)" "grown (prevMTU p) (FwdStats.MTUExceeded fs)"
    "grown (prevSendErr p) (FwdStats.SendErrors fs)" "distinct (map fst (Stats.FilterDrops cs))"
    "\<forall>(r, v) \<in> set ?drops. grown (prev_reason p r) v"
    using assms(1,3) by (simp_all add: grows_def range_order_facts)
  have e1: "exported P ?p1 ?m1" using exported_plain(1) [OF assms(2) g(1)] .
  have d: "distinct (map fst ?drops)" using range_order_facts(2) [OF assms(1), of fst] g(4) by simp
  obtain p2 m2 where r: "report_reasons P metrics ?drops (?p1, ?m1) = Some (p2, m2)" and e2: "exported P p2 m2"
    using report_reasons_exported [OF e1 d] g(5) by (auto simp: prev_reason_def)
  have "map_of (rev ?drops) = map_of (Stats.FilterDrops cs)"
    using assms(1) g(4) by (intro map_of_permuted) (simp_all add: range_order_def)
  then have p2: "p2 = ?p1\<lparr>prevFilterDrops := prevFilterDrops p ++ map_of (Stats.FilterDrops cs)\<rparr>"
    using report_reasons_map [OF r] by simp
  let ?m3 = "counter_add P (Metrics.MTUExceeded metrics) (delta (FwdStats.MTUExceeded fs) (prevMTU p2)) m2"
  let ?p3 = "p2\<lparr>prevMTU := FwdStats.MTUExceeded fs\<rparr>"
  have e3: "exported P ?p3 ?m3" by (rule exported_plain(2) [OF e2]) (simp add: p2 g(2))
  let ?m4 = "counter_add P (Metrics.SendErrors metrics) (delta (FwdStats.SendErrors fs) (prevSendErr ?p3)) ?m3"
  have e4: "exported P (?p3\<lparr>prevSendErr := FwdStats.SendErrors fs\<rparr>) ?m4"
    by (rule exported_plain(3) [OF e3]) (simp add: p2 g(3))
  have "exported P (seen cs fs p) ?m4"
    using e4 by (simp add: exported_def prev_reason_def seen_def p2)
  moreover have "\<exists>l. report P metrics rng cs fs (p, m) = Some (l, seen cs fs p, ?m4)"
    using r by (simp add: report_def Let_def seen_def) (simp add: p2)
  ultimately show ?thesis by blast
qed

lemma statsReporter_exported:
  assumes "range_order rng" "exported P p m" "all_grow p ticks"
  shows "\<exists>ls m'. statsReporter P metrics rng (map (\<lambda>(cs, fs). RepTick cs fs) ticks) (p, m) =
      Some (ls, last_seen ticks p, m') \<and> length ls = length ticks \<and> exported P (last_seen ticks p) m'"
  using assms(2,3)
proof (induction ticks arbitrary: p m)
  case (Cons t ticks)
  obtain cs fs where t: "t = (cs, fs)" by fastforce
  with Cons.prems obtain l m1 where "report P metrics rng cs fs (p, m) = Some (l, seen cs fs p, m1)"
    "exported P (seen cs fs p) m1" using report_exported [OF assms(1) Cons.prems(1), of cs fs] by auto
  with Cons.IH [of "seen cs fs p" m1] Cons.prems t show ?case by (auto simp: last_seen_def)
qed (simp add: last_seen_def)

lemma exported_New:
  assumes "registered reg = {}" "\<forall>s. p_val P reg s = None" "Metrics.New P reg = Some (M, m)"
  shows "M = metrics" "exported P no_totals m" "registered m = set (collectors metrics)"
    "amount P m s = 0"
proof -
  obtain m1 where n: "Metrics.New P reg = Some (metrics, m1)" "registered m1 = set (collectors metrics)"
    and v: "\<forall>s. p_val P m1 s = Some 0 \<or> p_val P m1 s = None"
    using New_fresh [OF assms(1,2)] by (metis (no_types, lifting))
  then show "M = metrics" "registered m = set (collectors metrics)" using assms(3) by simp_all
  have z: "amount P m s = 0" for s using v [rule_format, of s] n(1) assms(3) by (auto simp: amount_def)
  then show "amount P m s = 0" .
  show "exported P no_totals m" by (simp add: exported_def z no_totals_def prev_reason_def)
qed

end

text \<open>A total that has fallen: the difference wraps.\<close>

lemma float64_large: "2 ^ 63 \<le> n \<Longrightarrow> n < 2 ^ 64 \<Longrightarrow> 2 ^ 63 \<le> float64 n"
proof -
  assume n: "2 ^ 63 \<le> n" "n < 2 ^ 64"
  have "floorlog 2 n = 64"
    using n floorlog_leI [of n 2 64] floorlog_ge_SucI [of 2 63 n] by simp
  moreover have "2 ^ 52 \<le> n div 2 ^ 11" using n(1) by (simp add: less_eq_div_iff_mult_less_eq)
  ultimately show ?thesis by (simp add: float64_def Let_def)
qed

lemma delta_fallen: "unat new < unat old \<Longrightarrow> unat old < 2 ^ 63 \<Longrightarrow> 2 ^ 63 \<le> delta new old"
proof -
  assume a: "unat new < unat old" "unat old < 2 ^ 63"
  then have "unat (new - old) = 2 ^ 64 + unat new - unat old"
    by (simp add: unat_sub_if')
  moreover have "2 ^ 63 \<le> float64 (2 ^ 64 + unat new - unat old)"
    using a by (intro float64_large) simp_all
  ultimately show ?thesis by (simp add: delta_def)
qed

lemma ref_add_mono: "amount ref_prom m s' \<le> amount ref_prom (p_add ref_prom s v m) s'"
  by (cases m) (auto simp: amount_def ref_prom_def)

lemma ref_reasons_mono:
  "report_reasons ref_prom M drops (p, m) = Some (p', m') \<Longrightarrow> amount ref_prom m s \<le> amount ref_prom m' s"
proof (induction drops arbitrary: p m)
  case (Cons d drops)
  obtain r v where d: "d = (r, v)" by fastforce
  with Cons.prems obtain w where
    "report_reasons ref_prom M drops (p\<lparr>prevFilterDrops := (prevFilterDrops p)(r \<mapsto> v)\<rparr>,
       p_add ref_prom w (delta v (prev_reason p r)) m) = Some (p', m')"
    by (cases "WithLabelValues (Metrics.FilterDrops M) [r]") (simp_all add: vec_add_def)
  from Cons.IH [OF this] ref_add_mono show ?case by (rule order_trans [rotated])
qed simp

lemma ref_report_kernel:
  assumes "report ref_prom M rng cs fs (p, m) = Some (l, p', m')"
  shows "amount ref_prom m (plain (Metrics.KernelDrops M)) + delta (Stats.KernelDrops cs) (prevKernelDrops p)
    \<le> amount ref_prom m' (plain (Metrics.KernelDrops M))"
proof -
  let ?k = "plain (Metrics.KernelDrops M)" and ?d = "delta (Stats.KernelDrops cs) (prevKernelDrops p)"
  let ?q = "p\<lparr>prevKernelDrops := Stats.KernelDrops cs\<rparr>"
  obtain p2 m2 where r: "report_reasons ref_prom M (rng (Stats.FilterDrops cs)) (?q, p_add ref_prom ?k ?d m) = Some (p2, m2)"
    using assms by (cases "report_reasons ref_prom M (rng (Stats.FilterDrops cs)) (?q, p_add ref_prom ?k ?d m)")
      (auto simp: report_def Let_def counter_add_def)
  define n where "n = p_add ref_prom (plain (Metrics.MTUExceeded M)) (delta (FwdStats.MTUExceeded fs) (prevMTU p2)) m2"
  have m': "m' = p_add ref_prom (plain (Metrics.SendErrors M)) (delta (FwdStats.SendErrors fs) (prevSendErr p2)) n"
    using assms r by (simp add: report_def Let_def counter_add_def n_def)
  have "amount ref_prom m ?k + ?d = amount ref_prom (p_add ref_prom ?k ?d m) ?k"
    by (cases m) (simp add: amount_def ref_prom_def)
  also have "\<dots> \<le> amount ref_prom m2 ?k" using ref_reasons_mono [OF r] .
  also have "\<dots> \<le> amount ref_prom n ?k" unfolding n_def by (rule ref_add_mono)
  also have "\<dots> \<le> amount ref_prom m' ?k" unfolding m' by (rule ref_add_mono)
  finally show ?thesis .
qed

section \<open>What the packet loop counts\<close>

definition forwarded :: "Forwarder \<Rightarrow> turn \<Rightarrow> bool" where
  "forwarded f turn =
     (case turn of (pkt, t1, wr, t2) \<Rightarrow>
        Data pkt \<noteq> [] \<and> int (length (Data pkt)) \<le> innerMax f \<and>
        (case wr (header f @ Data pkt) of Inr _ \<Rightarrow> True | Inl _ \<Rightarrow> False))"

definition wire_bytes :: "turn \<Rightarrow> nat" where
  "wire_bytes turn = length (Data (fst turn)) + 50"

text \<open>An upper bound of what the turns can add to any one series.\<close>

definition load :: "turn list \<Rightarrow> nat" where
  "load turns = (\<Sum>turn\<leftarrow>turns. wire_bytes turn + 1)"

definition on_series :: "string \<Rightarrow> string \<Rightarrow> turn \<Rightarrow> bool" where
  "on_series i d turn \<longleftrightarrow> Iface (fst turn) = i \<and> Direction_String (Dir (fst turn)) = d"

text \<open>One turn: what it adds to the three metrics.\<close>

definition turn_metrics :: "'m prom \<Rightarrow> bool \<Rightarrow> turn \<Rightarrow> 'm \<Rightarrow> 'm" where
  "turn_metrics P fw turn m =
     (let m = p_add P (d_name (PacketsCaptured metrics), [Iface (fst turn), Direction_String (Dir (fst turn))]) 1 m in
      if fw then p_add P (plain (BytesForwarded metrics)) (wire_bytes turn) (p_add P (plain (PacketsForwarded metrics)) 1 m)
      else m)"

text \<open>What the health server observes of the turns.\<close>

definition loop_events :: "Forwarder \<Rightarrow> turn list \<Rightarrow> health_event list" where
  "loop_events f turns =
     concat (map (\<lambda>turn. case turn of (pkt, t1, wr, t2) \<Rightarrow>
       EvCapture t1 # (if forwarded f turn then [EvForward t2] else [])) turns)"

lemma Send_forwarded:
  assumes "fwd_inv f"
  shows "\<exists>f' dg. Send wr f (Data pkt) =
      Some (f', if forwarded f (pkt, t1, wr, t2) then length (Data pkt) else 0, dg) \<and>
    fwd_inv f' \<and> forwarded f' = forwarded f"
proof -
  obtain f' n dg where r: "Send wr f (Data pkt) = Some (f', n, dg)"
    using Send_inv [OF assms] by (metis prod_cases3)
  have "n = (if forwarded f (pkt, t1, wr, t2) then length (Data pkt) else 0)"
    using r by (auto simp: Send_inv [OF assms] forwarded_def Let_def split: if_splits sum.splits)
  with r Send_fwd_inv [OF assms r] show ?thesis by (simp add: forwarded_def fun_eq_iff)
qed

context prom_registry
begin

lemma amount_turn:
  assumes "\<forall>s. amount P m s + wire_bytes turn + 1 < 2 ^ 53"
  shows "amount P (turn_metrics P fw turn m) (plain (PacketsForwarded metrics)) =
      amount P m (plain (PacketsForwarded metrics)) + (if fw then 1 else 0)"
    "amount P (turn_metrics P fw turn m) (plain (BytesForwarded metrics)) =
      amount P m (plain (BytesForwarded metrics)) + (if fw then wire_bytes turn else 0)"
    "amount P (turn_metrics P fw turn m) (d_name (PacketsCaptured metrics), [i, d]) =
      amount P m (d_name (PacketsCaptured metrics), [i, d]) + (if on_series i d turn then 1 else 0)"
    "amount P (turn_metrics P fw turn m) s \<le> amount P m s + wire_bytes turn + 1"
proof -
  define c f b where "c = (d_name (PacketsCaptured metrics), [Iface (fst turn), Direction_String (Dir (fst turn))])"
    and "f = plain (PacketsForwarded metrics)" and "b = plain (BytesForwarded metrics)"
  define m1 m2 m3 where "m1 = p_add P c 1 m" and "m2 = p_add P f 1 m1"
    and "m3 = p_add P b (wire_bytes turn) m2"
  have ne: "f \<noteq> c" "b \<noteq> c" "f \<noteq> b" by (simp_all add: c_def f_def b_def metrics_def)
  have a1: "amount P m1 s = amount P m s + (if s = c then 1 else 0)" for s
    unfolding m1_def using assms [THEN spec, of c] by (intro amount_add_if) simp
  have a2: "amount P m2 s = amount P m1 s + (if s = f then 1 else 0)" for s
    unfolding m2_def using assms [THEN spec, of f] a1 [of f] ne by (intro amount_add_if) simp
  have a3: "amount P m3 s = amount P m2 s + (if s = b then wire_bytes turn else 0)" for s
    unfolding m3_def using assms [THEN spec, of b] a2 [of b] a1 [of b] ne by (intro amount_add_if) simp
  have t: "turn_metrics P fw turn m = (if fw then m3 else m1)"
    by (simp add: turn_metrics_def Let_def m1_def m2_def m3_def c_def f_def b_def)
  note amounts = a1 a2 a3
  show "amount P (turn_metrics P fw turn m) (plain (PacketsForwarded metrics)) =
      amount P m (plain (PacketsForwarded metrics)) + (if fw then 1 else 0)"
    "amount P (turn_metrics P fw turn m) (plain (BytesForwarded metrics)) =
      amount P m (plain (BytesForwarded metrics)) + (if fw then wire_bytes turn else 0)"
    unfolding t f_def [symmetric] b_def [symmetric] using ne by (auto simp: amounts)
  have "(d_name (PacketsCaptured metrics), [i, d]) \<noteq> f" "(d_name (PacketsCaptured metrics), [i, d]) \<noteq> b"
    by (simp_all add: f_def b_def)
  then show "amount P (turn_metrics P fw turn m) (d_name (PacketsCaptured metrics), [i, d]) =
      amount P m (d_name (PacketsCaptured metrics), [i, d]) + (if on_series i d turn then 1 else 0)"
    unfolding t by (auto simp: amounts on_series_def c_def)
  show "amount P (turn_metrics P fw turn m) s \<le> amount P m s + wire_bytes turn + 1"
    unfolding t using ne by (auto simp: amounts)
qed

lemma packet_loop_step:
  assumes "fwd_inv f" "wire_bytes (pkt, t1, wr, t2) < 2 ^ 53"
  shows "\<exists>f'. packet_loop P metrics ((pkt, t1, wr, t2) # turns) (hs, m, f) =
      packet_loop P metrics turns
        (if forwarded f (pkt, t1, wr, t2) then ObserveForward t2 (ObserveCapture t1 hs) else ObserveCapture t1 hs,
         turn_metrics P (forwarded f (pkt, t1, wr, t2)) (pkt, t1, wr, t2) m, f') \<and>
    fwd_inv f' \<and> forwarded f' = forwarded f"
proof -
  obtain f' dg where s: "Send wr f (Data pkt) =
      Some (f', if forwarded f (pkt, t1, wr, t2) then length (Data pkt) else 0, dg)"
    "fwd_inv f'" "forwarded f' = forwarded f"
    using Send_forwarded [OF assms(1)] by blast
  have b: "float64 (length (Data pkt) + nat VXLANOverhead) = wire_bytes (pkt, t1, wr, t2)"
    using assms(2) by (simp add: wire_bytes_def VXLANOverhead_def float64_exact)
  have l: "length (d_labels (PacketsCaptured metrics)) = 2" by (simp add: metrics_def)
  have ne: "Data pkt \<noteq> []" if "forwarded f (pkt, t1, wr, t2)" using that by (simp add: forwarded_def)
  show ?thesis
    using s ne by (intro exI [of _ f'])
      (auto simp: vec_add_def WithLabelValues_def l counter_add_def turn_metrics_def Let_def b)
qed

lemma packet_loop_sums:
  "fwd_inv f \<Longrightarrow> \<forall>s. amount P m s + load turns < 2 ^ 53 \<Longrightarrow>
     \<exists>m' f'. packet_loop P metrics turns (hs, m, f) = Some (health_run hs (loop_events f turns), m', f') \<and>
       fwd_inv f' \<and>
       amount P m' (plain (PacketsForwarded metrics)) =
         amount P m (plain (PacketsForwarded metrics)) + length (filter (forwarded f) turns) \<and>
       amount P m' (plain (BytesForwarded metrics)) =
         amount P m (plain (BytesForwarded metrics)) + (\<Sum>turn\<leftarrow>filter (forwarded f) turns. wire_bytes turn) \<and>
       (\<forall>i d. amount P m' (d_name (PacketsCaptured metrics), [i, d]) =
         amount P m (d_name (PacketsCaptured metrics), [i, d]) + length (filter (on_series i d) turns))"
proof (induction turns arbitrary: hs m f)
  case Nil
  then show ?case by (simp add: health_run_def loop_events_def)
next
  case (Cons turn turns)
  obtain pkt t1 wr t2 where t: "turn = (pkt, t1, wr, t2)" by (metis prod_cases4)
  let ?fw = "forwarded f turn" and ?m = "turn_metrics P (forwarded f turn) turn m"
  let ?hs = "if ?fw then ObserveForward t2 (ObserveCapture t1 hs) else ObserveCapture t1 hs"
  have b: "\<forall>s. amount P m s + wire_bytes turn + 1 < 2 ^ 53"
  proof
    fix s
    from Cons.prems(2) [THEN spec, of s] show "amount P m s + wire_bytes turn + 1 < 2 ^ 53"
      by (simp add: load_def)
  qed
  note amt = amount_turn [OF b]
  have "wire_bytes turn < 2 ^ 53" using b [THEN spec, of undefined] by linarith
  then obtain f1 where f1: "packet_loop P metrics (turn # turns) (hs, m, f) = packet_loop P metrics turns (?hs, ?m, f1)"
    "fwd_inv f1" "forwarded f1 = forwarded f"
    using packet_loop_step [OF Cons.prems(1)] unfolding t by blast
  have "amount P ?m s + load turns < 2 ^ 53" for s
    using Cons.prems(2) [THEN spec, of s] amt(4) [of ?fw s] by (simp add: load_def)
  then obtain m' f' where r: "packet_loop P metrics turns (?hs, ?m, f1) = Some (health_run ?hs (loop_events f1 turns), m', f')"
    "fwd_inv f'"
    "amount P m' (plain (PacketsForwarded metrics)) =
       amount P ?m (plain (PacketsForwarded metrics)) + length (filter (forwarded f1) turns)"
    "amount P m' (plain (BytesForwarded metrics)) =
       amount P ?m (plain (BytesForwarded metrics)) + (\<Sum>turn\<leftarrow>filter (forwarded f1) turns. wire_bytes turn)"
    "\<forall>i d. amount P m' (d_name (PacketsCaptured metrics), [i, d]) =
       amount P ?m (d_name (PacketsCaptured metrics), [i, d]) + length (filter (on_series i d) turns)"
    using Cons.IH [OF f1(2), of ?m ?hs] by blast
  have "health_run ?hs (loop_events f1 turns) = health_run hs (loop_events f (turn # turns))"
    by (simp add: health_run_def loop_events_def f1(3) t)
  with r f1 show ?case by (simp add: amt)
qed

end

section \<open>Properties\<close>

lemma last_seen_snoc: "last_seen (ticks @ [(cs, fs)]) p = seen cs fs (last_seen ticks p)"
  by (simp add: last_seen_def)

lemma all_grow_snoc:
  "all_grow p (ticks @ [(cs, fs)]) \<longleftrightarrow> all_grow p ticks \<and> grows (last_seen ticks p) cs fs"
  by (induction p ticks rule: all_grow.induct) (simp_all add: last_seen_def)

text \<open>C25: the reporter exports running totals, not sums of totals. From a fresh registry, over any
  number of ticks in which the totals do not fall (and stay in the exact range of a \<open>float64\<close>),
  in whatever order the drop reasons are visited, the reporter never panics, and after each tick
  every exported counter is the total that the capturer or the forwarder reported in it.\<close>

theorem reporter_exact:
  assumes "prom_registry P registered" "registered reg = {}" "\<forall>s. p_val P reg s = None"
    "Metrics.New P reg = Some (M, m)" "range_order rng" "all_grow no_totals (ticks @ [(cs, fs)])"
  shows "\<exists>ls p m'. statsReporter P M rng (map (\<lambda>(cs, fs). RepTick cs fs) (ticks @ [(cs, fs)])) (no_totals, m) =
      Some (ls, p, m') \<and>
    amount P m' (plain (Metrics.KernelDrops M)) = unat (Stats.KernelDrops cs) \<and>
    amount P m' (plain (Metrics.MTUExceeded M)) = unat (FwdStats.MTUExceeded fs) \<and>
    amount P m' (plain (Metrics.SendErrors M)) = unat (FwdStats.SendErrors fs) \<and>
    (\<forall>(r, v) \<in> set (Stats.FilterDrops cs). amount P m' (d_name (Metrics.FilterDrops M), [r]) = unat v)"
proof -
  note new = prom_registry.exported_New [OF assms(1-4)]
  obtain ls m' where run: "statsReporter P metrics rng (map (\<lambda>(cs, fs). RepTick cs fs) (ticks @ [(cs, fs)])) (no_totals, m) =
      Some (ls, last_seen (ticks @ [(cs, fs)]) no_totals, m')"
    and e: "exported P (last_seen (ticks @ [(cs, fs)]) no_totals) m'"
    using prom_registry.statsReporter_exported [OF assms(1,5) new(2) assms(6)] by blast
  have "distinct (map fst (Stats.FilterDrops cs))" using assms(6) by (simp add: all_grow_snoc grows_def)
  then have "\<forall>(r, v) \<in> set (Stats.FilterDrops cs). amount P m' (d_name (Metrics.FilterDrops metrics), [r]) = unat v"
    using e by (auto simp: exported_def last_seen_snoc seen_def prev_reason_def map_add_def)
  with e run show ?thesis unfolding new(1) by (auto simp: exported_def last_seen_snoc seen_def)
qed

definition stats5 :: Stats where
  "stats5 = \<lparr>CapturedPackets = 9, KernelDrops = 5, FilterDrops = [(''dns'', 2)]\<rparr>"

definition stats12 :: Stats where
  "stats12 = \<lparr>CapturedPackets = 20, KernelDrops = 12, FilterDrops = [(''dns'', 3)]\<rparr>"

definition idle_fwd_stats :: FwdStats where
  "idle_fwd_stats = \<lparr>Sent = 0, SendErrors = 0, MTUExceeded = 0, BytesOut = 0\<rparr>"

theorem reporter_exact_witness:
  "\<exists>m ls p m'. Metrics.New ref_prom ([], Map.empty) = Some (metrics, m) \<and>
     statsReporter ref_prom metrics id [RepTick stats5 idle_fwd_stats, RepTick stats12 idle_fwd_stats] (no_totals, m) =
       Some (ls, p, m') \<and>
     amount ref_prom m' (''sensor_packets_dropped_kernel_total'', []) = 12"
proof -
  have r: "set (fst ([], Map.empty) :: desc list) = {}" "\<forall>s. p_val ref_prom ([], Map.empty) s = None"
    by (simp_all add: ref_prom_def)
  obtain m where new: "Metrics.New ref_prom ([], Map.empty) = Some (metrics, m)"
    using ref_registry.New_fresh [OF r] by blast
  have g: "all_grow no_totals ([(stats5, idle_fwd_stats)] @ [(stats12, idle_fwd_stats)])"
    by (simp add: grows_def grown_def no_totals_def stats5_def stats12_def idle_fwd_stats_def seen_def prev_reason_def)
  have k: "plain (Metrics.KernelDrops metrics) = (''sensor_packets_dropped_kernel_total'', [])"
    "unat (Stats.KernelDrops stats12) = 12" by (simp_all add: metrics_def stats12_def)
  from reporter_exact [OF ref_registry.prom_registry_axioms r new range_order_id(1) g] new
  show ?thesis unfolding k by auto
qed

text \<open>The packet loop. On a forwarder in its invariant, for any sequence of packets and any
  answers of the socket (within the exact range of the registry), the loop never panics; the
  forwarded counter grows by the packets that were sent, the byte counter by their wire size with
  the 50 bytes of encapsulation, the captured counter of each interface and direction by the
  packets received there; and the health server has observed every capture and, after it, every
  successful forward.\<close>

lemma packet_loop_counts:
  assumes "prom_registry P registered" "fwd_inv f" "\<forall>s. amount P m s + load turns < 2 ^ 53"
  shows "\<exists>m' f'. packet_loop P metrics turns (hs, m, f) = Some (health_run hs (loop_events f turns), m', f') \<and>
    fwd_inv f' \<and>
    amount P m' (plain (PacketsForwarded metrics)) =
      amount P m (plain (PacketsForwarded metrics)) + length (filter (forwarded f) turns) \<and>
    amount P m' (plain (BytesForwarded metrics)) =
      amount P m (plain (BytesForwarded metrics)) + (\<Sum>turn\<leftarrow>filter (forwarded f) turns. wire_bytes turn) \<and>
    (\<forall>i d. amount P m' (d_name (PacketsCaptured metrics), [i, d]) =
      amount P m (d_name (PacketsCaptured metrics), [i, d]) + length (filter (on_series i d) turns))"
  using prom_registry.packet_loop_sums [OF assms] .

definition example_turns :: "turn list" where
  "example_turns =
     [(\<lparr>Data = replicate 42 7, Iface = ''eth0'', Dir = DirIngress\<rparr>, 100, (\<lambda>dg. Inr (length dg)), 101),
      (\<lparr>Data = replicate 51 7, Iface = ''eth0'', Dir = DirIngress\<rparr>, 200, (\<lambda>dg. Inr (length dg)), 201),
      (\<lparr>Data = replicate 42 7, Iface = ''eth0'', Dir = DirEgress\<rparr>, 300, (\<lambda>dg. Inl ''refused''), 301)]"

lemma packet_loop_counts_example:
  "\<exists>m' f'. packet_loop ref_prom metrics example_turns (Health.New 30, ([], Map.empty), example_fwd) =
       Some (health_run (Health.New 30) (loop_events example_fwd example_turns), m', f') \<and>
     amount ref_prom m' (''sensor_packets_forwarded_total'', []) = 1 \<and>
     amount ref_prom m' (''sensor_bytes_forwarded_total'', []) = 92"
proof -
  have i: "fwd_inv example_fwd" by (simp add: fwd_inv_def example_fwd_def)
  have z: "amount ref_prom ([], Map.empty) s = 0" for s by (simp add: amount_def ref_prom_def)
  have l: "\<forall>s. amount ref_prom ([], Map.empty) s + load example_turns < 2 ^ 53"
    by (simp add: z load_def example_turns_def wire_bytes_def)
  have f: "filter (forwarded example_fwd) example_turns = [hd example_turns]"
    by (simp add: example_turns_def forwarded_def example_fwd_def)
  have n: "plain (PacketsForwarded metrics) = (''sensor_packets_forwarded_total'', [])"
    "plain (BytesForwarded metrics) = (''sensor_bytes_forwarded_total'', [])"
    "wire_bytes (hd example_turns) = 92"
    by (simp_all add: metrics_def wire_bytes_def example_turns_def)
  from packet_loop_counts [OF ref_registry.prom_registry_axioms i l, of "Health.New 30"] z f
  show ?thesis unfolding n(1,2) by (auto simp: n(3))
qed

end
