(* ===== verification/Goroutines.thy ===== *)
theory Goroutines
  imports Reporter
begin

text \<open>
  The packet loop and \<open>statsReporter\<close> of \<open>cmd/sensor/main.go\<close> as the two goroutines they are, on one
  registry, one forwarder and one health server. A step is one statement that the other goroutine
  can see: a counter operation, a call of \<open>Send\<close>, one of the four atomic loads of
  \<open>Forwarder.Stats\<close>, an observation. \<open>Send\<close> is one step because it adds to \<open>mtuExceeded\<close> or to
  \<open>sendErrors\<close> at most once; the two additions of a successful send reach only totals that the
  reporter logs. The totals of the capturer are changed by a third party at any time. Theory
  \<open>Reporter\<close> runs each loop alone; here every interleaving is covered.
\<close>

section \<open>Steps\<close>

text \<open>Where the packet loop is, with the packet it has received: before the receive, before the
  captured counter, before \<open>Send\<close>, and, when \<open>Send\<close> returned \<open>n > 0\<close>, before the two forwarded
  counters and the health observation.\<close>

datatype loop_pc = LReceive | LCount turn | LSend turn | LForwarded turn nat | LBytes turn nat | LObserve turn

text \<open>Where a tick of the reporter is, with the statistics it has read.\<close>

datatype rep_pc = RWait | RRead Stats | RLoad1 Stats u64 | RLoad2 Stats u64 u64 | RLoad3 Stats u64 u64 u64
  | RKernel Stats FwdStats | RReasons "(string \<times> u64) list" Stats FwdStats
  | RMtu Stats FwdStats | RSendErr Stats FwdStats | RLog Stats FwdStats

record 'm gworld =
  g_hs :: Server
  g_reg :: 'm
  g_fwd :: Forwarder
  g_loop :: loop_pc
  g_todo :: "turn list"
  g_caps :: Stats
  g_rep :: rep_pc
  g_prev :: prev_totals

text \<open>The body of \<open>for pkt := range packets\<close>.\<close>

inductive lstep :: "'m prom \<Rightarrow> Metrics \<Rightarrow> 'm gworld \<Rightarrow> 'm gworld \<Rightarrow> bool"
  for P :: "'m prom" and M :: Metrics
where
  receive: "g_loop w = LReceive \<Longrightarrow> g_todo w = (pkt, t1, wr, t2) # turns \<Longrightarrow>
    lstep P M w (w\<lparr>g_hs := ObserveCapture t1 (g_hs w), g_loop := LCount (pkt, t1, wr, t2), g_todo := turns\<rparr>)"
| count: "g_loop w = LCount (pkt, t1, wr, t2) \<Longrightarrow>
    vec_add P (PacketsCaptured M) [Iface pkt, Direction_String (Dir pkt)] 1 (g_reg w) = Some m \<Longrightarrow>
    lstep P M w (w\<lparr>g_reg := m, g_loop := LSend (pkt, t1, wr, t2)\<rparr>)"
| send: "g_loop w = LSend (pkt, t1, wr, t2) \<Longrightarrow> Send wr (g_fwd w) (Data pkt) = Some (f, n, dg) \<Longrightarrow>
    lstep P M w (w\<lparr>g_fwd := f, g_loop := if n = 0 then LReceive else LForwarded (pkt, t1, wr, t2) n\<rparr>)"
| forwarded: "g_loop w = LForwarded turn n \<Longrightarrow>
    lstep P M w (w\<lparr>g_reg := counter_add P (PacketsForwarded M) 1 (g_reg w), g_loop := LBytes turn n\<rparr>)"
| bytes: "g_loop w = LBytes turn n \<Longrightarrow>
    lstep P M w (w\<lparr>g_reg := counter_add P (BytesForwarded M) (float64 (n + nat VXLANOverhead)) (g_reg w),
      g_loop := LObserve turn\<rparr>)"
| observe: "g_loop w = LObserve (pkt, t1, wr, t2) \<Longrightarrow>
    lstep P M w (w\<lparr>g_hs := ObserveForward t2 (g_hs w), g_loop := LReceive\<rparr>)"

text \<open>A tick of \<open>statsReporter\<close>, with the loads of \<open>fwd.Stats()\<close>.\<close>

inductive rstep ::
  "'m prom \<Rightarrow> Metrics \<Rightarrow> ((string \<times> u64) list \<Rightarrow> (string \<times> u64) list) \<Rightarrow> 'm gworld \<Rightarrow> 'm gworld \<Rightarrow> bool"
  for P :: "'m prom" and M :: Metrics and rng :: "(string \<times> u64) list \<Rightarrow> (string \<times> u64) list"
where
  on_tick: "g_rep w = RWait \<Longrightarrow> rstep P M rng w (w\<lparr>g_rep := RRead (g_caps w)\<rparr>)"
| on_sent: "g_rep w = RRead cs \<Longrightarrow> rstep P M rng w (w\<lparr>g_rep := RLoad1 cs (sent (g_fwd w))\<rparr>)"
| on_errors: "g_rep w = RLoad1 cs a \<Longrightarrow> rstep P M rng w (w\<lparr>g_rep := RLoad2 cs a (sendErrors (g_fwd w))\<rparr>)"
| on_exceeded: "g_rep w = RLoad2 cs a b \<Longrightarrow> rstep P M rng w (w\<lparr>g_rep := RLoad3 cs a b (mtuExceeded (g_fwd w))\<rparr>)"
| on_bytes: "g_rep w = RLoad3 cs a b c \<Longrightarrow>
    rstep P M rng w (w\<lparr>g_rep := RKernel cs \<lparr>Sent = a, SendErrors = b, MTUExceeded = c, BytesOut = bytesOut (g_fwd w)\<rparr>\<rparr>)"
| on_kernel: "g_rep w = RKernel cs fs \<Longrightarrow> p = g_prev w \<Longrightarrow>
    rstep P M rng w (w\<lparr>g_reg := counter_add P (Metrics.KernelDrops M) (delta (Stats.KernelDrops cs) (prevKernelDrops p)) (g_reg w),
      g_prev := p\<lparr>prevKernelDrops := Stats.KernelDrops cs\<rparr>, g_rep := RReasons (rng (Stats.FilterDrops cs)) cs fs\<rparr>)"
| on_reason: "g_rep w = RReasons ((reason, v) # drops) cs fs \<Longrightarrow> p = g_prev w \<Longrightarrow>
    vec_add P (Metrics.FilterDrops M) [reason] (delta v (prev_reason p reason)) (g_reg w) = Some m \<Longrightarrow>
    rstep P M rng w (w\<lparr>g_reg := m, g_prev := p\<lparr>prevFilterDrops := (prevFilterDrops p)(reason \<mapsto> v)\<rparr>,
      g_rep := RReasons drops cs fs\<rparr>)"
| on_reasons: "g_rep w = RReasons [] cs fs \<Longrightarrow> rstep P M rng w (w\<lparr>g_rep := RMtu cs fs\<rparr>)"
| on_mtu: "g_rep w = RMtu cs fs \<Longrightarrow> p = g_prev w \<Longrightarrow>
    rstep P M rng w (w\<lparr>g_reg := counter_add P (Metrics.MTUExceeded M) (delta (FwdStats.MTUExceeded fs) (prevMTU p)) (g_reg w),
      g_prev := p\<lparr>prevMTU := FwdStats.MTUExceeded fs\<rparr>, g_rep := RSendErr cs fs\<rparr>)"
| on_senderr: "g_rep w = RSendErr cs fs \<Longrightarrow> p = g_prev w \<Longrightarrow>
    rstep P M rng w (w\<lparr>g_reg := counter_add P (Metrics.SendErrors M) (delta (FwdStats.SendErrors fs) (prevSendErr p)) (g_reg w),
      g_prev := p\<lparr>prevSendErr := FwdStats.SendErrors fs\<rparr>, g_rep := RLog cs fs\<rparr>)"
| on_log: "g_rep w = RLog cs fs \<Longrightarrow> p = g_prev w \<Longrightarrow>
    rstep P M rng w (w\<lparr>g_prev := p\<lparr>prevCaptured := CapturedPackets cs, prevSent := Sent fs, prevBytes := BytesOut fs\<rparr>,
      g_rep := RWait\<rparr>)"

text \<open>Either goroutine moves, or the capturer's totals change.\<close>

inductive gstep ::
  "'m prom \<Rightarrow> Metrics \<Rightarrow> ((string \<times> u64) list \<Rightarrow> (string \<times> u64) list) \<Rightarrow> 'm gworld \<Rightarrow> 'm gworld \<Rightarrow> bool"
  for P :: "'m prom" and M :: Metrics and rng :: "(string \<times> u64) list \<Rightarrow> (string \<times> u64) list"
where
  loop_moves: "lstep P M w w' \<Longrightarrow> gstep P M rng w w'"
| reporter_moves: "rstep P M rng w w' \<Longrightarrow> gstep P M rng w w'"
| capture_more: "gstep P M rng w (w\<lparr>g_caps := cs\<rparr>)"

lemmas loop_receive = lstep.receive [THEN loop_moves]
lemmas loop_count = lstep.count [THEN loop_moves]
lemmas loop_send = lstep.send [THEN loop_moves]
lemmas loop_forwarded = lstep.forwarded [THEN loop_moves]
lemmas loop_bytes = lstep.bytes [THEN loop_moves]
lemmas loop_observe = lstep.observe [THEN loop_moves]
lemmas rep_tick = rstep.on_tick [THEN reporter_moves]
lemmas rep_sent = rstep.on_sent [THEN reporter_moves]
lemmas rep_errors = rstep.on_errors [THEN reporter_moves]
lemmas rep_exceeded = rstep.on_exceeded [THEN reporter_moves]
lemmas rep_bytes = rstep.on_bytes [THEN reporter_moves]
lemmas rep_kernel = rstep.on_kernel [THEN reporter_moves]
lemmas rep_reason = rstep.on_reason [THEN reporter_moves]
lemmas rep_reasons = rstep.on_reasons [THEN reporter_moves]
lemmas rep_mtu = rstep.on_mtu [THEN reporter_moves]
lemmas rep_senderr = rstep.on_senderr [THEN reporter_moves]
lemmas rep_log = rstep.on_log [THEN reporter_moves]

definition gstarted :: "Server \<Rightarrow> 'm \<Rightarrow> Forwarder \<Rightarrow> turn list \<Rightarrow> Stats \<Rightarrow> 'm gworld" where
  "gstarted hs m f turns cs = \<lparr>g_hs = hs, g_reg = m, g_fwd = f, g_loop = LReceive, g_todo = turns, g_caps = cs,
     g_rep = RWait, g_prev = no_totals\<rparr>"

section \<open>The loops alone\<close>

text \<open>Undisturbed, the steps of the packet loop are a run of \<open>packet_loop\<close>, and the steps of a tick
  are one \<open>report\<close>.\<close>

lemma packet_loop_steps:
  "packet_loop P M turns (g_hs w, g_reg w, g_fwd w) = Some (hs', m', f') \<Longrightarrow> g_loop w = LReceive \<Longrightarrow> g_todo w = turns \<Longrightarrow>
     (gstep P M rng)\<^sup>*\<^sup>* w (w\<lparr>g_hs := hs', g_reg := m', g_fwd := f', g_todo := []\<rparr>)"
proof (induction turns arbitrary: w)
  case Nil
  then have "w\<lparr>g_hs := hs', g_reg := m', g_fwd := f', g_todo := []\<rparr> = w" by (cases w) simp
  then show ?case by simp
next
  case (Cons turn turns)
  obtain pkt t1 wr t2 where t: "turn = (pkt, t1, wr, t2)" by (metis prod_cases4)
  let ?turn = "(pkt, t1, wr, t2)" and ?hs = "ObserveCapture t1 (g_hs w)"
  from Cons.prems(1) obtain m f n dg where m: "vec_add P (PacketsCaptured M) [Iface pkt, Direction_String (Dir pkt)] 1 (g_reg w) = Some m"
    and f: "Send wr (g_fwd w) (Data pkt) = Some (f, n, dg)"
    by (auto simp: t Let_def split: option.splits prod.splits)
  define w1 w2 w3 where "w1 = w\<lparr>g_hs := ?hs, g_loop := LCount ?turn, g_todo := turns\<rparr>"
    and "w2 = w1\<lparr>g_reg := m, g_loop := LSend ?turn\<rparr>"
    and "w3 = w2\<lparr>g_fwd := f, g_loop := if n = 0 then LReceive else LForwarded ?turn n\<rparr>"
  have "gstep P M rng w w1" unfolding w1_def using Cons.prems(2,3) t by (intro loop_receive) simp_all
  moreover have "gstep P M rng w1 w2" unfolding w2_def using m by (intro loop_count) (simp_all add: w1_def)
  moreover have "gstep P M rng w2 w3" unfolding w3_def using f by (intro loop_send) (simp_all add: w1_def w2_def)
  ultimately have to3: "(gstep P M rng)\<^sup>*\<^sup>* w w3" by (meson rtranclp.rtrancl_into_rtrancl rtranclp.rtrancl_refl)
  note ws = w1_def w2_def w3_def
  show ?case
  proof (cases "n = 0")
    case True
    have "(gstep P M rng)\<^sup>*\<^sup>* w3 (w3\<lparr>g_hs := hs', g_reg := m', g_fwd := f', g_todo := []\<rparr>)"
      using Cons.prems(1) m f True by (intro Cons.IH) (simp_all add: t Let_def ws)
    then show ?thesis using to3 Cons.prems(2) True by (cases w) (simp add: ws)
  next
    case False
    define w4 w5 w6 where "w4 = w3\<lparr>g_reg := counter_add P (PacketsForwarded M) 1 (g_reg w3), g_loop := LBytes ?turn n\<rparr>"
      and "w5 = w4\<lparr>g_reg := counter_add P (BytesForwarded M) (float64 (n + nat VXLANOverhead)) (g_reg w4), g_loop := LObserve ?turn\<rparr>"
      and "w6 = w5\<lparr>g_hs := ObserveForward t2 (g_hs w5), g_loop := LReceive\<rparr>"
    have "gstep P M rng w3 w4" unfolding w4_def using False by (intro loop_forwarded) (simp add: w3_def)
    moreover have "gstep P M rng w4 w5" unfolding w5_def by (intro loop_bytes) (simp add: w4_def)
    moreover have "gstep P M rng w5 w6" unfolding w6_def by (intro loop_observe) (simp add: w5_def)
    moreover have "(gstep P M rng)\<^sup>*\<^sup>* w6 (w6\<lparr>g_hs := hs', g_reg := m', g_fwd := f', g_todo := []\<rparr>)"
      using Cons.prems(1) m f False by (intro Cons.IH) (simp_all add: t Let_def ws w4_def w5_def w6_def)
    moreover have "w6\<lparr>g_hs := hs', g_reg := m', g_fwd := f', g_todo := []\<rparr> = w\<lparr>g_hs := hs', g_reg := m', g_fwd := f', g_todo := []\<rparr>"
      using Cons.prems(2) by (cases w) (simp add: ws w4_def w5_def w6_def)
    ultimately show ?thesis using to3 by (metis (no_types, lifting) converse_rtranclp_into_rtranclp rtranclp_trans)
  qed
qed

lemma report_reasons_steps:
  "report_reasons P M drops (g_prev w, g_reg w) = Some (p, m) \<Longrightarrow> g_rep w = RReasons drops cs fs \<Longrightarrow>
     (gstep P M rng)\<^sup>*\<^sup>* w (w\<lparr>g_prev := p, g_reg := m, g_rep := RMtu cs fs\<rparr>)"
proof (induction drops arbitrary: w)
  case Nil
  then have "w\<lparr>g_prev := p, g_reg := m, g_rep := RMtu cs fs\<rparr> = w\<lparr>g_rep := RMtu cs fs\<rparr>" by (cases w) simp
  with rep_reasons [OF Nil(2)] show ?case by (simp add: r_into_rtranclp)
next
  case (Cons d drops)
  obtain r v where d: "d = (r, v)" by fastforce
  with Cons.prems(1) obtain n where n: "vec_add P (Metrics.FilterDrops M) [r] (delta v (prev_reason (g_prev w) r)) (g_reg w) = Some n"
    by (auto split: option.splits)
  define w1 where "w1 = w\<lparr>g_reg := n, g_prev := (g_prev w)\<lparr>prevFilterDrops := (prevFilterDrops (g_prev w))(r \<mapsto> v)\<rparr>, g_rep := RReasons drops cs fs\<rparr>"
  have "gstep P M rng w w1" unfolding w1_def by (rule rep_reason [OF Cons.prems(2) [unfolded d] refl n])
  moreover have "(gstep P M rng)\<^sup>*\<^sup>* w1 (w1\<lparr>g_prev := p, g_reg := m, g_rep := RMtu cs fs\<rparr>)"
    using Cons.prems(1) n by (intro Cons.IH) (simp_all add: d w1_def)
  moreover have "w1\<lparr>g_prev := p, g_reg := m, g_rep := RMtu cs fs\<rparr> = w\<lparr>g_prev := p, g_reg := m, g_rep := RMtu cs fs\<rparr>"
    by (simp add: w1_def)
  ultimately show ?case by (metis (no_types, lifting) converse_rtranclp_into_rtranclp)
qed

lemma report_steps:
  assumes "report P M rng cs fs (g_prev w, g_reg w) = Some (l, p, m)" "g_rep w = RKernel cs fs"
  shows "(gstep P M rng)\<^sup>*\<^sup>* w (w\<lparr>g_prev := p, g_reg := m, g_rep := RWait\<rparr>)"
proof -
  define w1 where "w1 = w\<lparr>g_reg := counter_add P (Metrics.KernelDrops M) (delta (Stats.KernelDrops cs) (prevKernelDrops (g_prev w))) (g_reg w),
      g_prev := (g_prev w)\<lparr>prevKernelDrops := Stats.KernelDrops cs\<rparr>, g_rep := RReasons (rng (Stats.FilterDrops cs)) cs fs\<rparr>"
  have s1: "gstep P M rng w w1" unfolding w1_def by (rule rep_kernel [OF assms(2) refl])
  obtain p2 m2 where r: "report_reasons P M (rng (Stats.FilterDrops cs)) (g_prev w1, g_reg w1) = Some (p2, m2)"
    using assms(1) by (auto simp: report_def Let_def w1_def split: option.splits)
  define w2 w3 w4 w5 where "w2 = w1\<lparr>g_prev := p2, g_reg := m2, g_rep := RMtu cs fs\<rparr>"
    and "w3 = w2\<lparr>g_reg := counter_add P (Metrics.MTUExceeded M) (delta (FwdStats.MTUExceeded fs) (prevMTU (g_prev w2))) (g_reg w2),
      g_prev := (g_prev w2)\<lparr>prevMTU := FwdStats.MTUExceeded fs\<rparr>, g_rep := RSendErr cs fs\<rparr>"
    and "w4 = w3\<lparr>g_reg := counter_add P (Metrics.SendErrors M) (delta (FwdStats.SendErrors fs) (prevSendErr (g_prev w3))) (g_reg w3),
      g_prev := (g_prev w3)\<lparr>prevSendErr := FwdStats.SendErrors fs\<rparr>, g_rep := RLog cs fs\<rparr>"
    and "w5 = w4\<lparr>g_prev := (g_prev w4)\<lparr>prevCaptured := CapturedPackets cs, prevSent := Sent fs, prevBytes := BytesOut fs\<rparr>, g_rep := RWait\<rparr>"
  have "(gstep P M rng)\<^sup>*\<^sup>* w1 w2" unfolding w2_def by (rule report_reasons_steps [OF r]) (simp add: w1_def)
  moreover have "gstep P M rng w2 w3" unfolding w3_def by (rule rep_mtu [OF _ refl]) (simp add: w2_def)
  moreover have "gstep P M rng w3 w4" unfolding w4_def by (rule rep_senderr [OF _ refl]) (simp add: w3_def)
  moreover have "gstep P M rng w4 w5" unfolding w5_def by (rule rep_log [OF _ refl]) (simp add: w4_def)
  moreover have "w5 = w\<lparr>g_prev := p, g_reg := m, g_rep := RWait\<rparr>"
    using assms(1) r by (simp add: report_def Let_def w1_def w2_def w3_def w4_def w5_def)
  ultimately show ?thesis
    using s1 by (metis (no_types, lifting) converse_rtranclp_into_rtranclp rtranclp.rtrancl_into_rtrancl)
qed

section \<open>The fate of a packet\<close>

text \<open>A packet that \<open>Send\<close> does not report as sent was too large or met a write error; a packet
  without data is sent, but not counted.\<close>

definition oversized :: "Forwarder \<Rightarrow> turn \<Rightarrow> bool" where
  "oversized f turn = (case turn of (pkt, t1, wr, t2) \<Rightarrow> int (length (Data pkt)) > innerMax f)"

definition failed :: "Forwarder \<Rightarrow> turn \<Rightarrow> bool" where
  "failed f turn = (case turn of (pkt, t1, wr, t2) \<Rightarrow>
     \<not> oversized f turn \<and> (case wr (header f @ Data pkt) of Inl e \<Rightarrow> True | Inr n \<Rightarrow> False))"

lemma fate:
  assumes "Data (fst turn) \<noteq> []"
  shows "(if forwarded f turn then 1 else 0) + (if oversized f turn then 1 else 0) + (if failed f turn then 1 else 0) = (1 :: nat)"
  using assms by (cases turn) (auto simp: forwarded_def oversized_def failed_def split: sum.splits)

lemma fates:
  "\<forall>turn \<in> set turns. Data (fst turn) \<noteq> [] \<Longrightarrow>
     length (filter (forwarded f) turns) + length (filter (oversized f) turns) + length (filter (failed f) turns) = length turns"
proof (induction turns)
  case (Cons turn turns)
  then show ?case using fate [of turn f] by (auto split: if_splits)
qed simp

definition same_fwd :: "Forwarder \<Rightarrow> Forwarder \<Rightarrow> bool" where
  "same_fwd f0 f \<longleftrightarrow> fwd_inv f \<and> header f = header f0 \<and> innerMax f = innerMax f0"

lemma same_fwd_fate: "same_fwd f0 f \<Longrightarrow> forwarded f = forwarded f0 \<and> oversized f = oversized f0 \<and> failed f = failed f0"
  by (auto simp: same_fwd_def forwarded_def oversized_def failed_def fun_eq_iff)

lemma Send_fate:
  assumes "same_fwd f0 f" "Send wr f (Data pkt) = Some (f', n, dg)"
  shows "same_fwd f0 f'" "n = (if forwarded f0 (pkt, t1, wr, t2) then length (Data pkt) else 0)"
    "mtuExceeded f' = mtuExceeded f + (if oversized f0 (pkt, t1, wr, t2) then 1 else 0)"
    "sendErrors f' = sendErrors f + (if failed f0 (pkt, t1, wr, t2) then 1 else 0)"
proof -
  have i: "fwd_inv f" "header f = header f0" "innerMax f = innerMax f0" using assms(1) by (simp_all add: same_fwd_def)
  show "same_fwd f0 f'" using Send_fwd_inv [OF i(1) assms(2)] i by (simp add: same_fwd_def)
  show "n = (if forwarded f0 (pkt, t1, wr, t2) then length (Data pkt) else 0)"
    "mtuExceeded f' = mtuExceeded f + (if oversized f0 (pkt, t1, wr, t2) then 1 else 0)"
    "sendErrors f' = sendErrors f + (if failed f0 (pkt, t1, wr, t2) then 1 else 0)"
    using assms(2) i
    by (auto simp: Send_inv [OF i(1)] forwarded_def oversized_def failed_def Let_def split: if_splits sum.splits)
qed

section \<open>Invariants\<close>

abbreviation (input) captured_series :: "string \<Rightarrow> string \<Rightarrow> series" where
  "captured_series i d \<equiv> (d_name (PacketsCaptured metrics), [i, d])"

text \<open>What the loop has in hand: the packet, the part of it that is already counted, and what the
  health server has observed of it.\<close>

fun in_hand :: "loop_pc \<Rightarrow> turn list" where
  "in_hand LReceive = []"
| "in_hand (LCount turn) = [turn]"
| "in_hand (LSend turn) = [turn]"
| "in_hand (LForwarded turn n) = [turn]"
| "in_hand (LBytes turn n) = [turn]"
| "in_hand (LObserve turn) = [turn]"

definition counted :: "loop_pc \<Rightarrow> turn list" where
  "counted pc = (case pc of LCount turn \<Rightarrow> [] | _ \<Rightarrow> in_hand pc)"

definition counted_sent :: "loop_pc \<Rightarrow> nat" where
  "counted_sent pc = (case pc of LBytes _ _ \<Rightarrow> 1 | LObserve _ \<Rightarrow> 1 | _ \<Rightarrow> 0)"

definition counted_bytes :: "loop_pc \<Rightarrow> nat" where
  "counted_bytes pc = (case pc of LObserve turn \<Rightarrow> wire_bytes turn | _ \<Rightarrow> 0)"

definition observed :: "loop_pc \<Rightarrow> health_event list" where
  "observed pc = map (\<lambda>(pkt, t1, wr, t2). EvCapture t1) (in_hand pc)"

definition sent_ok :: "Forwarder \<Rightarrow> loop_pc \<Rightarrow> bool" where
  "sent_ok f pc = (case pc of
     LForwarded turn n \<Rightarrow> forwarded f turn \<and> n = length (Data (fst turn))
   | LBytes turn n \<Rightarrow> forwarded f turn \<and> n = length (Data (fst turn))
   | LObserve turn \<Rightarrow> forwarded f turn
   | _ \<Rightarrow> True)"

lemmas pc_defs = counted_def counted_sent_def counted_bytes_def observed_def sent_ok_def

text \<open>The loop has finished the turns \<open>past\<close>.\<close>

definition loop_at :: "'m prom \<Rightarrow> Forwarder \<Rightarrow> Server \<Rightarrow> turn list \<Rightarrow> turn list \<Rightarrow> 'm gworld \<Rightarrow> bool" where
  "loop_at P f hs turns past w \<longleftrightarrow>
     turns = past @ in_hand (g_loop w) @ g_todo w \<and> same_fwd f (g_fwd w) \<and> sent_ok f (g_loop w) \<and>
     mtuExceeded (g_fwd w) = of_nat (length (filter (oversized f) past)) \<and>
     sendErrors (g_fwd w) = of_nat (length (filter (failed f) past)) \<and>
     (\<forall>i d. amount P (g_reg w) (captured_series i d) = length (filter (on_series i d) (past @ counted (g_loop w)))) \<and>
     amount P (g_reg w) (plain (PacketsForwarded metrics)) = length (filter (forwarded f) past) + counted_sent (g_loop w) \<and>
     amount P (g_reg w) (plain (BytesForwarded metrics)) =
       (\<Sum>turn\<leftarrow>filter (forwarded f) past. wire_bytes turn) + counted_bytes (g_loop w) \<and>
     g_hs w = health_run hs (loop_events f past @ observed (g_loop w))"

text \<open>A value the reporter has read lies between what it exported last and the forwarder's counter.\<close>

definition between :: "u64 \<Rightarrow> u64 option \<Rightarrow> u64 \<Rightarrow> bool" where
  "between a h b \<longleftrightarrow> unat a \<le> unat b \<and> (\<forall>v. h = Some v \<longrightarrow> unat a \<le> unat v \<and> unat v \<le> unat b)"

definition held_mtu :: "rep_pc \<Rightarrow> u64 option" where
  "held_mtu pc = (case pc of RLoad3 cs a b c \<Rightarrow> Some c | RKernel cs fs \<Rightarrow> Some (FwdStats.MTUExceeded fs)
     | RReasons ds cs fs \<Rightarrow> Some (FwdStats.MTUExceeded fs) | RMtu cs fs \<Rightarrow> Some (FwdStats.MTUExceeded fs) | _ \<Rightarrow> None)"

definition held_err :: "rep_pc \<Rightarrow> u64 option" where
  "held_err pc = (case pc of RLoad2 cs a b \<Rightarrow> Some b | RLoad3 cs a b c \<Rightarrow> Some b
     | RKernel cs fs \<Rightarrow> Some (FwdStats.SendErrors fs) | RReasons ds cs fs \<Rightarrow> Some (FwdStats.SendErrors fs)
     | RMtu cs fs \<Rightarrow> Some (FwdStats.SendErrors fs) | RSendErr cs fs \<Rightarrow> Some (FwdStats.SendErrors fs) | _ \<Rightarrow> None)"

definition rep_at :: "'m prom \<Rightarrow> 'm gworld \<Rightarrow> bool" where
  "rep_at P w \<longleftrightarrow>
     amount P (g_reg w) (plain (Metrics.MTUExceeded metrics)) = unat (prevMTU (g_prev w)) \<and>
     amount P (g_reg w) (plain (Metrics.SendErrors metrics)) = unat (prevSendErr (g_prev w)) \<and>
     between (prevMTU (g_prev w)) (held_mtu (g_rep w)) (mtuExceeded (g_fwd w)) \<and>
     between (prevSendErr (g_prev w)) (held_err (g_rep w)) (sendErrors (g_fwd w))"

lemmas rep_defs = rep_at_def between_def held_mtu_def held_err_def

lemma loop_frame:
  assumes "loop_at P f hs turns past w" "g_loop w' = g_loop w" "g_todo w' = g_todo w" "g_fwd w' = g_fwd w" "g_hs w' = g_hs w"
    "\<And>i d. amount P (g_reg w') (captured_series i d) = amount P (g_reg w) (captured_series i d)"
    "amount P (g_reg w') (plain (PacketsForwarded metrics)) = amount P (g_reg w) (plain (PacketsForwarded metrics))"
    "amount P (g_reg w') (plain (BytesForwarded metrics)) = amount P (g_reg w) (plain (BytesForwarded metrics))"
  shows "loop_at P f hs turns past w'"
  using assms(1) unfolding loop_at_def assms(2-8) .

lemma rep_frame:
  assumes "rep_at P w" "g_rep w' = g_rep w" "g_prev w' = g_prev w"
    "amount P (g_reg w') (plain (Metrics.MTUExceeded metrics)) = amount P (g_reg w) (plain (Metrics.MTUExceeded metrics))"
    "amount P (g_reg w') (plain (Metrics.SendErrors metrics)) = amount P (g_reg w) (plain (Metrics.SendErrors metrics))"
    "unat (mtuExceeded (g_fwd w)) \<le> unat (mtuExceeded (g_fwd w'))"
    "unat (sendErrors (g_fwd w)) \<le> unat (sendErrors (g_fwd w'))"
  shows "rep_at P w'"
  using assms(1,6,7) unfolding rep_at_def between_def assms(2-5) by (blast intro: order_trans)

lemma load_facts:
  "length turns \<le> load turns" "length (filter Q turns) \<le> load turns"
  "(\<Sum>turn\<leftarrow>filter Q turns. wire_bytes turn) \<le> load turns" "load (xs @ ys) = load xs + load ys"
  "turn \<in> set turns \<Longrightarrow> wire_bytes turn < load turns"
proof -
  show l: "length turns \<le> load turns" by (induction turns) (simp_all add: load_def)
  show "length (filter Q turns) \<le> load turns" using l length_filter_le [of Q turns] by linarith
  show "(\<Sum>turn\<leftarrow>filter Q turns. wire_bytes turn) \<le> load turns" by (induction turns) (simp_all add: load_def)
  show "load (xs @ ys) = load xs + load ys" by (simp add: load_def)
  show "turn \<in> set turns \<Longrightarrow> wire_bytes turn < load turns" by (induction turns) (auto simp: load_def)
qed

text \<open>No two metrics share a series.\<close>

lemma names:
  "distinct [d_name (PacketsCaptured metrics), d_name (PacketsForwarded metrics), d_name (BytesForwarded metrics),
     d_name (Metrics.FilterDrops metrics), d_name (Metrics.KernelDrops metrics), d_name (Metrics.MTUExceeded metrics),
     d_name (Metrics.SendErrors metrics)]"
  by (simp add: metrics_def)

lemma names_differ:
  "d_name (PacketsCaptured metrics) \<noteq> d_name (Metrics.MTUExceeded metrics)"
  "d_name (PacketsCaptured metrics) \<noteq> d_name (Metrics.SendErrors metrics)"
  "d_name (PacketsForwarded metrics) \<noteq> d_name (Metrics.MTUExceeded metrics)"
  "d_name (PacketsForwarded metrics) \<noteq> d_name (Metrics.SendErrors metrics)"
  "d_name (BytesForwarded metrics) \<noteq> d_name (Metrics.MTUExceeded metrics)"
  "d_name (BytesForwarded metrics) \<noteq> d_name (Metrics.SendErrors metrics)"
  "d_name (PacketsForwarded metrics) \<noteq> d_name (BytesForwarded metrics)"
  "d_name (PacketsCaptured metrics) \<noteq> d_name (PacketsForwarded metrics)"
  "d_name (PacketsCaptured metrics) \<noteq> d_name (BytesForwarded metrics)"
  "d_name (Metrics.MTUExceeded metrics) \<noteq> d_name (Metrics.SendErrors metrics)"
  "d_name (Metrics.KernelDrops metrics) \<notin> {d_name (PacketsCaptured metrics), d_name (PacketsForwarded metrics),
     d_name (BytesForwarded metrics), d_name (Metrics.MTUExceeded metrics), d_name (Metrics.SendErrors metrics)}"
  "d_name (Metrics.FilterDrops metrics) \<notin> {d_name (PacketsCaptured metrics), d_name (PacketsForwarded metrics),
     d_name (BytesForwarded metrics), d_name (Metrics.MTUExceeded metrics), d_name (Metrics.SendErrors metrics)}"
  using names by (simp_all add: eq_commute)

lemma vec_add_series:
  "vec_add P (PacketsCaptured metrics) [i, d] v m = Some (p_add P (captured_series i d) v m)"
  "vec_add P (Metrics.FilterDrops metrics) [r] v m = Some (p_add P (d_name (Metrics.FilterDrops metrics), [r]) v m)"
  by (simp_all add: vec_add_def WithLabelValues_def metrics_def)

context prom_registry
begin

lemma loop_at_bounds:
  assumes "loop_at P f hs turns past w" "load turns < 2 ^ 53"
  shows "unat (mtuExceeded (g_fwd w)) = length (filter (oversized f) past)"
    "unat (sendErrors (g_fwd w)) = length (filter (failed f) past)"
    "unat (mtuExceeded (g_fwd w)) < 2 ^ 53" "unat (sendErrors (g_fwd w)) < 2 ^ 53"
proof -
  have "load past < 2 ^ 53" using assms by (simp add: loop_at_def load_facts(4))
  then have b: "length (filter Q past) < 2 ^ 53" for Q using load_facts(2) [of Q past] by linarith
  have u: "unat (of_nat (length (filter Q past)) :: u64) = length (filter Q past)" for Q
    using b [of Q] by (simp add: unat_of_nat)
  show "unat (mtuExceeded (g_fwd w)) = length (filter (oversized f) past)"
    "unat (sendErrors (g_fwd w)) = length (filter (failed f) past)"
    using assms(1) by (simp_all add: loop_at_def u)
  then show "unat (mtuExceeded (g_fwd w)) < 2 ^ 53" "unat (sendErrors (g_fwd w)) < 2 ^ 53"
    using b by simp_all
qed

lemma loop_step:
  assumes at: "loop_at P f hs turns past w" and load: "load turns < 2 ^ 53" and step: "gstep P metrics rng w w'"
  shows "\<exists>past'. loop_at P f hs turns past' w'"
proof -
  have lp: "load past + load (in_hand (g_loop w)) < 2 ^ 53" using at load by (simp add: loop_at_def load_facts(4))
  show ?thesis
    using step
  proof cases
    case loop_moves
    then show ?thesis
    proof cases
      case (receive pkt t1 wr t2 ts)
      then have "loop_at P f hs turns past w'"
        using at by (simp add: loop_at_def pc_defs health_run_def)
      then show ?thesis ..
    next
      case (count pkt t1 wr t2 m)
      let ?s = "captured_series (Iface pkt) (Direction_String (Dir pkt))"
      have "length (filter Q past) + 1 < 2 ^ 53" for Q
        using lp load_facts(2) [of Q past] count by (simp add: load_def)
      then have "amount P m s = amount P (g_reg w) s + (if s = ?s then 1 else 0)" for s
        using at count amount_add_if [of "g_reg w" ?s 1 s] by (simp add: vec_add_series loop_at_def pc_defs)
      then have "loop_at P f hs turns past w'"
        using at count names_differ by (auto simp: loop_at_def pc_defs on_series_def)
      then show ?thesis ..
    next
      case (send pkt t1 wr t2 f' n dg)
      have sf: "same_fwd f (g_fwd w)" using at by (simp add: loop_at_def)
      note fate = Send_fate(1) [OF sf send(3)] Send_fate(2-4) [OF sf send(3), of t1 t2]
      show ?thesis
      proof (cases "n = 0")
        case True
        have "Data pkt \<noteq> []" if "forwarded f (pkt, t1, wr, t2)" using that by (simp add: forwarded_def)
        then have "\<not> forwarded f (pkt, t1, wr, t2)" using True fate(2) by auto
        then have "loop_at P f hs turns (past @ [(pkt, t1, wr, t2)]) w'"
          using at send fate True by (simp add: loop_at_def pc_defs loop_events_def)
        then show ?thesis ..
      next
        case False
        then have fw: "forwarded f (pkt, t1, wr, t2)" "n = length (Data pkt)" using fate(2) by (auto split: if_splits)
        then have "\<not> oversized f (pkt, t1, wr, t2)" "\<not> failed f (pkt, t1, wr, t2)"
          by (auto simp: forwarded_def oversized_def failed_def split: sum.splits)
        then have "loop_at P f hs turns past w'"
          using at send fate(1,3,4) fw False by (simp add: loop_at_def pc_defs)
        then show ?thesis ..
      qed
    next
      case (forwarded turn n)
      let ?s = "plain (PacketsForwarded metrics)"
      have "length (filter (forwarded f) past) + 1 < 2 ^ 53"
        using lp load_facts(2) [of "forwarded f" past] forwarded by (simp add: load_def)
      then have "amount P (g_reg w') s = amount P (g_reg w) s + (if s = ?s then 1 else 0)" for s
        using at forwarded amount_add_if [of "g_reg w" ?s 1 s] by (simp add: counter_add_def loop_at_def pc_defs)
      then have "loop_at P f hs turns past w'"
        using at forwarded names_differ by (simp add: loop_at_def pc_defs)
      then show ?thesis ..
    next
      case (bytes turn n)
      let ?s = "plain (BytesForwarded metrics)"
      have b: "(\<Sum>turn\<leftarrow>filter (forwarded f) past. wire_bytes turn) + wire_bytes turn < 2 ^ 53"
        using lp load_facts(3) [of "forwarded f" past] bytes by (simp add: load_def)
      have "float64 (n + nat VXLANOverhead) = wire_bytes turn"
        using at bytes b by (simp add: loop_at_def pc_defs wire_bytes_def VXLANOverhead_def float64_exact)
      with b have "amount P (g_reg w') s = amount P (g_reg w) s + (if s = ?s then wire_bytes turn else 0)" for s
        using at bytes amount_add_if [of "g_reg w" ?s "wire_bytes turn" s] by (simp add: counter_add_def loop_at_def pc_defs)
      then have "loop_at P f hs turns past w'"
        using at bytes names_differ by (simp add: loop_at_def pc_defs)
      then show ?thesis ..
    next
      case (observe pkt t1 wr t2)
      have fw: "forwarded f (pkt, t1, wr, t2)" using at observe by (simp add: loop_at_def pc_defs)
      then have "\<not> oversized f (pkt, t1, wr, t2)" "\<not> failed f (pkt, t1, wr, t2)"
        by (auto simp: forwarded_def oversized_def failed_def split: sum.splits)
      with fw have "loop_at P f hs turns (past @ [(pkt, t1, wr, t2)]) w'"
        using at observe by (simp add: loop_at_def pc_defs loop_events_def health_run_def)
      then show ?thesis ..
    qed
  next
    case reporter_moves
    then show ?thesis
      by cases (rule exI [of _ past], rule loop_frame [OF at],
        use names_differ in \<open>auto simp: counter_add_def vec_add_series amount_add(2)\<close>)+
  next
    case (capture_more cs)
    have "loop_at P f hs turns past w'" by (rule loop_frame [OF at]) (simp_all add: capture_more)
    then show ?thesis ..
  qed
qed

lemma rep_step:
  assumes at: "loop_at P f hs turns past w" and load: "load turns < 2 ^ 53" and rep: "rep_at P w"
    and step: "gstep P metrics rng w w'"
  shows "rep_at P w'"
proof -
  note b = loop_at_bounds [OF at load]
  show ?thesis
    using step
  proof cases
    case loop_moves
    then show ?thesis
    proof cases
      case (send pkt t1 wr t2 f' n dg)
      have sf: "same_fwd f (g_fwd w)" using at by (simp add: loop_at_def)
      have up: "unat x \<le> unat (x + (if c then 1 else 0))" if "unat x < 2 ^ 53" for x :: u64 and c
        using that by (simp add: unat_word_ariths)
      have "unat (mtuExceeded (g_fwd w)) \<le> unat (mtuExceeded f')" "unat (sendErrors (g_fwd w)) \<le> unat (sendErrors f')"
        unfolding Send_fate(3,4) [OF sf send(3), of t1 t2] by (rule up [OF b(3)] up [OF b(4)])+
      then show ?thesis using send by (intro rep_frame [OF rep]) simp_all
    qed (use rep names_differ in \<open>auto simp: rep_defs counter_add_def vec_add_series amount_add(2)\<close>)
  next
    case reporter_moves
    then show ?thesis
    proof cases
      case (on_mtu cs fs q)
      have "grown (prevMTU q) (FwdStats.MTUExceeded fs)"
        using rep on_mtu b(3) by (auto simp: rep_defs grown_def)
      from exported_add_plain [OF _ this refl, of "g_reg w" "Metrics.MTUExceeded metrics"] rep on_mtu names_differ
      show ?thesis by (simp add: rep_defs)
    next
      case (on_senderr cs fs q)
      have "grown (prevSendErr q) (FwdStats.SendErrors fs)"
        using rep on_senderr b(4) by (auto simp: rep_defs grown_def)
      from exported_add_plain [OF _ this refl, of "g_reg w" "Metrics.SendErrors metrics"] rep on_senderr names_differ
      show ?thesis by (simp add: rep_defs)
    qed (use rep names_differ in \<open>auto simp: rep_defs counter_add_def vec_add_series amount_add(2)\<close>)
  next
    case (capture_more cs)
    then show ?thesis using rep by (simp add: rep_at_def)
  qed
qed

lemma world_steps:
  assumes "(gstep P metrics rng)\<^sup>*\<^sup>* w w'" "load turns < 2 ^ 53" "loop_at P f hs turns past w" "rep_at P w"
  shows "\<exists>past'. loop_at P f hs turns past' w' \<and> rep_at P w'"
  using assms
proof (induction rule: rtranclp_induct)
  case (step y z)
  then obtain past' where y: "loop_at P f hs turns past' y" "rep_at P y" by blast
  with step loop_step [OF y(1) step.prems(1) step.hyps(2)] rep_step [OF y(1) step.prems(1) y(2) step.hyps(2)]
  show ?case by blast
qed blast

end

section \<open>Both loops get on\<close>

definition loop_left :: "'m gworld \<Rightarrow> nat" where
  "loop_left w = 6 * length (g_todo w) + (case g_loop w of LReceive \<Rightarrow> 0 | LCount _ \<Rightarrow> 5 | LSend _ \<Rightarrow> 4
     | LForwarded _ _ \<Rightarrow> 3 | LBytes _ _ \<Rightarrow> 2 | LObserve _ \<Rightarrow> 1)"

text \<open>The next statement of the loop is always enabled, whatever the reporter does.\<close>

lemma loop_progress:
  assumes "fwd_inv (g_fwd w)" "loop_left w \<noteq> 0"
  shows "\<exists>w'. gstep P metrics rng w w' \<and> loop_left w' < loop_left w"
proof (cases "g_loop w")
  case LReceive
  then obtain pkt t1 wr t2 ts where t: "g_todo w = (pkt, t1, wr, t2) # ts"
    using assms(2) by (cases "g_todo w") (auto simp: loop_left_def)
  show ?thesis by (rule exI, rule conjI, rule loop_receive [OF LReceive t]) (simp add: loop_left_def LReceive t)
next
  case (LCount turn)
  obtain pkt t1 wr t2 where t: "turn = (pkt, t1, wr, t2)" by (metis prod_cases4)
  show ?thesis
    by (rule exI, rule conjI, rule loop_count [OF LCount [unfolded t] vec_add_series(1)]) (simp add: loop_left_def LCount)
next
  case (LSend turn)
  obtain pkt t1 wr t2 where t: "turn = (pkt, t1, wr, t2)" by (metis prod_cases4)
  obtain f' n dg where s: "Send wr (g_fwd w) (Data pkt) = Some (f', n, dg)"
    using Send_inv [OF assms(1)] by (metis prod_cases3)
  show ?thesis by (rule exI, rule conjI, rule loop_send [OF LSend [unfolded t] s]) (simp add: loop_left_def LSend)
next
  case (LForwarded turn n)
  show ?thesis by (rule exI, rule conjI, rule loop_forwarded [OF LForwarded]) (simp add: loop_left_def LForwarded)
next
  case (LBytes turn n)
  show ?thesis by (rule exI, rule conjI, rule loop_bytes [OF LBytes]) (simp add: loop_left_def LBytes)
next
  case (LObserve turn)
  obtain pkt t1 wr t2 where t: "turn = (pkt, t1, wr, t2)" by (metis prod_cases4)
  show ?thesis by (rule exI, rule conjI, rule loop_observe [OF LObserve [unfolded t]]) (simp add: loop_left_def LObserve)
qed

definition same_loop :: "'m gworld \<Rightarrow> 'm gworld \<Rightarrow> bool" where
  "same_loop w w' \<longleftrightarrow> g_loop w' = g_loop w \<and> g_todo w' = g_todo w \<and> g_fwd w' = g_fwd w"

lemma same_loop_trans: "same_loop w v \<Longrightarrow> same_loop v u \<Longrightarrow> same_loop w u"
  by (simp add: same_loop_def)

text \<open>The reporter can finish a tick in which it has read the counters \<open>fs\<close>.\<close>

definition reports :: "'m prom \<Rightarrow> ((string \<times> u64) list \<Rightarrow> (string \<times> u64) list) \<Rightarrow> u64 \<Rightarrow> u64 \<Rightarrow> 'm gworld \<Rightarrow> bool" where
  "reports P rng e b w \<longleftrightarrow> (\<exists>w'. (gstep P metrics rng)\<^sup>*\<^sup>* w w' \<and> same_loop w w' \<and> g_rep w' = RWait \<and>
     prevSendErr (g_prev w') = e \<and> prevMTU (g_prev w') = b)"

lemma reports_step:
  "gstep P metrics rng w v \<Longrightarrow> same_loop w v \<Longrightarrow> reports P rng e b v \<Longrightarrow> reports P rng e b w"
  unfolding reports_def by (blast intro: converse_rtranclp_into_rtranclp same_loop_trans)

lemma reports_log:
  assumes "g_rep w = RLog cs fs" "e = prevSendErr (g_prev w)" "b = prevMTU (g_prev w)"
  shows "reports P rng e b w"
  unfolding reports_def
  by (rule exI, rule conjI, rule r_into_rtranclp, rule rep_log [OF assms(1) refl]) (simp add: same_loop_def assms)

lemma reports_senderr:
  assumes "g_rep w = RSendErr cs fs" "e = FwdStats.SendErrors fs" "b = prevMTU (g_prev w)"
  shows "reports P rng e b w"
  by (rule reports_step [OF rep_senderr [OF assms(1) refl]], simp add: same_loop_def, rule reports_log) (simp_all add: assms)

lemma reports_mtu:
  assumes "g_rep w = RMtu cs fs" "e = FwdStats.SendErrors fs" "b = FwdStats.MTUExceeded fs"
  shows "reports P rng e b w"
  by (rule reports_step [OF rep_mtu [OF assms(1) refl]], simp add: same_loop_def, rule reports_senderr) (simp_all add: assms)

lemma reports_reasons:
  "g_rep w = RReasons drops cs fs \<Longrightarrow> e = FwdStats.SendErrors fs \<Longrightarrow> b = FwdStats.MTUExceeded fs \<Longrightarrow> reports P rng e b w"
proof (induction drops arbitrary: w)
  case Nil
  show ?case
    by (rule reports_step [OF rep_reasons [OF Nil(1)]], simp add: same_loop_def, rule reports_mtu) (simp_all add: Nil)
next
  case (Cons d drops)
  obtain r v where d: "d = (r, v)" by fastforce
  show ?case
    by (rule reports_step [OF rep_reason [OF Cons.prems(1) [unfolded d] refl vec_add_series(2)]],
        simp add: same_loop_def, rule Cons.IH) (simp_all add: Cons.prems)
qed

lemma reports_kernel:
  assumes "g_rep w = RKernel cs fs" "e = FwdStats.SendErrors fs" "b = FwdStats.MTUExceeded fs"
  shows "reports P rng e b w"
  by (rule reports_step [OF rep_kernel [OF assms(1) refl]], simp add: same_loop_def, rule reports_reasons) (simp_all add: assms)

lemma reports_load3:
  assumes "g_rep w = RLoad3 cs a e b"
  shows "reports P rng e b w"
  by (rule reports_step [OF rep_bytes [OF assms(1)]], simp add: same_loop_def, rule reports_kernel) (simp add: assms)+

lemma reports_load2:
  assumes "g_rep w = RLoad2 cs a e" "b = mtuExceeded (g_fwd w)"
  shows "reports P rng e b w"
  by (rule reports_step [OF rep_exceeded [OF assms(1)]], simp add: same_loop_def, rule reports_load3) (simp_all add: assms)

lemma reports_load1:
  assumes "g_rep w = RLoad1 cs a" "e = sendErrors (g_fwd w)" "b = mtuExceeded (g_fwd w)"
  shows "reports P rng e b w"
  by (rule reports_step [OF rep_errors [OF assms(1)]], simp add: same_loop_def, rule reports_load2) (simp_all add: assms)

lemma reports_read:
  assumes "g_rep w = RRead cs" "e = sendErrors (g_fwd w)" "b = mtuExceeded (g_fwd w)"
  shows "reports P rng e b w"
  by (rule reports_step [OF rep_sent [OF assms(1)]], simp add: same_loop_def, rule reports_load1) (simp_all add: assms)

lemma reports_wait:
  assumes "g_rep w = RWait" "e = sendErrors (g_fwd w)" "b = mtuExceeded (g_fwd w)"
  shows "reports P rng e b w"
  by (rule reports_step [OF rep_tick [OF assms(1)]], simp add: same_loop_def, rule reports_read) (simp_all add: assms)

lemma reports_some: "\<exists>e b. reports P rng e b w"
  by (cases "g_rep w") (blast intro: reports_wait reports_read reports_load1 reports_load2 reports_load3 reports_kernel
      reports_reasons reports_mtu reports_senderr reports_log)+

text \<open>So, from any point of a tick, the reporter can finish it and one more.\<close>

lemma reporter_catches_up: "reports P rng (sendErrors (g_fwd w)) (mtuExceeded (g_fwd w)) w"
proof -
  obtain v where v: "(gstep P metrics rng)\<^sup>*\<^sup>* w v" "same_loop w v" "g_rep v = RWait"
    using reports_some [of P rng w] unfolding reports_def by blast
  obtain u where "(gstep P metrics rng)\<^sup>*\<^sup>* v u" "same_loop v u" "g_rep u = RWait"
    "prevSendErr (g_prev u) = sendErrors (g_fwd v)" "prevMTU (g_prev u) = mtuExceeded (g_fwd v)"
    using reports_wait [OF v(3) refl refl, of P rng] unfolding reports_def by blast
  with v show ?thesis unfolding reports_def same_loop_def by (metis (no_types, lifting) rtranclp_trans)
qed

lemma loop_catches_up:
  assumes "prom_registry P registered" "load turns < 2 ^ 53" "loop_at P f hs turns past w"
  shows "\<exists>past' w'. (gstep P metrics rng)\<^sup>*\<^sup>* w w' \<and> loop_at P f hs turns past' w' \<and> g_loop w' = LReceive \<and> g_todo w' = []"
  using assms(3)
proof (induction "loop_left w" arbitrary: w past rule: less_induct)
  case less
  show ?case
  proof (cases "loop_left w = 0")
    case True
    then have "g_loop w = LReceive" "g_todo w = []" by (auto simp: loop_left_def split: loop_pc.splits)
    with less.prems show ?thesis by blast
  next
    case False
    have "fwd_inv (g_fwd w)" using less.prems by (simp add: loop_at_def same_fwd_def)
    then obtain v where v: "gstep P metrics rng w v" "loop_left v < loop_left w" using loop_progress [OF _ False] by blast
    from prom_registry.loop_step [OF assms(1) less.prems assms(2) v(1)] obtain q where "loop_at P f hs turns q v" by blast
    from less.hyps [OF v(2) this] v(1) show ?thesis by (meson converse_rtranclp_into_rtranclp)
  qed
qed

lemma gstarted_at:
  assumes "prom_registry P registered" "registered reg = {}" "\<forall>s. p_val P reg s = None"
    "Metrics.New P reg = Some (M, m)" "Forward.New v6 dial addr vni mtu = Inr f"
  shows "M = metrics" "loop_at P f hs turns [] (gstarted hs m f turns cs)" "rep_at P (gstarted hs m f turns cs)"
proof -
  note new = prom_registry.exported_New [OF assms(1-4)] and fwd = New_Inr [OF assms(5)]
  show "M = metrics" by (rule new(1))
  show "loop_at P f hs turns [] (gstarted hs m f turns cs)" "rep_at P (gstarted hs m f turns cs)"
    by (simp_all add: loop_at_def rep_defs gstarted_def pc_defs same_fwd_def fwd new(4) no_totals_def
        loop_events_def health_run_def)
qed

text \<open>When the loop is done and the reporter has seen the forwarder's counters, all is counted.\<close>

lemma caught_up_exact:
  assumes "prom_registry P registered" "load turns < 2 ^ 53" "loop_at P f hs turns past w" "rep_at P w"
    "g_loop w = LReceive" "g_todo w = []" "prevMTU (g_prev w) = mtuExceeded (g_fwd w)"
    "prevSendErr (g_prev w) = sendErrors (g_fwd w)"
  shows "amount P (g_reg w) (plain (PacketsForwarded metrics)) = length (filter (forwarded f) turns) \<and>
    amount P (g_reg w) (plain (Metrics.MTUExceeded metrics)) = length (filter (oversized f) turns) \<and>
    amount P (g_reg w) (plain (Metrics.SendErrors metrics)) = length (filter (failed f) turns)"
  using prom_registry.loop_at_bounds(1,2) [OF assms(1,3,2)] assms(3-)
  by (simp add: loop_at_def rep_at_def pc_defs)

lemma catches_up:
  assumes "prom_registry P registered" "load turns < 2 ^ 53" "loop_at P f hs turns past w" "rep_at P w"
  shows "\<exists>w'. (gstep P metrics rng)\<^sup>*\<^sup>* w w' \<and> g_loop w' = LReceive \<and> g_todo w' = [] \<and> g_rep w' = RWait \<and>
    amount P (g_reg w') (plain (PacketsForwarded metrics)) = length (filter (forwarded f) turns) \<and>
    amount P (g_reg w') (plain (Metrics.MTUExceeded metrics)) = length (filter (oversized f) turns) \<and>
    amount P (g_reg w') (plain (Metrics.SendErrors metrics)) = length (filter (failed f) turns)"
proof -
  obtain v where v: "(gstep P metrics rng)\<^sup>*\<^sup>* w v" "g_loop v = LReceive" "g_todo v = []"
    using loop_catches_up [OF assms(1-3), of rng] by blast
  obtain u where u: "(gstep P metrics rng)\<^sup>*\<^sup>* v u" "same_loop v u" "g_rep u = RWait"
    "prevSendErr (g_prev u) = sendErrors (g_fwd v)" "prevMTU (g_prev u) = mtuExceeded (g_fwd v)"
    using reporter_catches_up [of P rng v] unfolding reports_def by blast
  have wu: "(gstep P metrics rng)\<^sup>*\<^sup>* w u" using v(1) u(1) by (rule rtranclp_trans)
  from prom_registry.world_steps [OF assms(1) wu assms(2-4)] obtain q where q: "loop_at P f hs turns q u" "rep_at P u"
    by blast
  have e: "g_loop u = LReceive" "g_todo u = []" "prevMTU (g_prev u) = mtuExceeded (g_fwd u)"
    "prevSendErr (g_prev u) = sendErrors (g_fwd u)" using u(2-) v(2,3) by (simp_all add: same_loop_def)
  from caught_up_exact [OF assms(1,2) q e] wu u(3) e(1,2) show ?thesis by blast
qed

section \<open>Properties\<close>

text \<open>C39: the metrics balance under concurrency. From a fresh registry and a new forwarder, let the
  packet loop and the stats reporter interleave in any way, one visible operation at a time, while
  the capturer's totals change at will. In every state reached, the captured, forwarded and byte
  counters are exactly those of the packets finished and of the part of the current one already
  counted, and the exported MTU and send-error counters never exceed the packets that met that
  fate. Neither goroutine blocks the other: from every state the loop can run to its end and the
  reporter to the end of a tick, after which the three counters are exact. And whenever the loop
  is done and the last tick saw the forwarder's counters as they are, every captured packet is
  accounted for once: forwarded, too large, or failed.\<close>

theorem counters_balance:
  assumes "prom_registry P registered" "registered reg = {}" "\<forall>s. p_val P reg s = None"
    "Metrics.New P reg = Some (M, m)" "Forward.New v6 dial addr vni mtu = Inr f"
    "load turns < 2 ^ 53" "\<forall>turn \<in> set turns. Data (fst turn) \<noteq> []"
    "(gstep P M rng)\<^sup>*\<^sup>* (gstarted hs m f turns cs) w"
  shows "(\<exists>past. turns = past @ in_hand (g_loop w) @ g_todo w \<and>
      g_hs w = health_run hs (loop_events f past @ observed (g_loop w)) \<and>
      (\<forall>i d. amount P (g_reg w) (captured_series i d) = length (filter (on_series i d) (past @ counted (g_loop w)))) \<and>
      amount P (g_reg w) (plain (PacketsForwarded M)) = length (filter (forwarded f) past) + counted_sent (g_loop w) \<and>
      amount P (g_reg w) (plain (BytesForwarded M)) =
        (\<Sum>turn\<leftarrow>filter (forwarded f) past. wire_bytes turn) + counted_bytes (g_loop w) \<and>
      amount P (g_reg w) (plain (Metrics.MTUExceeded M)) \<le> length (filter (oversized f) past) \<and>
      amount P (g_reg w) (plain (Metrics.SendErrors M)) \<le> length (filter (failed f) past)) \<and>
    (\<exists>w'. (gstep P M rng)\<^sup>*\<^sup>* w w' \<and> g_loop w' = LReceive \<and> g_todo w' = [] \<and> g_rep w' = RWait \<and>
      amount P (g_reg w') (plain (PacketsForwarded M)) = length (filter (forwarded f) turns) \<and>
      amount P (g_reg w') (plain (Metrics.MTUExceeded M)) = length (filter (oversized f) turns) \<and>
      amount P (g_reg w') (plain (Metrics.SendErrors M)) = length (filter (failed f) turns)) \<and>
    (g_loop w = LReceive \<and> g_todo w = [] \<and> prevMTU (g_prev w) = mtuExceeded (g_fwd w) \<and>
      prevSendErr (g_prev w) = sendErrors (g_fwd w) \<longrightarrow>
      amount P (g_reg w) (plain (PacketsForwarded M)) + amount P (g_reg w) (plain (Metrics.MTUExceeded M)) +
        amount P (g_reg w) (plain (Metrics.SendErrors M)) = length turns)"
proof -
  note at0 = gstarted_at [OF assms(1-5)]
  have M: "M = metrics" by (rule at0(1))
  obtain past where w: "loop_at P f hs turns past w" "rep_at P w"
    using prom_registry.world_steps [OF assms(1) assms(8) [unfolded M] assms(6) at0(2,3)] by blast
  note up = prom_registry.loop_at_bounds(1,2) [OF assms(1) w(1) assms(6)]
  show ?thesis
    unfolding M
  proof (intro conjI)
    show "g_loop w = LReceive \<and> g_todo w = [] \<and> prevMTU (g_prev w) = mtuExceeded (g_fwd w) \<and>
      prevSendErr (g_prev w) = sendErrors (g_fwd w) \<longrightarrow>
      amount P (g_reg w) (plain (PacketsForwarded metrics)) + amount P (g_reg w) (plain (Metrics.MTUExceeded metrics)) +
        amount P (g_reg w) (plain (Metrics.SendErrors metrics)) = length turns"
      using caught_up_exact [OF assms(1,6) w] fates [OF assms(7), of f] by simp
  qed (use w up in \<open>simp add: loop_at_def rep_at_def between_def exI [of _ past]\<close>,
       rule catches_up [OF assms(1,6) w])
qed

theorem counters_balance_witness:
  "\<exists>m w. Metrics.New ref_prom ([], Map.empty) = Some (metrics, m) \<and>
     (gstep ref_prom metrics id)\<^sup>*\<^sup>* (gstarted (Health.New 30) m example_fwd example_turns stats5) w \<and>
     amount ref_prom (g_reg w) (''sensor_packets_forwarded_total'', []) = 1 \<and>
     amount ref_prom (g_reg w) (''sensor_mtu_exceeded_total'', []) = 1 \<and>
     amount ref_prom (g_reg w) (''sensor_ndr_send_errors_total'', []) = 1"
proof -
  have r: "set (fst ([], Map.empty) :: desc list) = {}" "\<forall>s. p_val ref_prom ([], Map.empty) s = None"
    by (simp_all add: ref_prom_def)
  obtain m where new: "Metrics.New ref_prom ([], Map.empty) = Some (metrics, m)"
    using ref_registry.New_fresh [OF r] by blast
  have l: "load example_turns < 2 ^ 53" "\<forall>turn \<in> set example_turns. Data (fst turn) \<noteq> []"
    by (simp_all add: load_def example_turns_def wire_bytes_def)
  have c: "length (filter (forwarded example_fwd) example_turns) = 1"
    "length (filter (oversized example_fwd) example_turns) = 1"
    "length (filter (failed example_fwd) example_turns) = 1"
    by (simp_all add: example_turns_def forwarded_def oversized_def failed_def example_fwd_def)
  have n: "plain (PacketsForwarded metrics) = (''sensor_packets_forwarded_total'', [])"
    "plain (Metrics.MTUExceeded metrics) = (''sensor_mtu_exceeded_total'', [])"
    "plain (Metrics.SendErrors metrics) = (''sensor_ndr_send_errors_total'', [])"
    by (simp_all add: metrics_def)
  from counters_balance [OF ref_registry.prom_registry_axioms r new example_fwd l rtranclp.rtrancl_refl,
      where rng = id and hs = "Health.New 30" and cs = stats5] new
  show ?thesis unfolding n c by blast
qed

end
