(* ===== verification/Cbpf.thy ===== *)
theory Cbpf
  imports Filter_Spec
begin

text \<open>
  The classic-BPF assembler of \<open>internal/filter/cbpf.go\<close>. Instructions are those of
  \<open>golang.org/x/net/bpf\<close> that the source builds; the machine that runs them (the kernel behind
  \<open>SO_ATTACH_FILTER\<close>) is not part of the repository, so it is the parameter \<open>exec\<close> of the locale
  \<open>cbpf_machine\<close>, whose assumptions are the documented meaning of each instruction. Inside
  the locale the assembled program is proved to decide exactly \<open>spec_accepts\<close>; the
  executable \<open>vm\<close> is an interpretation.
\<close>

section \<open>Instructions\<close>

datatype JumpTest = JumpEqual | JumpNotEqual

datatype Instruction =
    LoadAbsolute u32 nat
  | LoadIndirect u32 nat
  | LoadMemShift u32
  | JumpIf JumpTest u32 u8 u8
  | RetConstant u32

section \<open>Assemble\<close>

abbreviation (input) cbpfMaxSkip :: int where "cbpfMaxSkip \<equiv> 255"
abbreviation (input) offEthertype :: u32 where "offEthertype \<equiv> 12"
abbreviation (input) offIPProto :: u32 where "offIPProto \<equiv> 23"
abbreviation (input) offIPSrc :: u32 where "offIPSrc \<equiv> 26"
abbreviation (input) offIPDst :: u32 where "offIPDst \<equiv> 30"
abbreviation (input) offIHL :: u32 where "offIHL \<equiv> 14"
abbreviation (input) ethLen :: u32 where "ethLen \<equiv> 14"
abbreviation (input) ethIPv4 :: u32 where "ethIPv4 \<equiv> 0x0800"
abbreviation (input) protoTCP :: u32 where "protoTCP \<equiv> 6"
abbreviation (input) protoUDP :: u32 where "protoUDP \<equiv> 17"
abbreviation (input) acceptRet :: u32 where "acceptRet \<equiv> 0xFFFFFFFF"
abbreviation (input) dropRet :: u32 where "dropRet \<equiv> 0"

text \<open>The program under construction and the indices in \<open>drops\<close>.\<close>

type_synonym asm = "Instruction list \<times> nat list"

datatype asm_error = DropTooFar int | TcpTooFar int | AsmPanic

fun emit :: "Instruction \<Rightarrow> asm \<Rightarrow> asm" where
  "emit i (p, drops) = (p @ [i], drops)"

fun jumpDrop :: "JumpTest \<Rightarrow> u32 \<Rightarrow> asm \<Rightarrow> asm" where
  "jumpDrop c v (p, drops) = (p @ [JumpIf c v 0 0], drops @ [length p])"

fun jumpDrops :: "u16 list \<Rightarrow> asm \<Rightarrow> asm" where
  "jumpDrops [] s = s"
| "jumpDrops (port # ports) s = jumpDrops ports (jumpDrop JumpEqual (ucast port) s)"

definition asm_header :: "Spec \<Rightarrow> asm \<Rightarrow> asm" where
  "asm_header sp s0 =
     (let s = emit (LoadAbsolute offEthertype 2) s0;
          s = jumpDrop JumpNotEqual ethIPv4 s;
          s = emit (LoadAbsolute offIPSrc 4) s;
          s = jumpDrop JumpEqual (metadata sp) s;
          s = emit (LoadAbsolute offIPDst 4) s;
          s = jumpDrop JumpEqual (metadata sp) s
      in emit (LoadAbsolute offIPProto 1) s)"

definition asm_udp :: "Spec \<Rightarrow> asm \<Rightarrow> asm" where
  "asm_udp sp s0 =
     (let s = emit (LoadMemShift offIHL) s0;
          s = emit (LoadIndirect ethLen 2) s;
          s = jumpDrop JumpEqual (ucast (DNSPort sp)) s;
          s = jumpDrop JumpEqual (ucast (VXLANSrcPort sp)) s;
          s = jumpDrops (K8sNoiseUDPPorts sp) s;
          s = emit (LoadIndirect (ethLen + 2) 2) s;
          s = jumpDrop JumpEqual (ucast (DNSPort sp)) s;
          s = jumpDrop JumpEqual (ucast (VXLANPort sp)) s;
          s = jumpDrops (K8sNoiseUDPPorts sp) s
      in emit (RetConstant acceptRet) s)"

definition asm_tcp :: "Spec \<Rightarrow> asm \<Rightarrow> asm" where
  "asm_tcp sp s0 =
     (let s = emit (LoadMemShift offIHL) s0;
          s = emit (LoadIndirect ethLen 2) s;
          s = jumpDrops (K8sNoiseTCPPorts sp) s;
          s = emit (LoadIndirect (ethLen + 2) 2) s;
          s = jumpDrops (K8sNoiseTCPPorts sp) s
      in emit (RetConstant acceptRet) s)"

text \<open>The type assertion \<open>p[site].(bpf.JumpIf)\<close> and the index panic when they do not hold.\<close>

fun patch_drops :: "nat \<Rightarrow> nat list \<Rightarrow> Instruction list \<Rightarrow> asm_error + Instruction list" where
  "patch_drops dropIdx [] p = Inr p"
| "patch_drops dropIdx (site # sites) p =
     (let dist = int dropIdx - int site - 1 in
      if dist > cbpfMaxSkip then Inl (DropTooFar dist)
      else if site < length p then
        (case p ! site of
           JumpIf c v st sf \<Rightarrow>
             patch_drops dropIdx sites (p[site := JumpIf c v (word_of_int dist) sf])
         | _ \<Rightarrow> Inl AsmPanic)
      else Inl AsmPanic)"

definition patch_tcp :: "nat \<Rightarrow> nat \<Rightarrow> Instruction list \<Rightarrow> asm_error + Instruction list" where
  "patch_tcp tcpBlockStart tcpJmp p =
     (if tcpJmp < length p then
        (case p ! tcpJmp of
           JumpIf c v st sf \<Rightarrow>
             (let dist = int tcpBlockStart - int tcpJmp - 1 in
              if dist > cbpfMaxSkip then Inl (TcpTooFar dist)
              else Inr (p[tcpJmp := JumpIf c v (word_of_int dist) sf]))
         | _ \<Rightarrow> Inr p)
      else Inl AsmPanic)"

definition Assemble :: "Spec \<Rightarrow> asm_error + Instruction list" where
  "Assemble sp =
     (let s = asm_header sp ([], []);
          tcpJmp = length (fst s);
          s = emit (JumpIf JumpEqual protoTCP 0 0) s;
          s = jumpDrop JumpNotEqual protoUDP s;
          s = asm_udp sp s;
          tcpBlockStart = length (fst s);
          s = asm_tcp sp s;
          dropIdx = length (fst s);
          s = emit (RetConstant dropRet) s
      in case patch_drops dropIdx (snd s) (fst s) of
           Inl e \<Rightarrow> Inl e
         | Inr p \<Rightarrow> patch_tcp tcpBlockStart tcpJmp p)"

section \<open>Reference machine\<close>

text \<open>An executable machine for the interpretation and the witnesses. All jumps are forward,
  so the remaining program length bounds the steps.\<close>

fun jump_holds :: "JumpTest \<Rightarrow> u32 \<Rightarrow> u32 \<Rightarrow> bool" where
  "jump_holds JumpEqual a v = (a = v)"
| "jump_holds JumpNotEqual a v = (a \<noteq> v)"

function vm :: "Instruction list \<Rightarrow> bytes \<Rightarrow> nat \<Rightarrow> u32 \<Rightarrow> u32 \<Rightarrow> u32" where
  "vm p f pc a x =
     (if pc < length p then
        (case p ! pc of
           LoadAbsolute off n \<Rightarrow>
             (case rd f (unat off) n of None \<Rightarrow> 0 | Some v \<Rightarrow> vm p f (Suc pc) v x)
         | LoadIndirect off n \<Rightarrow>
             (case rd f (unat off + unat x) n of None \<Rightarrow> 0 | Some v \<Rightarrow> vm p f (Suc pc) v x)
         | LoadMemShift off \<Rightarrow>
             (if unat off < length f
              then vm p f (Suc pc) a (4 * ucast (f ! unat off AND 15)) else 0)
         | JumpIf c v st sf \<Rightarrow>
             vm p f (Suc pc + unat (if jump_holds c a v then st else sf)) a x
         | RetConstant v \<Rightarrow> v)
      else 0)"
  by pat_completeness auto
termination
  by (relation "measure (\<lambda>(p, f, pc, a, x). length p - pc)") auto

declare vm.simps [simp del]

section \<open>Symbolic programs\<close>

text \<open>The proofs read the program with its jumps still symbolic: \<open>DropIf\<close> jumps to the final
  drop instruction, \<open>ToTcp\<close> to the TCP block. \<open>resolve\<close> gives the patched instruction at
  index \<open>i\<close>, \<open>sem\<close> the verdict, with \<open>t\<close> the verdict of the TCP block.\<close>

datatype sym = Plain Instruction | DropIf JumpTest u32 | ToTcp u32

fun resolve :: "nat \<Rightarrow> nat \<Rightarrow> nat \<Rightarrow> sym \<Rightarrow> Instruction" where
  "resolve D T i (Plain x) = x"
| "resolve D T i (DropIf c v) = JumpIf c v (word_of_int (int D - int i - 1)) 0"
| "resolve D T i (ToTcp v) = JumpIf JumpEqual v (word_of_int (int T - int i - 1)) 0"

fun unpatched :: "sym \<Rightarrow> Instruction" where
  "unpatched (Plain x) = x"
| "unpatched (DropIf c v) = JumpIf c v 0 0"
| "unpatched (ToTcp v) = JumpIf JumpEqual v 0 0"

fun is_drop :: "sym \<Rightarrow> bool" where
  "is_drop (DropIf c v) = True"
| "is_drop _ = False"

definition drop_sites :: "sym list \<Rightarrow> nat list" where
  "drop_sites ss = filter (\<lambda>i. is_drop (ss ! i)) [0..<length ss]"

fun emits :: "sym list \<Rightarrow> asm \<Rightarrow> asm" where
  "emits [] s = s"
| "emits (DropIf c v # ss) s = emits ss (jumpDrop c v s)"
| "emits (x # ss) s = emits ss (emit (unpatched x) s)"

fun sem :: "bytes \<Rightarrow> (u32 \<Rightarrow> u32 \<Rightarrow> u32) \<Rightarrow> sym list \<Rightarrow> u32 \<Rightarrow> u32 \<Rightarrow> u32" where
  "sem f t [] a x = 0"
| "sem f t (Plain (LoadAbsolute off n) # ss) a x =
     (case rd f (unat off) n of None \<Rightarrow> 0 | Some v \<Rightarrow> sem f t ss v x)"
| "sem f t (Plain (LoadIndirect off n) # ss) a x =
     (case rd f (unat off + unat x) n of None \<Rightarrow> 0 | Some v \<Rightarrow> sem f t ss v x)"
| "sem f t (Plain (LoadMemShift off) # ss) a x =
     (if unat off < length f then sem f t ss a (4 * ucast (f ! unat off AND 15)) else 0)"
| "sem f t (Plain (JumpIf c v st sf) # ss) a x = 0"
| "sem f t (Plain (RetConstant v) # ss) a x = v"
| "sem f t (DropIf c v # ss) a x = (if jump_holds c a v then 0 else sem f t ss a x)"
| "sem f t (ToTcp v # ss) a x = (if a = v then t a x else sem f t ss a x)"

definition port_block :: "u32 list \<Rightarrow> u32 list \<Rightarrow> sym list" where
  "port_block bad_s bad_d =
     [Plain (LoadMemShift 14), Plain (LoadIndirect 14 2)] @ map (DropIf JumpEqual) bad_s @
     [Plain (LoadIndirect 16 2)] @ map (DropIf JumpEqual) bad_d @ [Plain (RetConstant 0xFFFFFFFF)]"

definition sym_udp :: "Spec \<Rightarrow> sym list" where
  "sym_udp sp = port_block
     (ucast (DNSPort sp) # ucast (VXLANSrcPort sp) # map ucast (K8sNoiseUDPPorts sp))
     (ucast (DNSPort sp) # ucast (VXLANPort sp) # map ucast (K8sNoiseUDPPorts sp))"

definition sym_tcp :: "Spec \<Rightarrow> sym list" where
  "sym_tcp sp = port_block (map ucast (K8sNoiseTCPPorts sp)) (map ucast (K8sNoiseTCPPorts sp))"

definition sym_head :: "Spec \<Rightarrow> sym list" where
  "sym_head sp =
     [Plain (LoadAbsolute 12 2), DropIf JumpNotEqual 0x0800,
      Plain (LoadAbsolute 26 4), DropIf JumpEqual (metadata sp),
      Plain (LoadAbsolute 30 4), DropIf JumpEqual (metadata sp),
      Plain (LoadAbsolute 23 1), ToTcp 6, DropIf JumpNotEqual 17]"

definition sym_prog :: "Spec \<Rightarrow> sym list" where
  "sym_prog sp = sym_head sp @ sym_udp sp @ sym_tcp sp @ [Plain (RetConstant 0)]"

definition tcp_at :: "Spec \<Rightarrow> nat" where
  "tcp_at sp = length (sym_head sp @ sym_udp sp)"

definition drop_at :: "Spec \<Rightarrow> nat" where
  "drop_at sp = length (sym_head sp @ sym_udp sp @ sym_tcp sp)"

section \<open>Assembler lemmas\<close>

lemma emits_append: "emits (xs @ ys) s = emits ys (emits xs s)"
  by (induction xs s rule: emits.induct) auto

lemma emits_drops: "jumpDrops ports s = emits (map (DropIf JumpEqual) (map ucast ports)) s"
  by (induction ports arbitrary: s) auto

lemma drop_sites_Cons: "drop_sites (x # ss) = (if is_drop x then [0] else []) @ map Suc (drop_sites ss)"
  by (simp add: drop_sites_def upt_conv_Cons map_Suc_upt [symmetric] filter_map comp_def del: upt_Suc)

lemma emits_closed:
  "emits ss (p, d) = (p @ map unpatched ss, d @ map (\<lambda>i. i + length p) (drop_sites ss))"
proof (induction ss arbitrary: p d)
  case Nil
  then show ?case by (simp add: drop_sites_def)
next
  case (Cons x ss)
  then show ?case by (cases x) (simp_all add: drop_sites_Cons comp_def)
qed

lemma asm_sym:
  "jumpDrop JumpNotEqual 17 (emit (JumpIf JumpEqual 6 0 0) (asm_header sp s)) = emits (sym_head sp) s"
  "asm_udp sp s = emits (sym_udp sp) s"
  "asm_tcp sp s = emits (sym_tcp sp) s"
  "emit (RetConstant v) s = emits [Plain (RetConstant v)] s"
  by (simp_all add: asm_header_def asm_udp_def asm_tcp_def Let_def sym_head_def
      sym_udp_def sym_tcp_def port_block_def emits_append emits_drops)

lemma asm_header_length: "length (fst (asm_header sp ([], []))) = 7"
  by (simp add: asm_header_def Let_def)

fun retarget :: "int \<Rightarrow> Instruction \<Rightarrow> Instruction" where
  "retarget d (JumpIf c v st sf) = JumpIf c v (word_of_int d) sf"
| "retarget d x = x"

lemma patch_drops_Inr:
  "patch_drops D sites p = Inr q \<Longrightarrow>
     length q = length p \<and>
     (\<forall>i < length p. q ! i = (if i \<in> set sites then retarget (int D - int i - 1) (p ! i) else p ! i)) \<and>
     (\<forall>i \<in> set sites. int D - int i - 1 \<le> 255)"
proof (induction D sites p rule: patch_drops.induct)
  case (1 D p)
  then show ?case by simp
next
  case (2 D site sites p)
  from "2.prems" obtain c v st sf where j: "p ! site = JumpIf c v st sf"
      and near: "\<not> int D - int site - 1 > 255" and len: "site < length p"
      and rest: "patch_drops D sites
        (p[site := JumpIf c v (word_of_int (int D - int site - 1)) sf]) = Inr q"
    by (auto simp: Let_def split: if_splits Instruction.splits)
  from "2.IH" [OF refl near len j rest] show ?case
    using near j len by (auto simp: nth_list_update)
qed

lemma patch_drops_ok:
  assumes "\<forall>i \<in> set sites. i < length p \<and> int D - int i - 1 \<le> 255 \<and> retarget 0 (p ! i) \<noteq> retarget 1 (p ! i)"
  shows "\<exists>q. patch_drops D sites p = Inr q"
  using assms
proof (induction D sites p rule: patch_drops.induct)
  case (1 D p)
  then show ?case by simp
next
  case (2 D site sites p)
  then obtain c v st sf where j: "p ! site = JumpIf c v st sf"
    by (cases "p ! site") auto
  have "\<exists>q. patch_drops D sites (p[site := JumpIf c v (word_of_int (int D - int site - 1)) sf]) = Inr q"
    using "2.prems" by (intro "2.IH" [OF refl _ _ j]) (auto simp: nth_list_update)
  with "2.prems" j show ?case by (simp add: Let_def)
qed

lemma drop_at_eq: "drop_at sp = 21 + 2 * length (K8sNoiseUDPPorts sp) + 2 * length (K8sNoiseTCPPorts sp)"
  by (simp add: drop_at_def sym_head_def sym_udp_def sym_tcp_def port_block_def)

lemma tcp_at_eq: "tcp_at sp = 17 + 2 * length (K8sNoiseUDPPorts sp)"
  by (simp add: tcp_at_def sym_head_def sym_udp_def port_block_def)

lemma length_sym_prog: "length (sym_prog sp) = Suc (drop_at sp)"
  by (simp add: sym_prog_def drop_at_def)

lemma sym_prog_head:
  "sym_prog sp ! 1 = DropIf JumpNotEqual 0x0800"
  "sym_prog sp ! 7 = ToTcp 6"
  by (simp_all add: sym_prog_def sym_head_def)

lemma sym_prog_last: "sym_prog sp ! drop_at sp = Plain (RetConstant 0)"
  by (simp add: sym_prog_def drop_at_def nth_append)

lemma sym_prog_no_plain_jump: "Plain (JumpIf c v st sf) \<notin> set (sym_prog sp)"
  by (auto simp: sym_prog_def sym_head_def sym_udp_def sym_tcp_def port_block_def)

lemma sym_prog_indirect: "Plain (LoadIndirect off n) \<in> set (sym_prog sp) \<Longrightarrow> off = 14 \<or> off = 16"
  by (auto simp: sym_prog_def sym_head_def sym_udp_def sym_tcp_def port_block_def)

lemma ihl_small: "unat (4 * ucast (b AND 15 :: byte) :: u32) = 4 * unat (b AND 15)"
  and ihl_le: "unat (4 * ucast (b AND 15 :: byte) :: u32) \<le> 60"
proof -
  have "unat (b AND 15) \<le> unat (15 :: byte)"
    by (rule word_and_le1 [THEN word_le_nat_alt [THEN iffD1]])
  then have le: "unat (b AND 15) \<le> 15" by simp
  then show eq: "unat (4 * ucast (b AND 15) :: u32) = 4 * unat (b AND 15)"
    by (simp add: unsigned_ucast_eq take_bit_nat_eq_self unat_word_ariths)
  show "unat (4 * ucast (b AND 15) :: u32) \<le> 60"
    unfolding eq using le by simp
qed

lemma ToTcp_only: "i < length (sym_prog sp) \<Longrightarrow> sym_prog sp ! i = ToTcp v \<Longrightarrow> i = 7"
proof -
  assume i: "i < length (sym_prog sp)" and at: "sym_prog sp ! i = ToTcp v"
  let ?R = "sym_udp sp @ sym_tcp sp @ [Plain (RetConstant 0)]"
  have rest: "ToTcp v \<notin> set ?R"
    by (auto simp: sym_udp_def sym_tcp_def port_block_def)
  have "i < length (sym_head sp)"
  proof (rule ccontr)
    assume far: "\<not> i < length (sym_head sp)"
    then have "sym_prog sp ! i = ?R ! (i - length (sym_head sp))"
      unfolding sym_prog_def by (subst nth_append) simp
    moreover have "i - length (sym_head sp) < length ?R"
      using i far by (simp add: sym_prog_def)
    ultimately show False
      using at rest nth_mem by metis
  qed
  with at show ?thesis
    by (auto simp: sym_prog_def sym_head_def nth_append nth_Cons' split: if_splits)
qed

lemma drop_sites_iff: "i \<in> set (drop_sites ss) \<longleftrightarrow> i < length ss \<and> is_drop (ss ! i)"
  by (auto simp: drop_sites_def)

lemma Assemble_sym:
  "Assemble sp =
     (case patch_drops (drop_at sp) (drop_sites (sym_prog sp)) (map unpatched (sym_prog sp)) of
        Inl e \<Rightarrow> Inl e | Inr p \<Rightarrow> patch_tcp (tcp_at sp) 7 p)"
  unfolding Assemble_def Let_def asm_sym asm_header_length emits_append [symmetric]
  by (simp add: emits_closed drop_at_def tcp_at_def sym_prog_def cong: sum.case_cong)

lemma retarget_raw:
  "is_drop s \<Longrightarrow> retarget (int D - int i - 1) (unpatched s) = resolve D T i s"
  "is_drop s \<Longrightarrow> retarget 0 (unpatched s) \<noteq> retarget 1 (unpatched s)"
  by (cases s; simp)+

text \<open>What a successful assembly returns: the symbolic program with every jump resolved, and
  every resolved distance within the eight bits of a skip field.\<close>

lemma Assemble_resolved:
  assumes "Assemble sp = Inr q"
  shows "length q = length (sym_prog sp)"
    and "\<And>i. i < length (sym_prog sp) \<Longrightarrow> q ! i = resolve (drop_at sp) (tcp_at sp) i (sym_prog sp ! i)"
    and "\<And>i. i < length (sym_prog sp) \<Longrightarrow> is_drop (sym_prog sp ! i) \<Longrightarrow> i < drop_at sp \<and> drop_at sp - i - 1 \<le> 255"
    and "tcp_at sp - 8 \<le> 255"
proof -
  let ?ss = "sym_prog sp"
  from assms obtain p where p: "patch_drops (drop_at sp) (drop_sites ?ss) (map unpatched ?ss) = Inr p"
      and q: "patch_tcp (tcp_at sp) 7 p = Inr q"
    by (auto simp: Assemble_sym split: sum.splits)
  note P = patch_drops_Inr [OF p]
  have 7: "7 < length ?ss" by (simp add: length_sym_prog drop_at_eq)
  with P have p7: "p ! 7 = JumpIf JumpEqual 6 0 0"
    by (auto simp: drop_sites_iff sym_prog_head)
  with q 7 P have qp: "q = p[7 := JumpIf JumpEqual 6 (word_of_int (int (tcp_at sp) - 8)) 0]"
      and near: "int (tcp_at sp) - 8 \<le> 255"
    by (auto simp: patch_tcp_def Let_def split: if_splits)
  from near show "tcp_at sp - 8 \<le> 255" by linarith
  from P qp show "length q = length ?ss" by simp
  fix i assume i: "i < length ?ss"
  show "q ! i = resolve (drop_at sp) (tcp_at sp) i (?ss ! i)"
  proof (cases "i = 7")
    case True
    with qp P i show ?thesis by (simp add: sym_prog_head)
  next
    case False
    with qp P i have "q ! i = (if is_drop (?ss ! i) then retarget (int (drop_at sp) - int i - 1) (unpatched (?ss ! i)) else unpatched (?ss ! i))"
      by (simp add: drop_sites_iff)
    with False i show ?thesis
      by (cases "?ss ! i") (auto dest: ToTcp_only)
  qed
  assume d: "is_drop (?ss ! i)"
  with i sym_prog_last [of sp] have "i < drop_at sp"
    by (auto simp: length_sym_prog less_Suc_eq)
  moreover from P i d have "int (drop_at sp) - int i - 1 \<le> 255"
    by (auto simp: drop_sites_iff)
  ultimately show "i < drop_at sp \<and> drop_at sp - i - 1 \<le> 255" by linarith
qed

lemma unat_jump:
  assumes "pc < T" and "T - pc - 1 \<le> 255"
  shows "Suc pc + unat (word_of_int (int T - int pc - 1) :: u8) = T"
proof -
  have "(word_of_int (int T - int pc - 1) :: u8) = word_of_int (int (T - pc - 1))"
    using assms(1) by (intro arg_cong [where f = word_of_int]) linarith
  also have "\<dots> = of_nat (T - pc - 1)"
    by simp
  finally have "unat (word_of_int (int T - int pc - 1) :: u8) = (T - pc - 1) mod 256"
    by (simp only: unat_of_nat) simp
  with assms show ?thesis by simp
qed

section \<open>The machine that runs the program\<close>

text \<open>\<open>exec p f pc a x\<close> is the verdict of program \<open>p\<close> on frame \<open>f\<close> from index \<open>pc\<close> with
  accumulator \<open>a\<close> and index register \<open>x\<close>. A load outside the frame ends the filter with
  verdict 0, the packet is dropped.\<close>

locale cbpf_machine =
  fixes exec :: "Instruction list \<Rightarrow> bytes \<Rightarrow> nat \<Rightarrow> u32 \<Rightarrow> u32 \<Rightarrow> u32"
  assumes exec_LoadAbsolute:
      "pc < length p \<Longrightarrow> p ! pc = LoadAbsolute off n \<Longrightarrow>
       exec p f pc a x = (case rd f (unat off) n of None \<Rightarrow> 0 | Some v \<Rightarrow> exec p f (Suc pc) v x)"
    and exec_LoadIndirect:
      "pc < length p \<Longrightarrow> p ! pc = LoadIndirect off n \<Longrightarrow> unat off + unat x < 2 ^ 31 \<Longrightarrow>
       exec p f pc a x =
         (case rd f (unat off + unat x) n of None \<Rightarrow> 0 | Some v \<Rightarrow> exec p f (Suc pc) v x)"
    and exec_LoadMemShift:
      "pc < length p \<Longrightarrow> p ! pc = LoadMemShift off \<Longrightarrow>
       exec p f pc a x =
         (if unat off < length f then exec p f (Suc pc) a (4 * ucast (f ! unat off AND 15)) else 0)"
    and exec_JumpIf:
      "pc < length p \<Longrightarrow> p ! pc = JumpIf c v st sf \<Longrightarrow>
       exec p f pc a x = exec p f (Suc pc + unat (if jump_holds c a v then st else sf)) a x"
    and exec_RetConstant:
      "pc < length p \<Longrightarrow> p ! pc = RetConstant v \<Longrightarrow> exec p f pc a x = v"
begin

text \<open>A drop jump of a resolved program goes to the drop instruction and returns 0.\<close>

lemma exec_drop_jump:
  assumes "pc < D" and "D - pc - 1 \<le> 255" and "D < length q"
    and "q ! pc = JumpIf c v (word_of_int (int D - int pc - 1)) 0"
    and "q ! D = RetConstant 0"
  shows "exec q f pc a x = (if jump_holds c a v then 0 else exec q f (Suc pc) a x)"
proof -
  have "Suc pc + unat (word_of_int (int D - int pc - 1) :: u8) = D"
    using assms(1,2) by (rule unat_jump)
  with assms show ?thesis
    by (simp add: exec_JumpIf [of pc q] exec_RetConstant [of D q] del: add_Suc)
qed

end

lemma sem_drops:
  "sem f t (map (DropIf JumpEqual) vs @ ss) a x = (if a \<in> set vs then 0 else sem f t ss a x)"
  by (induction vs) auto

text \<open>The verdict of a port block: both ports present and in neither list.\<close>

lemma sem_ports:
  "sem f t (port_block bad_s bad_d @ ss) a x =
    (if 14 < length f \<and> allowed (l4_sport f) bad_s \<and> allowed (l4_dport f) bad_d
     then 0xFFFFFFFF else 0)"
  by (simp add: port_block_def sem_drops l4_sport_def l4_dport_def ihl_small ihl_bytes_def
      split: option.splits)

lemma drop_tcp: "drop (tcp_at sp) (sym_prog sp) = sym_tcp sp @ [Plain (RetConstant 0)]"
  by (simp add: tcp_at_def sym_prog_def)

context cbpf_machine
begin

lemma exec_sem:
  assumes "Assemble sp = Inr q" and "k < length (sym_prog sp)" and "unat x \<le> 60"
  shows "exec q f k a x = sem f (exec q f (tcp_at sp)) (drop k (sym_prog sp)) a x"
  using assms(2,3)
proof (induction "length (sym_prog sp) - k" arbitrary: k a x)
  case 0
  then show ?case by simp
next
  case (Suc n)
  let ?ss = "sym_prog sp" and ?D = "drop_at sp" and ?T = "tcp_at sp"
  note R = Assemble_resolved [OF assms(1)]
  have k: "k < length q" and at: "q ! k = resolve ?D ?T k (?ss ! k)"
    using R(1,2) Suc.prems by simp_all
  have split: "drop k ?ss = ?ss ! k # drop (Suc k) ?ss"
    using Suc.prems(1) by (rule Cons_nth_drop_Suc [symmetric])
  have IH: "exec q f (Suc k) a x = sem f (exec q f ?T) (drop (Suc k) ?ss) a x"
    if "k \<noteq> ?D" and "unat x \<le> 60" for a x
    using Suc.hyps(1) [of "Suc k"] Suc.hyps(2) Suc.prems that by (simp add: length_sym_prog)
  show ?case
  proof (cases "?ss ! k")
    case (Plain i)
    have mem: "Plain i \<in> set ?ss" using Plain Suc.prems(1) nth_mem by metis
    have at': "q ! k = i" using at Plain by simp
    have D: "k = ?D \<Longrightarrow> i = RetConstant 0" using Plain sym_prog_last by simp
    show ?thesis
    proof (cases i)
      case (LoadAbsolute off w)
      with D IH Suc.prems(2) show ?thesis
        by (auto simp: split Plain exec_LoadAbsolute [OF k at' [unfolded LoadAbsolute]] split: option.splits)
    next
      case (LoadIndirect off w)
      with mem have "off = 14 \<or> off = 16" using sym_prog_indirect by blast
      then have "unat off + unat x < 2 ^ 31" using Suc.prems(2) by auto
      with LoadIndirect D IH Suc.prems(2) show ?thesis
        by (auto simp: split Plain exec_LoadIndirect [OF k at' [unfolded LoadIndirect]] split: option.splits)
    next
      case (LoadMemShift off)
      with D IH ihl_le show ?thesis
        by (auto simp: split Plain exec_LoadMemShift [OF k at' [unfolded LoadMemShift]])
    next
      case (JumpIf c v st sf)
      with mem sym_prog_no_plain_jump show ?thesis by blast
    next
      case (RetConstant v)
      then show ?thesis
        by (simp add: split Plain exec_RetConstant [OF k at' [unfolded RetConstant]])
    qed
  next
  case (DropIf c v)
    then have "k < ?D \<and> ?D - k - 1 \<le> 255" using R(3) [OF Suc.prems(1)] by simp
    moreover have "q ! ?D = RetConstant 0" "?D < length q"
      using R(1) R(2) [of ?D] by (simp_all add: length_sym_prog sym_prog_last)
    ultimately show ?thesis
      using at IH Suc.prems(2) by (simp add: split DropIf exec_drop_jump [of k ?D q])
  next
    case (ToTcp v)
    with Suc.prems(1) have k7: "k = 7" by (rule ToTcp_only)
    have "Suc 7 + unat (word_of_int (int ?T - int 7 - 1) :: u8) = ?T"
      using R(4) by (intro unat_jump) (simp_all add: tcp_at_eq)
    then have T: "Suc k + unat (word_of_int (int ?T - int k - 1) :: u8) = ?T"
      using k7 by simp
    have "k \<noteq> ?D" using k7 by (simp add: drop_at_eq)
    with exec_JumpIf [OF k at [unfolded ToTcp resolve.simps]] IH Suc.prems(2) T show ?thesis
      by (simp add: split ToTcp del: add_Suc)
  qed
qed

lemma exec_tcp_block:
  assumes "Assemble sp = Inr q" and "unat x \<le> 60"
  shows "exec q f (tcp_at sp) a x =
    (if 14 < length f \<and> allowed (l4_sport f) (map ucast (K8sNoiseTCPPorts sp)) \<and>
        allowed (l4_dport f) (map ucast (K8sNoiseTCPPorts sp)) then 0xFFFFFFFF else 0)"
proof -
  have "tcp_at sp < length (sym_prog sp)" by (simp add: length_sym_prog drop_at_eq tcp_at_eq)
  with assms have "exec q f (tcp_at sp) a x =
      sem f (exec q f (tcp_at sp)) (sym_tcp sp @ [Plain (RetConstant 0)]) a x"
    using exec_sem drop_tcp by metis
  then show ?thesis by (simp add: sym_tcp_def sem_ports)
qed

lemma Assemble_decides:
  assumes "Assemble sp = Inr q"
  shows "exec q f 0 0 0 = (if spec_accepts sp f then 0xFFFFFFFF else 0)"
proof -
  have "exec q f 0 0 0 = sem f (exec q f (tcp_at sp)) (sym_prog sp) 0 0"
    using exec_sem [OF assms, of 0 0] by (simp add: length_sym_prog)
  also have "\<dots> = (if spec_accepts sp f then 0xFFFFFFFF else 0)"
    unfolding sym_prog_def sym_udp_def append_assoc
    by (cases "rd f 12 2"; cases "rd f 26 4"; cases "rd f 30 4"; cases "rd f 23 1")
      (auto simp: sym_head_def sem_ports exec_tcp_block [OF assms] spec_accepts_def
        ethertype_def ip_src_def ip_dst_def ip_proto_def dest: rd_SomeD)
  finally show ?thesis .
qed

end

interpretation ref_vm: cbpf_machine vm
  by unfold_locales (simp_all add: vm.simps)

section \<open>The kernel's check of a filter\<close>

text \<open>What \<open>setsockopt(SO_ATTACH_FILTER)\<close> demands of a program: between 1 and 4096 instructions, the
  last one a return, every load of 1, 2 or 4 bytes, and both targets of every jump inside the
  program.\<close>

fun insn_ok :: "nat \<Rightarrow> nat \<Rightarrow> Instruction \<Rightarrow> bool" where
  "insn_ok n i (LoadAbsolute off w) = (w \<in> {1, 2, 4})"
| "insn_ok n i (LoadIndirect off w) = (w \<in> {1, 2, 4})"
| "insn_ok n i (LoadMemShift off) = True"
| "insn_ok n i (JumpIf c v st sf) = (Suc i + unat st < n \<and> Suc i + unat sf < n)"
| "insn_ok n i (RetConstant v) = True"

fun is_ret :: "Instruction \<Rightarrow> bool" where
  "is_ret (RetConstant v) = True"
| "is_ret _ = False"

definition filter_ok :: "Instruction list \<Rightarrow> bool" where
  "filter_ok p \<longleftrightarrow> p \<noteq> [] \<and> length p \<le> 4096 \<and> is_ret (last p) \<and>
     (\<forall>(i, x) \<in> set (enumerate 0 p). insn_ok (length p) i x)"

lemma sym_prog_sizes: "Plain x \<in> set (sym_prog sp) \<Longrightarrow> insn_ok n i x"
  by (auto simp: sym_prog_def sym_head_def sym_udp_def sym_tcp_def port_block_def)

lemma Assemble_insn_ok:
  assumes "Assemble sp = Inr p" "i < length p"
  shows "insn_ok (length p) i (p ! i)"
proof -
  note R = Assemble_resolved [OF assms(1)]
  have i: "i < length (sym_prog sp)" using assms(2) R(1) by simp
  have n: "length p = Suc (drop_at sp)" by (simp add: R(1) length_sym_prog)
  show ?thesis
  proof (cases "sym_prog sp ! i")
    case (Plain x)
    then have "Plain x \<in> set (sym_prog sp)" using i nth_mem by metis
    with sym_prog_sizes R(2) [OF i] Plain show ?thesis by simp
  next
    case (DropIf c v)
    then have "i < drop_at sp" "drop_at sp - i - 1 \<le> 255" using R(3) [OF i] by simp_all
    then have "Suc i + unat (word_of_int (int (drop_at sp) - int i - 1) :: u8) = drop_at sp" by (rule unat_jump)
    with \<open>i < drop_at sp\<close> show ?thesis by (simp add: R(2) [OF i] DropIf n)
  next
    case (ToTcp v)
    with i have "i = 7" by (rule ToTcp_only)
    moreover have "Suc 7 + unat (word_of_int (int (tcp_at sp) - int 7 - 1) :: u8) = tcp_at sp"
      using R(4) by (intro unat_jump) (simp_all add: tcp_at_eq)
    moreover have "p ! i = JumpIf JumpEqual v (word_of_int (int (tcp_at sp) - int i - 1)) 0"
      using R(2) [OF i] ToTcp by simp
    moreover have "tcp_at sp < length p" "Suc 7 < length p" by (simp_all add: n tcp_at_eq drop_at_eq)
    ultimately show ?thesis by (simp del: add_Suc)
  qed
qed

section \<open>Properties\<close>

abbreviation noise_ports :: "Spec \<Rightarrow> nat" where
  "noise_ports sp \<equiv> length (K8sNoiseTCPPorts sp) + length (K8sNoiseUDPPorts sp)"

lemma Assemble_fits:
  assumes "noise_ports sp \<le> 118"
  shows "\<exists>p. Assemble sp = Inr p"
proof -
  let ?ss = "sym_prog sp"
  have "\<exists>p. patch_drops (drop_at sp) (drop_sites ?ss) (map unpatched ?ss) = Inr p"
  proof (rule patch_drops_ok, intro ballI)
    fix i assume "i \<in> set (drop_sites ?ss)"
    then have i: "i < length ?ss" "is_drop (?ss ! i)" by (simp_all add: drop_sites_iff)
    have "i \<noteq> 0"
    proof
      assume "i = 0"
      with i(2) show False by (simp add: sym_prog_def sym_head_def)
    qed
    with i assms show "i < length (map unpatched ?ss) \<and> int (drop_at sp) - int i - 1 \<le> 255 \<and>
        retarget 0 (map unpatched ?ss ! i) \<noteq> retarget 1 (map unpatched ?ss ! i)"
      by (auto simp: drop_at_eq retarget_raw)
  qed
  then obtain p where p: "patch_drops (drop_at sp) (drop_sites ?ss) (map unpatched ?ss) = Inr p" ..
  have "7 < length ?ss" by (simp add: length_sym_prog drop_at_eq)
  with patch_drops_Inr [OF p] have "p ! 7 = JumpIf JumpEqual 6 0 0" "7 < length p"
    by (auto simp: drop_sites_iff sym_prog_head)
  with assms p show ?thesis
    by (simp add: Assemble_sym patch_tcp_def tcp_at_eq Let_def)
qed

lemma Assemble_too_far:
  assumes "118 < noise_ports sp"
  shows "Assemble sp = Inl (DropTooFar (19 + 2 * int (noise_ports sp)))"
proof -
  obtain rest where "drop_sites (sym_prog sp) = 1 # rest"
    by (simp add: sym_prog_def sym_head_def drop_sites_Cons)
  with assms show ?thesis
    by (simp add: Assemble_sym drop_at_eq Let_def)
qed

lemma Assemble_Default: "\<exists>p. Assemble Default = Inr p"
  by (rule Assemble_fits) (simp add: Default_def)

text \<open>C1: a program that \<open>Assemble\<close> returns, run by any machine with the documented semantics of
  classic BPF from a cleared state, keeps the whole frame when the drop rules of the \<open>Spec\<close>
  accept it and drops it otherwise, for every specification and every frame, truncated frames
  included.\<close>

theorem Assemble_correct:
  assumes "cbpf_machine exec" and "Assemble sp = Inr p"
  shows "exec p f 0 0 0 = (if spec_accepts sp f then 0xFFFFFFFF else 0)"
  using assms by (rule cbpf_machine.Assemble_decides)

theorem Assemble_correct_witness:
  "cbpf_machine vm \<and>
   (\<exists>p. Assemble Default = Inr p \<and>
      vm p (buildFrame 0x0800 6 [10, 0, 0, 5] 40000 80) 0 0 0 = 0xFFFFFFFF \<and>
      vm p (buildFrame 0x0800 6 [10, 0, 0, 5] 40000 22) 0 0 0 = 0)"
proof -
  obtain p where p: "Assemble Default = Inr p" using Assemble_Default by blast
  have "spec_accepts Default (buildFrame 0x0800 6 [10, 0, 0, 5] 40000 80)"
    and "\<not> spec_accepts Default (buildFrame 0x0800 6 [10, 0, 0, 5] 40000 22)"
    by code_simp+
  with Assemble_correct [OF ref_vm.cbpf_machine_axioms p] p ref_vm.cbpf_machine_axioms
  show ?thesis by auto
qed

text \<open>C2: \<open>Assemble\<close> is total and its size check is exact. Up to 118 noise ports it returns a
  program of \<open>22 + 2 * n\<close> instructions; beyond, it returns the drop-distance error with the
  distance of the first drop jump. It never panics on an index or a type assertion and never
  emits a truncated skip.\<close>

theorem Assemble_size:
  "if noise_ports sp \<le> 118
   then \<exists>p. Assemble sp = Inr p \<and> length p = 22 + 2 * noise_ports sp
   else Assemble sp = Inl (DropTooFar (19 + 2 * int (noise_ports sp)))"
proof (cases "noise_ports sp \<le> 118")
  case True
  then obtain p where "Assemble sp = Inr p" using Assemble_fits by blast
  with True Assemble_resolved(1) [OF this] show ?thesis
    by (simp add: length_sym_prog drop_at_eq)
next
  case False
  then show ?thesis by (simp add: Assemble_too_far)
qed

text \<open>C32: the kernel takes the filter. Every program that \<open>Assemble\<close> returns passes the check of
  \<open>SO_ATTACH_FILTER\<close>: no jump leaves the program, control cannot run past its end, the loads have
  encodable sizes, and it is far below the length limit.\<close>

theorem Assemble_wellformed:
  assumes "Assemble sp = Inr p"
  shows "filter_ok p \<and> length p \<le> 258"
proof -
  note R = Assemble_resolved [OF assms]
  have n: "length p = Suc (drop_at sp)" by (simp add: R(1) length_sym_prog)
  then have ne: "p \<noteq> []" by auto
  with n have "last p = RetConstant 0"
    using R(2) [of "drop_at sp"] last_conv_nth [OF ne] by (simp add: length_sym_prog sym_prog_last)
  moreover have "length p \<le> 258"
    using assms Assemble_too_far [of sp] by (cases "noise_ports sp \<le> 118") (simp_all add: n drop_at_eq)
  ultimately show ?thesis
    using ne Assemble_insn_ok [OF assms] by (auto simp: filter_ok_def in_set_enumerate_eq)
qed

theorem Assemble_wellformed_witness:
  "\<exists>p. Assemble Default = Inr p \<and> filter_ok p \<and> length p \<le> 258"
proof -
  obtain p where p: "Assemble Default = Inr p" using Assemble_Default by blast
  from Assemble_wellformed [OF p] p show ?thesis by blast
qed

end
