(* ===== verification/Kernel.thy ===== *)
theory Kernel
  imports Filter_Spec
begin

text \<open>
  The system-call interface of the capture layer. The kernel is not part of the repository: it
  is a parameter \<open>os\<close> that answers a call from the history of the calls made before. The history
  is what the proofs about descriptors speak of: \<open>open_fds\<close> are the descriptors it has opened
  and not closed, \<open>good_closes\<close> says that every \<open>close\<close> was of an open one. The locale
  \<open>fd_kernel\<close> states the POSIX rule for new descriptors, which the reference kernel \<open>lowest_fd\<close>
  satisfies.
\<close>

section \<open>Calls\<close>

datatype errno = EAGAIN | EINTR | EBADF | EOther string

text \<open>The layout shared by \<open>bpf.RawInstruction\<close> and \<open>unix.SockFilter\<close>.\<close>

record RawInstruction =
  ri_op :: u16
  ri_jt :: u8
  ri_jf :: u8
  ri_k :: u32

datatype syscall =
    SysInterfaceByName string
  | SysSocket u16
  | SysBind int u16 int
  | SysAttachFilter int u16 "RawInstruction list"
  | SysEventfd
  | SysEpollCreate
  | SysEpollAdd int int
  | SysEpollDel int int
  | SysClose int
  | SysWrite int bytes
  | SysPacketStats int

datatype sysret = RetInt int | RetErr errno

type_synonym history = "(syscall \<times> sysret) list"
type_synonym os = "history \<Rightarrow> syscall \<Rightarrow> sysret"

text \<open>One call: its answer, and the history with the call added. The type of calls is left open,
  since the TC-BPF backend talks to the kernel through other calls.\<close>

definition sys :: "(('c \<times> 'r) list \<Rightarrow> 'c \<Rightarrow> 'r) \<Rightarrow> 'c \<Rightarrow> ('c \<times> 'r) list \<Rightarrow> 'r \<times> ('c \<times> 'r) list" where
  "sys os c h = (let r = os h c in (r, h @ [(c, r)]))"

section \<open>Descriptors\<close>

fun opens :: "syscall \<Rightarrow> bool" where
  "opens (SysSocket p) = True"
| "opens SysEventfd = True"
| "opens SysEpollCreate = True"
| "opens _ = False"

fun fd_step :: "int set \<Rightarrow> syscall \<times> sysret \<Rightarrow> int set" where
  "fd_step S (SysClose fd, r) = S - {fd}"
| "fd_step S (c, RetInt fd) = (if opens c then insert fd S else S)"
| "fd_step S (c, RetErr e) = S"

definition open_fds :: "history \<Rightarrow> int set" where
  "open_fds h = foldl fd_step {} h"

fun closes_ok :: "int set \<Rightarrow> history \<Rightarrow> bool" where
  "closes_ok S [] = True"
| "closes_ok S ((c, r) # h) =
     ((case c of SysClose fd \<Rightarrow> fd \<in> S | _ \<Rightarrow> True) \<and> closes_ok (fd_step S (c, r)) h)"

definition good_closes :: "history \<Rightarrow> bool" where
  "good_closes h = closes_ok {} h"

text \<open>A reference kernel: new descriptors are the lowest free ones from 3 on, every other call
  succeeds with 0.\<close>

definition lowest_free :: "int set \<Rightarrow> nat \<Rightarrow> int" where
  "lowest_free S n = (case filter (\<lambda>fd. fd \<notin> S) (map int [3..<n + 4]) of [] \<Rightarrow> -1 | fd # _ \<Rightarrow> fd)"

definition lowest_fd :: os where
  "lowest_fd h c =
     (if opens c then
        (let fd = lowest_free (open_fds h) (length h) in
         if fd < 0 \<or> fd \<ge> 2 ^ 31 then RetErr (EOther ''EMFILE'') else RetInt fd)
      else RetInt 0)"

section \<open>The law of new descriptors\<close>

locale fd_kernel =
  fixes os :: os
  assumes fresh_fd:
    "opens c \<Longrightarrow> os h c = RetInt fd \<Longrightarrow> 0 \<le> fd \<and> fd < 2 ^ 31 \<and> fd \<notin> open_fds h"

lemma lowest_free_notin: "0 \<le> lowest_free S n \<Longrightarrow> lowest_free S n \<notin> S"
proof (cases "filter (\<lambda>fd. fd \<notin> S) (map int [3..<n + 4])")
  case (Cons fd rest)
  then have "fd \<notin> S" using Cons_eq_filterD [OF Cons [symmetric]] by blast
  with Cons show ?thesis by (simp add: lowest_free_def)
qed (simp add: lowest_free_def)

interpretation ref_kernel: fd_kernel lowest_fd
  by unfold_locales
    (auto simp: lowest_fd_def Let_def lowest_free_notin split: if_splits)

section \<open>Lemmas\<close>

lemma sys_eq: "sys os c h = (os h c, h @ [(c, os h c)])"
  by (simp add: sys_def Let_def)

lemma open_fds_Nil [simp]: "open_fds [] = {}"
  by (simp add: open_fds_def)

lemma open_fds_append [simp]: "open_fds (h @ es) = foldl fd_step (open_fds h) es"
  by (simp add: open_fds_def)

lemma closes_ok_append:
  "closes_ok S (h @ h') \<longleftrightarrow> closes_ok S h \<and> closes_ok (foldl fd_step S h) h'"
  by (induction S h rule: closes_ok.induct) auto

lemma good_closes_Nil [simp]: "good_closes []"
  by (simp add: good_closes_def)

lemma good_closes_append [simp]:
  "good_closes (h @ es) \<longleftrightarrow> good_closes h \<and> closes_ok (open_fds h) es"
  by (simp add: good_closes_def closes_ok_append open_fds_def)

lemma fd_step_other: "\<not> opens c \<Longrightarrow> (\<forall>fd. c \<noteq> SysClose fd) \<Longrightarrow> fd_step S (c, r) = S"
  by (cases c; cases r) auto

end
