(* ===== verification/Afpacket.thy ===== *)
theory Afpacket
  imports Cbpf Kernel Capture
begin

text \<open>
  \<open>internal/capture/afpacket.go\<close>: the AF_PACKET backend. Its socket table, the one-time filter
  assembly, \<open>Start\<close>, \<open>Attach\<close>, \<open>Detach\<close>, \<open>Stats\<close> and \<open>Close\<close>; the event loop and the
  interleavings of the goroutines are in \<open>Afp_Loop\<close>. Parameters:
  \<open>os\<close> (theory \<open>Kernel\<close>), \<open>basm\<close> for \<open>bpf.Assemble\<close> of \<open>x/net/bpf\<close>, and \<open>rng\<close> for the
  order in which a Go \<open>range\<close> visits a map, which the language leaves open. The socket map is
  an association list with distinct keys.
\<close>

section \<open>State\<close>

datatype afp_error =
    BuildCbpf asm_error
  | AssembleCbpf string
  | EmptyFilter
  | SysFailed string errno

record AFPacket =
  spec :: Spec
  sockets :: "(string \<times> int) list"
  ifaceByFD :: "32 word \<rightharpoonup> string"
  rawOnce :: bool
  raw :: "RawInstruction list"
  rawErr :: "afp_error option"
  epollFD :: int
  eventFD :: int
  buf :: nat
  captured :: u64
  kernelDrops :: u64
  isClosed :: bool
  closed :: bool
  loopWG :: nat

type_synonym basm = "Instruction list \<Rightarrow> string + RawInstruction list"
type_synonym rng = "(string \<times> int) list \<Rightarrow> (string \<times> int) list"

definition afpacketReadBuf :: nat where "afpacketReadBuf = 65535"

definition NewAFPacket :: "Spec \<Rightarrow> AFPacket" where
  "NewAFPacket sp = \<lparr>spec = sp, sockets = [], ifaceByFD = Map.empty, rawOnce = False, raw = [],
     rawErr = None, epollFD = -1, eventFD = -1, buf = afpacketReadBuf, captured = 0, kernelDrops = 0,
     isClosed = False, closed = False, loopWG = 0\<rparr>"

definition afp_Mode :: string where "afp_Mode = ''afpacket''"

abbreviation int32 :: "int \<Rightarrow> 32 word" where "int32 \<equiv> word_of_int"

text \<open>\<open>htons\<close> stores big-endian and reads the two bytes back in host order, little-endian here.\<close>

definition htons :: "u16 \<Rightarrow> u16" where
  "htons v = (case BigEndian_PutUint16 v of [b0, b1] \<Rightarrow> ucast b0 OR push_bit 8 (ucast b1) | _ \<Rightarrow> 0)"

section \<open>Sockets\<close>

definition attachFilter :: "os \<Rightarrow> int \<Rightarrow> RawInstruction list \<Rightarrow> history \<Rightarrow> afp_error option \<times> history" where
  "attachFilter os fd prog h =
     (if prog = [] then (Some EmptyFilter, h)
      else case sys os (SysAttachFilter fd (of_nat (length prog)) prog) h of
          (RetErr e, h) \<Rightarrow> (Some (SysFailed ''attach filter'' e), h)
        | (RetInt _, h) \<Rightarrow> (None, h))"

definition openSocket ::
  "os \<Rightarrow> string \<Rightarrow> RawInstruction list \<Rightarrow> history \<Rightarrow> (afp_error + int) \<times> history" where
  "openSocket os name flt h =
     (case sys os (SysInterfaceByName name) h of
        (RetErr e, h) \<Rightarrow> (Inl (SysFailed ''interface'' e), h)
      | (RetInt idx, h) \<Rightarrow>
     (case sys os (SysSocket (htons 3)) h of
        (RetErr e, h) \<Rightarrow> (Inl (SysFailed ''socket'' e), h)
      | (RetInt fd, h) \<Rightarrow>
     (case sys os (SysBind fd (htons 3) idx) h of
        (RetErr e, h) \<Rightarrow> (Inl (SysFailed ''bind'' e), snd (sys os (SysClose fd) h))
      | (RetInt _, h) \<Rightarrow>
     (case attachFilter os fd flt h of
        (Some e, h) \<Rightarrow> (Inl e, snd (sys os (SysClose fd) h))
      | (None, h) \<Rightarrow> (Inr fd, h)))))"

text \<open>\<open>rawOnce.Do\<close> with the closure that \<open>Start\<close> and \<open>Attach\<close> share.\<close>

definition raw_once :: "basm \<Rightarrow> AFPacket \<Rightarrow> AFPacket" where
  "raw_once basm a =
     (if rawOnce a then a
      else case Assemble (spec a) of
          Inl e \<Rightarrow> a\<lparr>rawOnce := True, rawErr := Some (BuildCbpf e)\<rparr>
        | Inr prog \<Rightarrow>
            (case basm prog of
               Inl e \<Rightarrow> a\<lparr>rawOnce := True, rawErr := Some (AssembleCbpf e)\<rparr>
             | Inr r \<Rightarrow> a\<lparr>rawOnce := True, raw := r\<rparr>))"

definition add_socket :: "string \<Rightarrow> int \<Rightarrow> AFPacket \<Rightarrow> AFPacket" where
  "add_socket name fd a =
     a\<lparr>sockets := AList.update name fd (sockets a),
       ifaceByFD := (ifaceByFD a)(int32 fd \<mapsto> name)\<rparr>"

fun close_each :: "os \<Rightarrow> int list \<Rightarrow> history \<Rightarrow> history" where
  "close_each os [] h = h"
| "close_each os (fd # fds) h = close_each os fds (snd (sys os (SysClose fd) h))"

definition closeFDs :: "os \<Rightarrow> rng \<Rightarrow> AFPacket \<Rightarrow> history \<Rightarrow> AFPacket \<times> history" where
  "closeFDs os rng a h =
     (let h = close_each os (map snd (rng (sockets a))) h;
          h = (if epollFD a \<ge> 0 then snd (sys os (SysClose (epollFD a)) h) else h);
          h = (if eventFD a \<ge> 0 then snd (sys os (SysClose (eventFD a)) h) else h)
      in (a\<lparr>isClosed := True, sockets := [], ifaceByFD := Map.empty\<rparr>, h))"

section \<open>Start\<close>

fun open_all :: "os \<Rightarrow> string list \<Rightarrow> AFPacket \<Rightarrow> history \<Rightarrow> AFPacket \<times> history" where
  "open_all os [] a h = (a, h)"
| "open_all os (name # names) a h =
     (case openSocket os name (raw a) h of
        (Inl e, h) \<Rightarrow> open_all os names a h
      | (Inr fd, h) \<Rightarrow> open_all os names (add_socket name fd a) h)"

fun epoll_add_all :: "os \<Rightarrow> int \<Rightarrow> (string \<times> int) list \<Rightarrow> history \<Rightarrow> afp_error option \<times> history" where
  "epoll_add_all os epfd [] h = (None, h)"
| "epoll_add_all os epfd ((name, fd) # rest) h =
     (case sys os (SysEpollAdd epfd fd) h of
        (RetErr e, h) \<Rightarrow> (Some (SysFailed (''epoll_ctl '' @ name) e), h)
      | (RetInt _, h) \<Rightarrow> epoll_add_all os epfd rest h)"

definition Start ::
  "os \<Rightarrow> basm \<Rightarrow> rng \<Rightarrow> string list \<Rightarrow> AFPacket \<Rightarrow> history \<Rightarrow> afp_error option \<times> AFPacket \<times> history"
where
  "Start os basm rng ifaces a h =
     (let a = raw_once basm a in
      case rawErr a of
        Some e \<Rightarrow> (Some e, a, h)
      | None \<Rightarrow>
     (case open_all os ifaces a h of (a, h) \<Rightarrow>
     (case sys os SysEventfd h of
        (RetErr e, h) \<Rightarrow> (Some (SysFailed ''eventfd'' e), closeFDs os rng a h)
      | (RetInt efd, h) \<Rightarrow>
     (let a = a\<lparr>eventFD := efd\<rparr> in
     (case sys os SysEpollCreate h of
        (RetErr e, h) \<Rightarrow> (Some (SysFailed ''epoll_create1'' e), closeFDs os rng a h)
      | (RetInt epfd, h) \<Rightarrow>
     (let a = a\<lparr>epollFD := epfd\<rparr> in
     (case sys os (SysEpollAdd epfd efd) h of
        (RetErr e, h) \<Rightarrow> (Some (SysFailed ''epoll_ctl eventfd'' e), closeFDs os rng a h)
      | (RetInt _, h) \<Rightarrow>
     (case epoll_add_all os epfd (rng (sockets a)) h of
        (Some e, h) \<Rightarrow> (Some e, closeFDs os rng a h)
      | (None, h) \<Rightarrow> (None, a\<lparr>loopWG := loopWG a + 1\<rparr>, h)))))))))"

section \<open>Attach, Detach, Stats, Close\<close>

text \<open>\<open>Attach\<close> in the two parts that other goroutines can run between: up to the registration on
  the epoll descriptor, and the commit under the write lock, which re-checks \<open>isClosed\<close>.\<close>

definition attach_open ::
  "os \<Rightarrow> basm \<Rightarrow> string \<Rightarrow> AFPacket \<Rightarrow> history \<Rightarrow> ((afp_error option) + int) \<times> AFPacket \<times> history"
where
  "attach_open os basm iface a h =
     (if iface \<in> fst ` set (sockets a) then (Inl None, a, h)
      else
        let a = raw_once basm a in
        case rawErr a of
          Some e \<Rightarrow> (Inl (Some e), a, h)
        | None \<Rightarrow>
       (case openSocket os iface (raw a) h of
          (Inl e, h) \<Rightarrow> (Inl (Some e), a, h)
        | (Inr fd, h) \<Rightarrow>
       (case sys os (SysEpollAdd (epollFD a) fd) h of
          (RetErr e, h) \<Rightarrow>
            (Inl (Some (SysFailed ''epoll_ctl attach'' e)), a, snd (sys os (SysClose fd) h))
        | (RetInt _, h) \<Rightarrow> (Inr fd, a, h))))"

definition attach_commit ::
  "os \<Rightarrow> string \<Rightarrow> int \<Rightarrow> AFPacket \<Rightarrow> history \<Rightarrow> AFPacket \<times> history" where
  "attach_commit os iface fd a h =
     (if isClosed a then
        (let h = snd (sys os (SysEpollDel (epollFD a) fd) h)
         in (a, snd (sys os (SysClose fd) h)))
      else (add_socket iface fd a, h))"

definition Attach ::
  "os \<Rightarrow> basm \<Rightarrow> string \<Rightarrow> AFPacket \<Rightarrow> history \<Rightarrow> afp_error option \<times> AFPacket \<times> history" where
  "Attach os basm iface a h =
     (case attach_open os basm iface a h of
        (Inl r, a, h) \<Rightarrow> (r, a, h)
      | (Inr fd, a, h) \<Rightarrow> (None, attach_commit os iface fd a h))"

definition drop_socket :: "string \<Rightarrow> int \<Rightarrow> AFPacket \<Rightarrow> AFPacket" where
  "drop_socket n fd a =
     a\<lparr>sockets := AList.delete n (sockets a),
       ifaceByFD := (ifaceByFD a)(int32 fd := None)\<rparr>"

definition Detach :: "os \<Rightarrow> string \<Rightarrow> AFPacket \<Rightarrow> history \<Rightarrow> AFPacket \<times> history" where
  "Detach os iface a h =
     (case map_of (sockets a) iface of
        None \<Rightarrow> (a, h)
      | Some fd \<Rightarrow>
          (let a = drop_socket iface fd a;
               h = snd (sys os (SysEpollDel (epollFD a) fd) h)
           in (a, snd (sys os (SysClose fd) h))))"

definition wakeShutdown :: "os \<Rightarrow> AFPacket \<Rightarrow> history \<Rightarrow> history" where
  "wakeShutdown os a h =
     (if eventFD a < 0 then h
      else snd (sys os (SysWrite (eventFD a) (LittleEndian_PutUint64 1)) h))"

text \<open>\<open>Close\<close>, from the moment its \<open>loopWG.Wait()\<close> returns: the event loop has left.\<close>

definition Close :: "os \<Rightarrow> rng \<Rightarrow> AFPacket \<Rightarrow> history \<Rightarrow> AFPacket \<times> history" where
  "Close os rng a h =
     (if closed a then (a, h)
      else
        let h = wakeShutdown os a h; (a, h) = closeFDs os rng (a\<lparr>loopWG := 0\<rparr>) h
        in (a\<lparr>closed := True\<rparr>, h))"

definition readPacketStats :: "os \<Rightarrow> int \<Rightarrow> history \<Rightarrow> u32 option \<times> history" where
  "readPacketStats os fd h =
     (case sys os (SysPacketStats fd) h of
        (RetErr e, h) \<Rightarrow> (None, h)
      | (RetInt d, h) \<Rightarrow> (Some (word_of_int d), h))"

fun stats_loop :: "os \<Rightarrow> int list \<Rightarrow> u64 \<Rightarrow> history \<Rightarrow> u64 \<times> history" where
  "stats_loop os [] delta h = (delta, h)"
| "stats_loop os (fd # fds) delta h =
     (case readPacketStats os fd h of
        (None, h) \<Rightarrow> stats_loop os fds delta h
      | (Some d, h) \<Rightarrow> stats_loop os fds (delta + ucast d) h)"

definition afp_Stats :: "os \<Rightarrow> rng \<Rightarrow> AFPacket \<Rightarrow> history \<Rightarrow> Stats \<times> AFPacket \<times> history" where
  "afp_Stats os rng a h =
     (case stats_loop os (map snd (rng (sockets a))) 0 h of (delta, h) \<Rightarrow>
      let a = (if delta > 0 then a\<lparr>kernelDrops := kernelDrops a + delta\<rparr> else a)
      in (\<lparr>CapturedPackets = captured a, KernelDrops = kernelDrops a, FilterDrops = []\<rparr>, a, h))"

section \<open>Ownership of descriptors\<close>

definition socket_fds :: "AFPacket \<Rightarrow> int set" where
  "socket_fds a = snd ` set (sockets a)"

definition control_fds :: "AFPacket \<Rightarrow> int set" where
  "control_fds a = (if isClosed a then {} else {fd \<in> {epollFD a, eventFD a}. fd \<ge> 0})"

definition table_ok :: "AFPacket \<Rightarrow> bool" where
  "table_ok a \<longleftrightarrow>
     distinct (map fst (sockets a)) \<and> distinct (map snd (sockets a)) \<and>
     (\<forall>fd \<in> socket_fds a. 0 \<le> fd \<and> fd < 2 ^ 31) \<and>
     ifaceByFD a = map_of (map (\<lambda>(n, fd). (int32 fd, n)) (sockets a)) \<and>
     (isClosed a \<longrightarrow> sockets a = [])"

text \<open>The descriptors opened so far and not closed are those of the tables, the two control
  descriptors, and \<open>X\<close>, those that some caller holds; the three groups are disjoint, and nothing
  was closed that was not open.\<close>

definition owns :: "int set \<Rightarrow> AFPacket \<Rightarrow> history \<Rightarrow> bool" where
  "owns X a h \<longleftrightarrow>
     table_ok a \<and> good_closes h \<and>
     open_fds h = socket_fds a \<union> control_fds a \<union> X \<and>
     socket_fds a \<inter> control_fds a = {} \<and> X \<inter> (socket_fds a \<union> control_fds a) = {} \<and>
     (epollFD a \<ge> 0 \<longrightarrow> epollFD a \<noteq> eventFD a)"

section \<open>Lemmas: tables\<close>

lemma int32_inj:
  "0 \<le> x \<Longrightarrow> x < 2 ^ 31 \<Longrightarrow> 0 \<le> y \<Longrightarrow> y < 2 ^ 31 \<Longrightarrow> int32 x = int32 y \<longleftrightarrow> x = y"
  by (simp add: word_of_int_eq_iff take_bit_int_eq_self)

lemma socket_range: "table_ok a \<Longrightarrow> (n, fd) \<in> set (sockets a) \<Longrightarrow> 0 \<le> fd \<and> fd < 2 ^ 31"
  by (force simp: table_ok_def socket_fds_def)

lemma socket_fds_simps [simp]:
  "socket_fds (a\<lparr>rawOnce := b\<rparr>) = socket_fds a" "socket_fds (a\<lparr>raw := r\<rparr>) = socket_fds a"
  "socket_fds (a\<lparr>rawErr := e\<rparr>) = socket_fds a" "socket_fds (a\<lparr>loopWG := w\<rparr>) = socket_fds a"
  "socket_fds (a\<lparr>closed := c\<rparr>) = socket_fds a" "socket_fds (a\<lparr>kernelDrops := k\<rparr>) = socket_fds a"
  "socket_fds (a\<lparr>epollFD := x\<rparr>) = socket_fds a" "socket_fds (a\<lparr>eventFD := y\<rparr>) = socket_fds a"
  by (simp_all add: socket_fds_def)

lemma table_add:
  assumes "table_ok a" "n \<notin> fst ` set (sockets a)" "fd \<notin> socket_fds a" "0 \<le> fd" "fd < 2 ^ 31"
    "\<not> isClosed a"
  shows "table_ok (add_socket n fd a)" "socket_fds (add_socket n fd a) = insert fd (socket_fds a)"
    "sockets (add_socket n fd a) = sockets a @ [(n, fd)]"
proof -
  let ?T = "map (\<lambda>(n, fd). (int32 fd, n)) (sockets a)"
  show s: "sockets (add_socket n fd a) = sockets a @ [(n, fd)]"
    using assms(2) by (simp add: add_socket_def update_fresh)
  then show f: "socket_fds (add_socket n fd a) = insert fd (socket_fds a)"
    by (auto simp: socket_fds_def)
  have "int32 fd \<notin> fst ` set ?T"
  proof
    assume "int32 fd \<in> fst ` set ?T"
    then obtain m x where "(m, x) \<in> set (sockets a)" "int32 fd = int32 x" by auto
    with assms show False
      by (force simp: table_ok_def socket_fds_def int32_inj)
  qed
  then have "map_of (?T @ [(int32 fd, n)]) = (map_of ?T)(int32 fd \<mapsto> n)"
    by (rule map_of_snoc_fresh)
  with assms s f show "table_ok (add_socket n fd a)"
    by (auto simp: table_ok_def add_socket_def socket_fds_def)
qed

lemma map_of_snd_distinct:
  "distinct (map snd al) \<Longrightarrow> map_of al n = Some fd \<Longrightarrow> (m, fd) \<in> set al \<Longrightarrow> m = n"
  by (metis distinct_map inj_on_eq_iff map_of_SomeD prod.inject snd_conv)

lemma table_del:
  assumes "table_ok a" "map_of (sockets a) n = Some fd"
  shows "table_ok (drop_socket n fd a)" "socket_fds (drop_socket n fd a) = socket_fds a - {fd}"
    "fd \<in> socket_fds a"
proof -
  have mem: "(n, fd) \<in> set (sockets a)" using assms(2) by (rule map_of_SomeD)
  then show in_fds: "fd \<in> socket_fds a" by (force simp: socket_fds_def)
  have d: "distinct (map snd (sockets a))" "distinct (map fst (sockets a))"
    using assms(1) by (simp_all add: table_ok_def)
  have eq: "(m, x) \<in> set (sockets a) \<Longrightarrow> m \<noteq> n \<longleftrightarrow> x \<noteq> fd" for m x
    using d mem assms(2) map_of_snd_distinct [OF d(1) assms(2)]
    by (metis (mono_tags) map_of_is_SomeI option.inject)
  have s: "sockets (drop_socket n fd a) = filter (\<lambda>(m, x). x \<noteq> fd) (sockets a)"
    using eq by (auto simp: drop_socket_def AList.delete_eq intro!: filter_cong)
  show f: "socket_fds (drop_socket n fd a) = socket_fds a - {fd}"
    unfolding socket_fds_def s by force
  have key: "(m, x) \<in> set (sockets a) \<Longrightarrow> int32 fd = int32 x \<longleftrightarrow> fd = x" for m x
    using assms(1) mem by (metis int32_inj socket_range)
  have "map_of (map (\<lambda>(n, fd). (int32 fd, n)) (filter (\<lambda>(m, x). x \<noteq> fd) l)) =
      (map_of (map (\<lambda>(n, fd). (int32 fd, n)) l))(int32 fd := None)"
    if "set l \<subseteq> set (sockets a)" for l
    using that by (induction l) (auto simp: fun_eq_iff dest: key)
  from this [of "sockets a"] assms(1) d show "table_ok (drop_socket n fd a)"
    unfolding table_ok_def f s
    by (auto simp: drop_socket_def distinct_map_filter)
qed

section \<open>Lemmas: ownership\<close>

lemmas owns_defs = owns_def control_fds_def

lemma drop_socket_simps [simp]:
  "epollFD (drop_socket n fd a) = epollFD a" "eventFD (drop_socket n fd a) = eventFD a"
  "isClosed (drop_socket n fd a) = isClosed a" "closed (drop_socket n fd a) = closed a"
  by (simp_all add: drop_socket_def)

lemma add_socket_simps [simp]:
  "epollFD (add_socket n fd a) = epollFD a" "eventFD (add_socket n fd a) = eventFD a"
  "isClosed (add_socket n fd a) = isClosed a" "closed (add_socket n fd a) = closed a"
  "raw (add_socket n fd a) = raw a" "rawErr (add_socket n fd a) = rawErr a"
  by (simp_all add: add_socket_def)

lemma control_fds_simps [simp]:
  "control_fds (add_socket n fd a) = control_fds a" "control_fds (drop_socket n fd a) = control_fds a"
  by (simp_all add: control_fds_def)

lemma owns_other:
  "owns X a h \<Longrightarrow> \<not> opens c \<Longrightarrow> (\<forall>fd. c \<noteq> SysClose fd) \<Longrightarrow> owns X a (h @ [(c, r)])"
  by (cases c) (simp_all add: owns_def fd_step_other)

lemma owns_close:
  "owns (insert fd X) a h \<Longrightarrow> fd \<notin> X \<Longrightarrow> owns X a (h @ [(SysClose fd, r)])"
  by (simp add: owns_def)

lemma owns_add:
  "owns (insert fd X) a h \<Longrightarrow> fd \<notin> X \<Longrightarrow> 0 \<le> fd \<Longrightarrow> fd < 2 ^ 31 \<Longrightarrow>
     n \<notin> fst ` set (sockets a) \<Longrightarrow> \<not> isClosed a \<Longrightarrow> owns X (add_socket n fd a) h"
  using table_add [of a n fd] by (simp add: owns_def)

lemma owns_drop:
  "owns X a h \<Longrightarrow> map_of (sockets a) n = Some fd \<Longrightarrow>
     owns (insert fd X) (drop_socket n fd a) h \<and> fd \<notin> X"
  using table_del [of a n fd] by (simp add: owns_def) blast

lemma close_each_fds:
  "distinct fds \<Longrightarrow> set fds \<subseteq> open_fds h \<Longrightarrow> good_closes h \<Longrightarrow>
     good_closes (close_each os fds h) \<and> open_fds (close_each os fds h) = open_fds h - set fds"
proof (induction fds arbitrary: h)
  case (Cons fd fds)
  let ?h = "h @ [(SysClose fd, os h (SysClose fd))]"
  from Cons.prems have "set fds \<subseteq> open_fds ?h" "good_closes ?h" by auto
  with Cons.IH [of ?h] Cons.prems show ?case by (simp add: sys_eq) blast
qed simp

lemma close_each_append: "close_each os (xs @ ys) h = close_each os ys (close_each os xs h)"
  by (induction xs arbitrary: h) simp_all

lemma closeFDs_eq:
  "closeFDs os rng a h =
     (a\<lparr>isClosed := True, sockets := [], ifaceByFD := Map.empty\<rparr>,
      close_each os (map snd (rng (sockets a)) @ filter (\<lambda>fd. fd \<ge> 0) [epollFD a, eventFD a]) h)"
  by (simp add: closeFDs_def Let_def close_each_append)

lemma closeFDs_owns:
  assumes "range_order rng" "owns X a h" "\<not> isClosed a" "closeFDs os rng a h = (a', h')"
  shows "owns X a' h'" "isClosed a'" "sockets a' = []" "closed a' = closed a"
proof -
  let ?socks = "map snd (rng (sockets a))" and ?ctl = "filter (\<lambda>fd. fd \<ge> 0) [epollFD a, eventFD a]"
  from assms(4) have a': "a' = a\<lparr>isClosed := True, sockets := [], ifaceByFD := Map.empty\<rparr>"
    and h': "h' = close_each os (?socks @ ?ctl) h"
    by (simp_all add: closeFDs_eq)
  from a' show "isClosed a'" "sockets a' = []" "closed a' = closed a" by simp_all
  have sets: "set ?socks = socket_fds a" "set ?ctl = control_fds a"
    using assms(1,3) by (auto simp: range_order_facts socket_fds_def control_fds_def)
  have "distinct ?socks" using assms(1,2) by (simp add: range_order_facts owns_def table_ok_def)
  moreover have "distinct ?ctl" using assms(2) by (auto simp: owns_def)
  moreover have "set ?socks \<inter> set ?ctl = {}" using assms(2) unfolding sets by (simp add: owns_def)
  ultimately have "distinct (?socks @ ?ctl)" unfolding distinct_append by blast
  moreover have all: "set (?socks @ ?ctl) = socket_fds a \<union> control_fds a" unfolding set_append sets ..
  moreover have "socket_fds a \<union> control_fds a \<subseteq> open_fds h" "good_closes h"
    using assms(2) by (auto simp: owns_def)
  ultimately have "good_closes h' \<and> open_fds h' = open_fds h - (socket_fds a \<union> control_fds a)"
    using close_each_fds [of "?socks @ ?ctl" h os] unfolding h' by metis
  then have "good_closes h' \<and> open_fds h' = X" using assms(2) by (auto simp: owns_def)
  with a' assms(2) show "owns X a' h'"
    by (simp add: owns_defs table_ok_def socket_fds_def)
qed

context fd_kernel
begin

lemma socket_fresh:
  "sys os c h = (RetInt fd, h') \<Longrightarrow> opens c \<Longrightarrow>
     0 \<le> fd \<and> fd < 2 ^ 31 \<and> fd \<notin> open_fds h \<and> open_fds h' = insert fd (open_fds h) \<and>
     good_closes h' = good_closes h"
  using fresh_fd [of c h fd] by (cases c) (auto simp: sys_eq)

lemma attachFilter_fds:
  "attachFilter os fd p h = (r, h') \<Longrightarrow> open_fds h' = open_fds h \<and> good_closes h' = good_closes h"
  by (auto simp: attachFilter_def sys_eq fd_step_other split: if_splits sysret.splits)

lemma openSocket_fds:
  assumes "openSocket os n flt h = (r, h')" "good_closes h"
  shows "case r of
      Inl e \<Rightarrow> open_fds h' = open_fds h \<and> good_closes h'
    | Inr fd \<Rightarrow> 0 \<le> fd \<and> fd < 2 ^ 31 \<and> fd \<notin> open_fds h \<and> open_fds h' = insert fd (open_fds h) \<and>
        good_closes h'"
proof -
  have attach: "attachFilter os fd flt h = (x, h') \<Longrightarrow>
      open_fds h' = open_fds h \<and> good_closes h' = good_closes h" for fd x h h'
    by (rule attachFilter_fds)
  show ?thesis
    using assms
    by (auto simp: openSocket_def sys_eq fd_step_other
        split: sysret.splits prod.splits option.splits dest!: attach fresh_fd [rotated])
qed

lemma openSocket_owns:
  assumes "owns X a h" "openSocket os n flt h = (r, h')"
  shows "case r of Inl e \<Rightarrow> owns X a h'
    | Inr fd \<Rightarrow> owns (insert fd X) a h' \<and> fd \<notin> X \<and> 0 \<le> fd \<and> fd < 2 ^ 31"
  using openSocket_fds [OF assms(2)] assms(1)
  by (auto simp: owns_defs split: sum.splits)

end

lemma raw_once_simps [simp]:
  "sockets (raw_once basm a) = sockets a" "ifaceByFD (raw_once basm a) = ifaceByFD a"
  "epollFD (raw_once basm a) = epollFD a" "eventFD (raw_once basm a) = eventFD a"
  "isClosed (raw_once basm a) = isClosed a" "closed (raw_once basm a) = closed a"
  "loopWG (raw_once basm a) = loopWG a"
  by (simp_all add: raw_once_def split: sum.split)

lemma owns_cong:
  "sockets a' = sockets a \<Longrightarrow> ifaceByFD a' = ifaceByFD a \<Longrightarrow> epollFD a' = epollFD a \<Longrightarrow>
     eventFD a' = eventFD a \<Longrightarrow> isClosed a' = isClosed a \<Longrightarrow> owns X a' h = owns X a h"
  by (simp add: owns_defs table_ok_def socket_fds_def)

lemma owns_raw_once [simp]: "owns X (raw_once basm a) h = owns X a h"
  by (rule owns_cong) simp_all

lemma attach_commit_owns:
  assumes "owns (insert fd X) a h" "fd \<notin> X" "0 \<le> fd" "fd < 2 ^ 31" "n \<notin> fst ` set (sockets a)"
    "attach_commit os n fd a h = (a', h')"
  shows "owns X a' h'"
proof (cases "isClosed a")
  case True
  have "owns X a ((h @ [(SysEpollDel (epollFD a) fd, r)]) @ [(SysClose fd, r')])" for r r'
    by (rule owns_close [OF owns_other]) (use assms in simp_all)
  with True assms(6) show ?thesis by (auto simp: attach_commit_def sys_eq)
next
  case False
  with assms owns_add [of fd X a h n] show ?thesis by (auto simp: attach_commit_def)
qed

lemma Detach_owns:
  assumes "owns X a h" "Detach os n a h = (a', h')"
  shows "owns X a' h'"
proof (cases "map_of (sockets a) n")
  case (Some fd)
  have "owns X (drop_socket n fd a) ((h @ [(SysEpollDel (epollFD a) fd, r)]) @ [(SysClose fd, r')])" for r r'
    by (rule owns_close [OF owns_other]) (use owns_drop [OF assms(1) Some] in simp_all)
  with Some assms(2) show ?thesis by (auto simp: Detach_def Let_def sys_eq)
qed (use assms in \<open>simp add: Detach_def\<close>)

context fd_kernel
begin

lemma attach_open_owns:
  assumes "owns X a h" "attach_open os basm n a h = (r, a', h')"
  shows "case r of Inl e \<Rightarrow> owns X a' h'
      | Inr fd \<Rightarrow> owns (insert fd X) a' h' \<and> fd \<notin> X \<and> 0 \<le> fd \<and> fd < 2 ^ 31 \<and> n \<notin> fst ` set (sockets a')"
    and "sockets a' = sockets a" "isClosed a' = isClosed a" "closed a' = closed a"
      "eventFD a' = eventFD a" "epollFD a' = epollFD a"
proof -
  show same: "sockets a' = sockets a" "isClosed a' = isClosed a" "closed a' = closed a"
      "eventFD a' = eventFD a" "epollFD a' = epollFD a"
    using assms(2)
    by (auto simp: attach_open_def Let_def sys_eq split: if_splits option.splits sum.splits
        sysret.splits prod.splits)
  obtain s h1 where o: "openSocket os n (raw (raw_once basm a)) h = (s, h1)" by fastforce
  note opened = openSocket_owns [OF assms(1) o]
  have add: "owns Y a (h1 @ [(SysEpollAdd ep fd, x)])" if "owns Y a h1" for Y ep fd x
    using that by (rule owns_other) simp_all
  have close: "owns X a (h1 @ [(SysEpollAdd ep fd, x), (SysClose fd, y)])"
    if "owns (insert fd X) a h1" "fd \<notin> X" for ep fd x y
    using owns_close [OF add [OF that(1), where ep = ep and fd = fd] that(2)] by simp
  show "case r of Inl e \<Rightarrow> owns X a' h'
      | Inr fd \<Rightarrow> owns (insert fd X) a' h' \<and> fd \<notin> X \<and> 0 \<le> fd \<and> fd < 2 ^ 31 \<and> n \<notin> fst ` set (sockets a')"
  proof (cases "n \<in> fst ` set (sockets a) \<or> rawErr (raw_once basm a) \<noteq> None")
    case True
    with assms show ?thesis by (auto simp: attach_open_def Let_def split: if_split_asm)
  next
    case False
    show ?thesis
    proof (cases s)
      case (Inl e)
      with False assms(2) opened show ?thesis by (simp add: attach_open_def Let_def o) auto
    next
      case (Inr fd)
      show ?thesis
        using False assms(2) opened add close
        by (cases "os h1 (SysEpollAdd (epollFD a) fd)")
          (auto simp: attach_open_def Let_def sys_eq o Inr)
    qed
  qed
qed

lemma Attach_owns:
  assumes "owns X a h" "Attach os basm n a h = (r, a', h')"
  shows "owns X a' h'"
proof -
  obtain s a1 h1 where o: "attach_open os basm n a h = (s, a1, h1)" by (metis prod_cases3)
  show ?thesis
    using attach_open_owns(1) [OF assms(1) o] assms(2) attach_commit_owns
    by (cases s) (auto simp: Attach_def o)
qed

end

lemma epoll_add_all_owns:
  "owns X a h \<Longrightarrow> epoll_add_all os ep l h = (r, h') \<Longrightarrow> owns X a h'"
proof (induction os ep l h arbitrary: r h' rule: epoll_add_all.induct)
  case (2 os ep name fd rest h)
  have "owns X a (h @ [(SysEpollAdd ep fd, x)])" for x
    using "2.prems"(1) by (rule owns_other) simp_all
  with 2 show ?case by (auto simp: sys_eq split: sysret.splits)
qed simp

context fd_kernel
begin

lemma open_all_owns:
  "owns X a h \<Longrightarrow> \<not> isClosed a \<Longrightarrow> distinct names \<Longrightarrow> set names \<inter> fst ` set (sockets a) = {} \<Longrightarrow>
     open_all os names a h = (a', h') \<Longrightarrow>
     owns X a' h' \<and> isClosed a' = isClosed a \<and> closed a' = closed a \<and>
     epollFD a' = epollFD a \<and> eventFD a' = eventFD a \<and>
     fst ` set (sockets a') \<subseteq> fst ` set (sockets a) \<union> set names"
proof (induction names arbitrary: a h)
  case (Cons n names)
  obtain s h1 where o: "openSocket os n (raw a) h = (s, h1)" by fastforce
  note opened = openSocket_owns [OF Cons.prems(1) o]
  show ?case
  proof (cases s)
    case (Inl e)
    with opened o Cons.prems Cons.IH [of a h1] show ?thesis by auto
  next
    case (Inr fd)
    with opened Cons.prems have "owns X (add_socket n fd a) h1" by (simp add: owns_add)
    moreover have "fst ` set (sockets (add_socket n fd a)) = insert n (fst ` set (sockets a))"
      using Cons.prems by (force simp: add_socket_def update_fresh)
    ultimately show ?thesis
      using Inr o Cons.prems Cons.IH [of "add_socket n fd a" h1] by auto
  qed
qed simp

lemma control_owns:
  assumes "owns X a h" "\<not> isClosed a" "sys os c h = (RetInt fd, h')" "opens c"
  shows "eventFD a = -1 \<Longrightarrow> owns X (a\<lparr>eventFD := fd\<rparr>) h'"
    and "epollFD a = -1 \<Longrightarrow> owns X (a\<lparr>epollFD := fd\<rparr>) h'"
    and "0 \<le> fd"
  using socket_fresh [OF assms(3,4)] assms(1,2)
  by (auto simp: owns_defs table_ok_def)

text \<open>The event descriptor, the epoll descriptor and the registrations, once the sockets of the
  given interfaces are open.\<close>

lemma Start_cases:
  assumes "rawErr (raw_once basm a) = None" "open_all os ifaces (raw_once basm a) h = (a1, h1)"
    "owns X a1 h1" "\<not> isClosed a1" "eventFD a1 = -1" "epollFD a1 = -1"
    "Start os basm rng ifaces a h = (r, a', h')"
  obtains
    (fail) e a2 h2 where "r = Some e" "owns X a2 h2" "\<not> isClosed a2" "closed a2 = closed a1"
      "closeFDs os rng a2 h2 = (a', h')"
  | (ok) "r = None" "sockets a' = sockets a1" "owns X a' h'" "\<not> isClosed a'" "closed a' = closed a1" "0 \<le> epollFD a'" "0 \<le> eventFD a'"
proof -
  note rest = assms(7) [unfolded Start_def Let_def assms(1,2) option.case prod.case]
  obtain r1 h2 where s1: "sys os SysEventfd h1 = (r1, h2)" by fastforce
  have other: "owns Y b (g @ [(SysEpollAdd p q, x)])" if "owns Y b g" for Y b g p q x
    using that by (rule owns_other) simp_all
  have err: "owns X b (g @ [(c, RetErr e)])" if "owns X b g" "opens c" for b g c e
    using that by (cases c) (auto simp: owns_def)
  show ?thesis
  proof (cases r1)
    case (RetErr e)
    with s1 err [OF assms(3), of SysEventfd e] rest assms(4) show ?thesis
      by (auto simp: sys_eq intro: fail)
  next
    case (RetInt efd)
    let ?a2 = "a1\<lparr>eventFD := efd\<rparr>"
    have a2: "owns X ?a2 h2" "0 \<le> efd"
      using control_owns(1,3) [OF assms(3,4) s1 [unfolded RetInt]] assms(5) by simp_all
    obtain r2 h3 where s2: "sys os SysEpollCreate h2 = (r2, h3)" by fastforce
    show ?thesis
    proof (cases r2)
      case (RetErr e)
      with s2 err [OF a2(1), of SysEpollCreate e] rest assms(4) s1 \<open>r1 = RetInt efd\<close> show ?thesis
        by (auto simp: sys_eq intro: fail)
    next
      case (RetInt epfd)
      let ?a3 = "?a2\<lparr>epollFD := epfd\<rparr>"
      have a3: "owns X ?a3 h3" "0 \<le> epfd"
        using control_owns(2,3) [OF a2(1) _ s2 [unfolded RetInt]] assms(4,6) by simp_all
      obtain r3 h4 where s3: "sys os (SysEpollAdd epfd efd) h3 = (r3, h4)" by fastforce
      have h4: "owns X ?a3 h4" using s3 other [OF a3(1)] by (auto simp: sys_eq)
      obtain r4 h5 where s4: "epoll_add_all os epfd (rng (sockets ?a3)) h4 = (r4, h5)" by fastforce
      have h5: "owns X ?a3 h5" using epoll_add_all_owns [OF h4 s4] .
      have wg: "owns X (?a3\<lparr>loopWG := w\<rparr>) h5" for w using h5 by (subst owns_cong [of _ ?a3]) simp_all
      note rest' = rest [unfolded s1 \<open>r1 = RetInt efd\<close> prod.case sysret.case s2 RetInt s3]
      show ?thesis
      proof (cases r3)
        case (RetErr e)
        with rest' h4 assms(4) show ?thesis by (auto intro: fail)
      next
        case (RetInt v)
        note rest'' = rest' [unfolded RetInt sysret.case s4 prod.case]
        show ?thesis
        proof (cases r4)
          case None
          with rest'' wg [of "loopWG ?a3 + 1"] assms(4) a2 a3 show ?thesis by (intro ok) auto
        next
          case (Some e)
          with rest'' h5 assms(4) show ?thesis by (auto intro: fail)
        qed
      qed
    qed
  qed
qed

end

section \<open>The contract of a capturer\<close>

type_synonym afp = "AFPacket \<times> history"

definition afp_att :: "os \<Rightarrow> basm \<Rightarrow> string \<Rightarrow> afp \<Rightarrow> afp" where
  "afp_att os basm n s = (case s of (a, h) \<Rightarrow> snd (Attach os basm n a h))"

definition afp_det :: "os \<Rightarrow> string \<Rightarrow> afp \<Rightarrow> afp" where
  "afp_det os n s = (case s of (a, h) \<Rightarrow> Detach os n a h)"

definition afp_cls :: "os \<Rightarrow> rng \<Rightarrow> afp \<Rightarrow> afp" where
  "afp_cls os rng s = (case s of (a, h) \<Rightarrow> Close os rng a h)"

definition afp_attached :: "afp \<Rightarrow> string set" where
  "afp_attached s = fst ` set (sockets (fst s))"

definition afp_inv :: "afp \<Rightarrow> bool" where
  "afp_inv s \<longleftrightarrow> owns {} (fst s) (snd s) \<and> (closed (fst s) \<longrightarrow> isClosed (fst s))"

lemma attach_commit_fields:
  assumes "attach_commit os n fd a h = (a', h')"
  shows "isClosed a' = isClosed a" "closed a' = closed a"
    "n \<notin> fst ` set (sockets a) \<Longrightarrow> sockets a' = sockets a \<or> sockets a' = sockets a @ [(n, fd)]"
  using assms by (auto simp: attach_commit_def add_socket_def update_fresh Let_def split: if_splits)

lemma Detach_fields:
  assumes "Detach os n a h = (a', h')"
  shows "isClosed a' = isClosed a" "closed a' = closed a"
    "fst ` set (sockets a') = fst ` set (sockets a) - {n}"
proof -
  show "isClosed a' = isClosed a" "closed a' = closed a"
    using assms by (auto simp: Detach_def Let_def split: option.splits)
  show "fst ` set (sockets a') = fst ` set (sockets a) - {n}"
    using assms
    by (force simp: Detach_def Let_def drop_socket_def AList.delete_eq map_of_eq_None_iff
        split: option.splits)
qed

context fd_kernel
begin

lemma Attach_fields:
  assumes "owns X a h" "Attach os basm n a h = (r, a', h')"
  shows "isClosed a' = isClosed a" "closed a' = closed a"
    "fst ` set (sockets a) \<subseteq> fst ` set (sockets a')"
    "fst ` set (sockets a') \<subseteq> insert n (fst ` set (sockets a))"
proof -
  obtain s a1 h1 where o: "attach_open os basm n a h = (s, a1, h1)" by (metis prod_cases3)
  note same = attach_open_owns(2-4) [OF assms(1) o]
  have "isClosed a' = isClosed a \<and> closed a' = closed a \<and>
    (sockets a' = sockets a \<or> (\<exists>fd. sockets a' = sockets a @ [(n, fd)]))"
  proof (cases s)
    case (Inl e)
    with assms(2) same show ?thesis by (simp add: Attach_def o)
  next
    case (Inr fd)
    with attach_open_owns(1) [OF assms(1) o] have "n \<notin> fst ` set (sockets a1)" by simp
    moreover from Inr assms(2) have "attach_commit os n fd a1 h1 = (a', h')" by (simp add: Attach_def o)
    ultimately show ?thesis using attach_commit_fields [of os n fd a1 h1 a' h'] same by auto
  qed
  then show "isClosed a' = isClosed a" "closed a' = closed a"
    "fst ` set (sockets a) \<subseteq> fst ` set (sockets a')"
    "fst ` set (sockets a') \<subseteq> insert n (fst ` set (sockets a))" by auto
qed

end

sublocale fd_kernel \<subseteq> afp: capturer_exact "afp_att os basm" "afp_det os" "afp_cls os rng" afp_attached afp_inv
  for basm rng
proof
  fix s :: afp and n
  obtain a h where s: "s = (a, h)" by fastforce
  assume "afp_inv s"
  then have o: "owns {} a h" and c: "closed a \<longrightarrow> isClosed a" by (simp_all add: afp_inv_def s)
  obtain r a1 h1 where att: "Attach os basm n a h = (r, a1, h1)" by (metis prod_cases3)
  obtain a2 h2 where det: "Detach os n a h = (a2, h2)" by fastforce
  from Attach_owns [OF o att] Attach_fields [OF o att] c
  show "afp_inv (afp_att os basm n s)" "afp_attached s \<subseteq> afp_attached (afp_att os basm n s)"
    "afp_attached (afp_att os basm n s) \<subseteq> insert n (afp_attached s)"
    by (simp_all add: afp_inv_def afp_att_def afp_attached_def s att)
  from Detach_owns [OF o det] Detach_fields [OF det] c
  show "afp_inv (afp_det os n s)" "afp_attached s - {n} \<subseteq> afp_attached (afp_det os n s)"
    "afp_attached (afp_det os n s) \<subseteq> afp_attached s" "n \<notin> afp_attached (afp_det os n s)"
    by (simp_all add: afp_inv_def afp_det_def afp_attached_def s det)
  show "afp_attached (afp_cls os rng s) = {}"
    using o c by (auto simp: afp_cls_def afp_attached_def s Close_def closeFDs_def Let_def owns_def table_ok_def)
qed

interpretation ref_afp: capturer_exact "afp_att lowest_fd basm" "afp_det lowest_fd" "afp_cls lowest_fd rng"
    afp_attached afp_inv
  for basm rng
  by (rule ref_kernel.afp.capturer_exact_axioms)

section \<open>Start to Close\<close>

lemma NewAFPacket_simps [simp]:
  "sockets (NewAFPacket sp) = []" "isClosed (NewAFPacket sp) = False" "closed (NewAFPacket sp) = False"
  "epollFD (NewAFPacket sp) = -1" "eventFD (NewAFPacket sp) = -1" "rawOnce (NewAFPacket sp) = False"
  by (simp_all add: NewAFPacket_def)

lemma owns_New: "owns {} (NewAFPacket sp) []"
  by (simp add: owns_defs NewAFPacket_def table_ok_def socket_fds_def)

context fd_kernel
begin

lemma Start_fresh:
  assumes "range_order rng" "distinct ifaces"
    "Start os basm rng ifaces (NewAFPacket sp) [] = (r, a, h)"
  shows "case r of
      None \<Rightarrow> owns {} a h \<and> \<not> isClosed a \<and> \<not> closed a \<and> 0 \<le> epollFD a \<and> 0 \<le> eventFD a \<and>
        fst ` set (sockets a) \<subseteq> set ifaces
    | Some e \<Rightarrow> good_closes h \<and> open_fds h = {} \<and> sockets a = [] \<and> \<not> closed a"
proof (cases "rawErr (raw_once basm (NewAFPacket sp))")
  case (Some e)
  with assms(3) have "r = Some e" "a = raw_once basm (NewAFPacket sp)" "h = []"
    by (simp_all add: Start_def)
  then show ?thesis by simp
next
  case None
  let ?a = "raw_once basm (NewAFPacket sp)"
  obtain a1 h1 where o: "open_all os ifaces ?a [] = (a1, h1)" by fastforce
  have new: "\<not> isClosed ?a" "\<not> closed ?a" "eventFD ?a = -1" "epollFD ?a = -1" "sockets ?a = []"
    by simp_all
  have a1: "owns {} a1 h1" "\<not> isClosed a1" "\<not> closed a1" "eventFD a1 = -1" "epollFD a1 = -1"
    "fst ` set (sockets a1) \<subseteq> set ifaces"
    using open_all_owns [of "{}" ?a "[]" ifaces a1 h1] owns_New [of sp] assms(2) o new
    by simp_all
  show ?thesis
    using None o a1(1,2,4,5) assms(3)
  proof (cases rule: Start_cases)
    case (fail e a2 h2)
    from closeFDs_owns [OF assms(1) fail(2,3,5)] fail(1,4) a1(3) show ?thesis
      by (simp add: owns_defs socket_fds_def)
  next
    case ok
    with a1 show ?thesis by simp
  qed
qed

lemma run_callbacks_open:
  "afp_inv s \<Longrightarrow> isClosed (fst (run_callbacks (afp_att os basm) (afp_det os) cs s)) = isClosed (fst s) \<and>
     closed (fst (run_callbacks (afp_att os basm) (afp_det os) cs s)) = closed (fst s)"
proof (induction cs arbitrary: s)
  case (Cons c cs)
  obtain a h where s: "s = (a, h)" by fastforce
  show ?case
  proof (cases c)
    case (OnAdd n)
    obtain r a1 h1 where att: "Attach os basm n a h = (r, a1, h1)" by (metis prod_cases3)
    from Cons.prems have "owns {} a h" by (simp add: afp_inv_def s)
    moreover have "afp_att os basm n s = (a1, h1)" by (simp add: afp_att_def s att)
    ultimately show ?thesis
      using Attach_fields [OF _ att] Cons.IH [OF afp.att_inv [OF Cons.prems], of basm n] OnAdd s by simp
  next
    case (OnRemove n)
    obtain a1 h1 where det: "Detach os n a h = (a1, h1)" by fastforce
    have "afp_det os n s = (a1, h1)" by (simp add: afp_det_def s det)
    with Detach_fields [OF det] Cons.IH [OF afp.det_inv [OF Cons.prems], of n] OnRemove s
    show ?thesis by simp
  qed
qed simp

lemma Close_owns:
  assumes "range_order rng" "owns {} a h" "\<not> isClosed a" "\<not> closed a" "Close os rng a h = (a', h')"
  shows "good_closes h'" "open_fds h' = {}"
proof -
  let ?a = "a\<lparr>loopWG := 0\<rparr>"
  have "owns {} ?a h" using assms(2) by (subst owns_cong [of _ a]) simp_all
  then have w: "owns {} ?a (wakeShutdown os a h)"
    by (auto simp: wakeShutdown_def sys_eq intro: owns_other)
  obtain a1 h1 where c: "closeFDs os rng ?a (wakeShutdown os a h) = (a1, h1)" by fastforce
  have "h' = h1" using assms(4,5) c by (simp add: Close_def Let_def)
  with closeFDs_owns [OF assms(1) w _ c] assms(3) show "good_closes h'" "open_fds h' = {}"
    by (simp_all add: owns_defs socket_fds_def)
qed

lemmas afp_frame = afp.run_callbacks_frame

lemma lifecycle:
  assumes "range_order rng" "distinct ifaces"
    "Start os basm rng ifaces (NewAFPacket sp) [] = (None, a, h)"
    "s = run_callbacks (afp_att os basm) (afp_det os) cs (a, h)"
    "Close os rng (fst s) (snd s) = (a', h')"
  shows "afp_attached s \<subseteq> tracked (set ifaces) cs \<and> good_closes h' \<and> open_fds h' = {}"
proof -
  have st: "owns {} a h" "\<not> isClosed a" "\<not> closed a" "fst ` set (sockets a) \<subseteq> set ifaces"
    using Start_fresh [OF assms(1-3)] by simp_all
  then have i: "afp_inv (a, h)" "afp_attached (a, h) \<subseteq> set ifaces"
    by (simp_all add: afp_inv_def afp_attached_def)
  have "afp_inv s" unfolding assms(4) using i(1) by (rule afp.run_callbacks_inv)
  then have "owns {} (fst s) (snd s)" by (simp add: afp_inv_def)
  moreover have "\<not> isClosed (fst s)" "\<not> closed (fst s)"
    using run_callbacks_open [OF i(1), of basm cs] st unfolding assms(4) by simp_all
  ultimately have "good_closes h'" "open_fds h' = {}"
    using Close_owns [OF assms(1) _ _ _ assms(5)] by blast+
  moreover have "afp_attached s \<subseteq> tracked (set ifaces) cs"
    unfolding assms(4) using i by (rule afp.run_callbacks_tracked)
  ultimately show ?thesis by blast
qed

end

text \<open>A converter for the examples, and a system that cannot give an epoll descriptor.\<close>

definition ret_basm :: basm where
  "ret_basm prog = Inr [\<lparr>ri_op = 6, ri_jt = 0, ri_jf = 0, ri_k = 0\<rparr>]"

definition no_epoll :: os where
  "no_epoll h c = (if c = SysEpollCreate then RetErr (EOther ''EMFILE'') else lowest_fd h c)"

lemma fd_kernel_no_epoll: "fd_kernel no_epoll"
proof
  fix c h fd
  assume "opens c" "no_epoll h c = RetInt fd"
  then show "0 \<le> fd \<and> fd < 2 ^ 31 \<and> fd \<notin> open_fds h"
    using ref_kernel.fresh_fd [of c h fd] by (auto simp: no_epoll_def split: if_splits)
qed

lemma raw_once_ret [simp]:
  "rawErr (raw_once ret_basm (NewAFPacket Default)) = None"
  "raw (raw_once ret_basm (NewAFPacket Default)) = [\<lparr>ri_op = 6, ri_jt = 0, ri_jf = 0, ri_k = 0\<rparr>]"
  using Assemble_Default by (auto simp: raw_once_def ret_basm_def NewAFPacket_def)

lemma lowest_fd_other: "\<not> opens c \<Longrightarrow> lowest_fd h c = RetInt 0"
  by (simp add: lowest_fd_def)

lemma lowest_fd_next:
  assumes "opens c"
  shows "open_fds h = {} \<Longrightarrow> lowest_fd h c = RetInt 3"
    "open_fds h = {3} \<Longrightarrow> 1 \<le> length h \<Longrightarrow> lowest_fd h c = RetInt 4"
    "open_fds h = {3, 4} \<Longrightarrow> 2 \<le> length h \<Longrightarrow> lowest_fd h c = RetInt 5"
proof -
  have u: "[3..<n + 4] = 3 # [4..<n + 4]" "1 \<le> n \<Longrightarrow> [4..<n + 4] = 4 # [5..<n + 4]"
    "2 \<le> n \<Longrightarrow> [5..<n + 4] = 5 # [6..<n + 4]" for n :: nat
    by (auto simp: upt_conv_Cons)
  show "open_fds h = {} \<Longrightarrow> lowest_fd h c = RetInt 3"
    "open_fds h = {3} \<Longrightarrow> 1 \<le> length h \<Longrightarrow> lowest_fd h c = RetInt 4"
    "open_fds h = {3, 4} \<Longrightarrow> 2 \<le> length h \<Longrightarrow> lowest_fd h c = RetInt 5"
    using assms u [of "length h"] by (simp_all add: lowest_fd_def lowest_free_def)
qed

lemma open_fds_Cons: "open_fds (e # es) = foldl fd_step {} (e # es)"
  by (simp add: open_fds_def)

lemmas os_eval = sys_eq lowest_fd_other lowest_fd_next open_fds_Cons openSocket_def attachFilter_def
  add_socket_def insert_commute

lemma open_eth0:
  assumes "\<And>h c. c \<noteq> SysEpollCreate \<Longrightarrow> os h c = lowest_fd h c" "sockets a = []"
    "raw a = [\<lparr>ri_op = 6, ri_jt = 0, ri_jf = 0, ri_k = 0\<rparr>]"
  shows "\<exists>h. open_all os [''eth0''] a [] = (add_socket ''eth0'' 3 a, h) \<and> open_fds h = {3} \<and> 1 \<le> length h"
  using assms(3) by (simp add: os_eval assms(1))

lemma Start_eth0:
  "\<exists>a h. Start lowest_fd ret_basm id [''eth0''] (NewAFPacket Default) [] = (None, a, h) \<and>
     sockets a = [(''eth0'', 3)] \<and> eventFD a = 4 \<and> epollFD a = 5"
proof -
  let ?a = "raw_once ret_basm (NewAFPacket Default)"
  obtain h where o: "open_all lowest_fd [''eth0''] ?a [] = (add_socket ''eth0'' 3 ?a, h)"
    and h: "open_fds h = {3}" "1 \<le> length h" using open_eth0 [of lowest_fd ?a] by auto
  have "sockets (add_socket ''eth0'' 3 ?a) = [(''eth0'', 3)]" by (simp add: add_socket_def)
  with h show ?thesis by (simp add: Start_def o os_eval)
qed

lemma Start_no_epoll:
  "\<exists>e a h. Start no_epoll ret_basm id [''eth0''] (NewAFPacket Default) [] = (Some e, a, h) \<and> eventFD a = 4"
proof -
  let ?a = "raw_once ret_basm (NewAFPacket Default)"
  obtain h where o: "open_all no_epoll [''eth0''] ?a [] = (add_socket ''eth0'' 3 ?a, h)"
    and h: "open_fds h = {3}" "1 \<le> length h" using open_eth0 [of no_epoll ?a] by (auto simp: no_epoll_def)
  then show ?thesis by (simp add: Start_def o os_eval no_epoll_def closeFDs_eq)
qed

section \<open>Properties\<close>

text \<open>C12: \<open>AFPacket.Start\<close> accounts for every descriptor. On success the open descriptors are
  exactly those in the socket table, the epoll and the event descriptor, the reverse table is the
  inverse of the socket table, and only requested interfaces are in it. On any failure, wherever
  it occurs, everything opened has been closed. No descriptor is closed that is not open.\<close>

theorem Start_accounts:
  assumes "fd_kernel os" "range_order rng" "distinct ifaces"
    "Start os basm rng ifaces (NewAFPacket sp) [] = (r, a, h)"
  shows "good_closes h \<and>
    (case r of
       Some e \<Rightarrow> open_fds h = {}
     | None \<Rightarrow>
         open_fds h = insert (epollFD a) (insert (eventFD a) (socket_fds a)) \<and>
         epollFD a \<notin> socket_fds a \<and> eventFD a \<notin> socket_fds a \<and> epollFD a \<noteq> eventFD a \<and>
         ifaceByFD a = map_of (map (\<lambda>(n, fd). (int32 fd, n)) (sockets a)) \<and>
         fst ` set (sockets a) \<subseteq> set ifaces)"
proof (cases r)
  case None
  with fd_kernel.Start_fresh [OF assms]
  have o: "owns {} a h" "\<not> isClosed a" "0 \<le> epollFD a" "0 \<le> eventFD a"
    "fst ` set (sockets a) \<subseteq> set ifaces" by simp_all
  then have "control_fds a = {epollFD a, eventFD a}" by (auto simp: control_fds_def)
  with o None show ?thesis by (auto simp: owns_def table_ok_def)
next
  case (Some e)
  with fd_kernel.Start_fresh [OF assms] show ?thesis by simp
qed

theorem Start_accounts_witness:
  "\<exists>a h. Start lowest_fd ret_basm id [''eth0''] (NewAFPacket Default) [] = (None, a, h) \<and>
     good_closes h \<and> open_fds h = {3, 4, 5}"
proof -
  obtain a h where s: "Start lowest_fd ret_basm id [''eth0''] (NewAFPacket Default) [] = (None, a, h)"
    "sockets a = [(''eth0'', 3)]" "eventFD a = 4" "epollFD a = 5"
    using Start_eth0 by blast
  from Start_accounts [OF ref_kernel.fd_kernel_axioms range_order_id(1) _ s(1)] s
  show ?thesis by (auto simp: socket_fds_def)
qed

text \<open>C13: the life of an AF_PACKET capturer. After a successful \<open>Start\<close>, for any sequence of
  \<open>Attach\<close> and \<open>Detach\<close> calls of the interface watcher, whichever of their system calls fail,
  the attached interfaces are among those started or added and not removed since; and \<open>Close\<close>
  then leaves no descriptor open and never closes one twice.\<close>

theorem lifecycle_closes:
  assumes "fd_kernel os" "range_order rng" "distinct ifaces"
    "Start os basm rng ifaces (NewAFPacket sp) [] = (None, a, h)"
    "s = run_callbacks (afp_att os basm) (afp_det os) cs (a, h)"
    "Close os rng (fst s) (snd s) = (a', h')"
  shows "afp_attached s \<subseteq> tracked (set ifaces) cs \<and> good_closes h' \<and> open_fds h' = {}"
  using fd_kernel.lifecycle [OF assms] .

theorem lifecycle_closes_witness:
  "\<exists>a h. Start lowest_fd ret_basm id [''eth0''] (NewAFPacket Default) [] = (None, a, h) \<and>
     (let s = run_callbacks (afp_att lowest_fd ret_basm) (afp_det lowest_fd)
          [OnAdd ''lxc1'', OnAdd ''lxc2'', OnRemove ''lxc1''] (a, h)
      in afp_attached s \<subseteq> {''eth0'', ''lxc2''} \<and>
         open_fds (snd (Close lowest_fd id (fst s) (snd s))) = {})"
proof -
  obtain a h where s: "Start lowest_fd ret_basm id [''eth0''] (NewAFPacket Default) [] = (None, a, h)"
    using Start_eth0 by blast
  let ?cs = "[OnAdd ''lxc1'', OnAdd ''lxc2'', OnRemove ''lxc1'']"
  let ?s = "run_callbacks (afp_att lowest_fd ret_basm) (afp_det lowest_fd) ?cs (a, h)"
  have t: "tracked (set [''eth0'']) ?cs = {''eth0'', ''lxc2''}" by auto
  from lifecycle_closes [OF ref_kernel.fd_kernel_axioms range_order_id(1) _ s refl, of ?cs
      "fst (Close lowest_fd id (fst ?s) (snd ?s))" "snd (Close lowest_fd id (fst ?s) (snd ?s))"]
  show ?thesis unfolding Let_def t using s by auto
qed

text \<open>C14: a failed \<open>Start\<close> followed by \<open>Close\<close>, as the deferred call in \<open>run\<close> does, closes
  descriptors a second time whenever the failure came after the event descriptor was made: the
  cleanup of \<open>Start\<close> leaves \<open>eventFD\<close> and \<open>epollFD\<close> set and \<open>closed\<close> unset.\<close>

theorem failed_Start_closes_twice:
  assumes "fd_kernel os" "range_order rng" "distinct ifaces"
    "Start os basm rng ifaces (NewAFPacket sp) [] = (Some e, a, h)" "0 \<le> eventFD a"
  shows "good_closes h \<and> \<not> good_closes (snd (Close os rng a h))"
proof -
  have st: "good_closes h" "open_fds h = {}" "sockets a = []" "\<not> closed a"
    using fd_kernel.Start_fresh [OF assms(1-4)] by simp_all
  have r: "rng [] = []" using range_order_facts(1) [OF assms(2), of "[]"] by simp
  show ?thesis
    using st assms(5) by (simp add: Close_def Let_def closeFDs_eq r wakeShutdown_def sys_eq fd_step_other)
qed

theorem failed_Start_closes_twice_witness:
  "\<exists>e a h. Start no_epoll ret_basm id [''eth0''] (NewAFPacket Default) [] = (Some e, a, h) \<and>
     good_closes h \<and> \<not> good_closes (snd (Close no_epoll id a h))"
proof -
  obtain e a h where s: "Start no_epoll ret_basm id [''eth0''] (NewAFPacket Default) [] = (Some e, a, h)"
    "eventFD a = 4"
    using Start_no_epoll by blast
  from failed_Start_closes_twice [OF fd_kernel_no_epoll range_order_id(1) _ s(1)] s
  show ?thesis by auto
qed

end
