(* ===== verification/Afp_Loop.thy ===== *)
theory Afp_Loop
  imports Afpacket
begin

text \<open>
  The goroutines of \<open>internal/capture/afpacket.go\<close>. First \<open>eventLoop\<close> and \<open>drainSocket\<close> over
  recorded inputs, with what they deliver and when they leave. Then the three parties that share
  an \<open>AFPacket\<close>, the interface watcher that calls \<open>Attach\<close> and \<open>Detach\<close>, the event loop, and
  \<open>Close\<close>, as a step relation whose steps are the sections that the locks make atomic.
\<close>

section \<open>The event loop\<close>

text \<open>The loop over recorded inputs. One \<open>epoll_wait\<close> gives an error or a batch; each event of
  the batch comes with the changes that \<open>Attach\<close> and \<open>Detach\<close> made to \<open>ifaceByFD\<close> before the
  loop looked the descriptor up, and with the results of the reads on it. \<open>ReadOK d s\<close> is a
  read of a \<open>d\<close>-byte frame; \<open>s\<close> tells which arm of the \<open>select\<close> ran, the send or \<open>ctx.Done()\<close>.
  The value \<open>None\<close> means that the loop has used up the inputs and waits for more.\<close>

datatype read_result = ReadErr errno | ReadOK bytes bool

datatype table_change = TableAdd "32 word" string | TableDel "32 word"

datatype wait_result =
    WaitErr errno
  | WaitOK "(table_change list \<times> 32 word \<times> read_result list) list"

fun change_table :: "table_change list \<Rightarrow> AFPacket \<Rightarrow> AFPacket" where
  "change_table [] a = a"
| "change_table (TableAdd fd n # cs) a = change_table cs (a\<lparr>ifaceByFD := (ifaceByFD a)(fd \<mapsto> n)\<rparr>)"
| "change_table (TableDel fd # cs) a = change_table cs (a\<lparr>ifaceByFD := (ifaceByFD a)(fd := None)\<rparr>)"

fun drainSocket ::
  "string \<Rightarrow> read_result list \<Rightarrow> AFPacket \<Rightarrow> Packet list \<Rightarrow> bool option \<times> AFPacket \<times> Packet list"
where
  "drainSocket name [] a out = (None, a, out)"
| "drainSocket name (ReadErr e # rs) a out =
     (if e = EAGAIN then (Some True, a, out)
      else if e = EINTR then drainSocket name rs a out
      else if e = EBADF then (Some False, a, out)
      else (Some False, a, out))"
| "drainSocket name (ReadOK d sent # rs) a out =
     (let data = take (buf a) d in
      if length data = 0 then (Some True, a, out)
      else
        let a = a\<lparr>captured := captured a + 1\<rparr> in
        if sent then drainSocket name rs a (out @ [\<lparr>Data = data, Iface = name, Dir = DirUnknown\<rparr>])
        else (Some False, a, out))"

fun drain_batch ::
  "(table_change list \<times> 32 word \<times> read_result list) list \<Rightarrow> AFPacket \<Rightarrow> Packet list \<Rightarrow>
     bool option \<times> AFPacket \<times> Packet list"
where
  "drain_batch [] a out = (Some True, a, out)"
| "drain_batch ((cs, fd, rs) # evs) a out =
     (if fd = int32 (eventFD a) then (Some False, a, out)
      else
        let a = change_table cs a;
            name = (case ifaceByFD a fd of Some n \<Rightarrow> n | None \<Rightarrow> [])
        in case drainSocket name rs a out of
             (Some True, a, out) \<Rightarrow> drain_batch evs a out
           | r \<Rightarrow> r)"

fun eventLoop :: "wait_result list \<Rightarrow> AFPacket \<Rightarrow> Packet list \<Rightarrow> bool option \<times> AFPacket \<times> Packet list" where
  "eventLoop [] a out = (None, a, out)"
| "eventLoop (WaitErr e # ws) a out =
     (if e = EINTR then eventLoop ws a out
      else if e = EBADF then (Some False, a, out)
      else (Some False, a, out))"
| "eventLoop (WaitOK evs # ws) a out =
     (case drain_batch evs a out of
        (Some True, a, out) \<Rightarrow> eventLoop ws a out
      | r \<Rightarrow> r)"

section \<open>What the event loop delivers\<close>

text \<open>On the reads of one descriptor: whether they reach an end, whether that end stops the loop,
  and the frames before it.\<close>

fun complete :: "read_result list \<Rightarrow> bool" where
  "complete [] = False"
| "complete (ReadErr e # rs) = (e \<noteq> EINTR \<or> complete rs)"
| "complete (ReadOK d sent # rs) = (d = [] \<or> \<not> sent \<or> complete rs)"

fun fatal :: "read_result list \<Rightarrow> bool" where
  "fatal [] = False"
| "fatal (ReadErr e # rs) = (e \<noteq> EAGAIN \<and> (e \<noteq> EINTR \<or> fatal rs))"
| "fatal (ReadOK d sent # rs) = (d \<noteq> [] \<and> (\<not> sent \<or> fatal rs))"

fun frames :: "read_result list \<Rightarrow> bytes list" where
  "frames [] = []"
| "frames (ReadErr e # rs) = (if e = EINTR then frames rs else [])"
| "frames (ReadOK d sent # rs) = (if d = [] \<or> \<not> sent then [] else d # frames rs)"

fun changed :: "table_change list \<Rightarrow> (32 word \<rightharpoonup> string) \<Rightarrow> (32 word \<rightharpoonup> string)" where
  "changed [] t = t"
| "changed (TableAdd fd n # cs) t = changed cs (t(fd \<mapsto> n))"
| "changed (TableDel fd # cs) t = changed cs (t(fd := None))"

definition labelled :: "nat \<Rightarrow> (32 word \<rightharpoonup> string) \<Rightarrow> 32 word \<Rightarrow> bytes list \<Rightarrow> Packet list" where
  "labelled sz t fd = map (\<lambda>d. \<lparr>Data = take sz d, Iface = (case t fd of Some n \<Rightarrow> n | None \<Rightarrow> []),
     Dir = DirUnknown\<rparr>)"

fun delivered ::
  "nat \<Rightarrow> (32 word \<rightharpoonup> string) \<Rightarrow> (table_change list \<times> 32 word \<times> read_result list) list \<Rightarrow> Packet list"
where
  "delivered sz t [] = []"
| "delivered sz t ((cs, fd, rs) # evs) =
     labelled sz (changed cs t) fd (frames rs) @ delivered sz (changed cs t) evs"

fun ready :: "wait_result \<Rightarrow> (table_change list \<times> 32 word \<times> read_result list) list" where
  "ready (WaitErr e) = []"
| "ready (WaitOK evs) = evs"

text \<open>The inputs that end the loop.\<close>

definition stops :: "int \<Rightarrow> table_change list \<times> 32 word \<times> read_result list \<Rightarrow> bool" where
  "stops efd ev \<longleftrightarrow> fst (snd ev) = int32 efd \<or> fatal (snd (snd ev))"

fun leaves :: "int \<Rightarrow> wait_result \<Rightarrow> bool" where
  "leaves efd (WaitErr e) = (e \<noteq> EINTR)"
| "leaves efd (WaitOK evs) = (\<exists>ev \<in> set evs. stops efd ev)"

lemma change_table_eq: "change_table cs a = a\<lparr>ifaceByFD := changed cs (ifaceByFD a)\<rparr>"
  by (induction cs a rule: change_table.induct) (simp_all add: fun_upd_def)

lemma drainSocket_ok:
  "complete rs \<Longrightarrow> \<not> fatal rs \<Longrightarrow> 0 < buf a \<Longrightarrow>
     drainSocket (case t fd of Some n \<Rightarrow> n | None \<Rightarrow> []) rs a out =
       (Some True, a\<lparr>captured := captured a + of_nat (length (frames rs))\<rparr>,
        out @ labelled (buf a) t fd (frames rs))"
  by (induction rs arbitrary: a out rule: complete.induct) (auto simp: labelled_def Let_def add.assoc)

lemma drainSocket_fatal:
  "complete rs \<Longrightarrow> fatal rs \<Longrightarrow> 0 < buf a \<Longrightarrow> fst (drainSocket name rs a out) = Some False"
  by (induction rs arbitrary: a out rule: complete.induct) (auto simp: Let_def)

lemma drain_batch_ok:
  "\<forall>ev \<in> set evs. complete (snd (snd ev)) \<and> \<not> stops (eventFD a) ev \<Longrightarrow> 0 < buf a \<Longrightarrow>
     \<exists>a'. drain_batch evs a out = (Some True, a', out @ delivered (buf a) (ifaceByFD a) evs) \<and>
       captured a' = captured a + of_nat (length (delivered (buf a) (ifaceByFD a) evs)) \<and>
       buf a' = buf a \<and> eventFD a' = eventFD a \<and>
       (\<forall>evs'. delivered (buf a) (ifaceByFD a) (evs @ evs') =
          delivered (buf a) (ifaceByFD a) evs @ delivered (buf a) (ifaceByFD a') evs')"
proof (induction evs arbitrary: a out)
  case (Cons ev evs)
  obtain cs fd rs where ev: "ev = (cs, fd, rs)" by (metis prod_cases3)
  let ?a = "a\<lparr>ifaceByFD := changed cs (ifaceByFD a), captured := captured a + of_nat (length (frames rs))\<rparr>"
  have h: "complete rs" "\<not> fatal rs" "fd \<noteq> int32 (eventFD a)"
    using Cons.prems by (auto simp: ev stops_def)
  have d: "drain_batch (ev # evs) a out =
      drain_batch evs ?a (out @ labelled (buf a) (changed cs (ifaceByFD a)) fd (frames rs))"
    using h Cons.prems(2) drainSocket_ok [of rs "change_table cs a" "changed cs (ifaceByFD a)" fd out]
    by (simp add: ev change_table_eq Let_def)
  have l: "length (labelled (buf a) t fd (frames rs)) = length (frames rs)" for t
    by (simp add: labelled_def)
  show ?case
    using Cons.IH [of ?a "out @ labelled (buf a) (changed cs (ifaceByFD a)) fd (frames rs)"] Cons.prems
    unfolding d by (auto simp: ev l add.assoc)
qed simp

lemma drain_batch_stops:
  "\<forall>ev \<in> set evs. complete (snd (snd ev)) \<Longrightarrow> \<exists>ev \<in> set evs. stops (eventFD a) ev \<Longrightarrow> 0 < buf a \<Longrightarrow>
     fst (drain_batch evs a out) = Some False"
proof (induction evs arbitrary: a out)
  case (Cons ev evs)
  obtain cs fd rs where ev: "ev = (cs, fd, rs)" by (metis prod_cases3)
  let ?t = "changed cs (ifaceByFD a)" and ?a = "change_table cs a"
  have c: "complete rs" "0 < buf ?a" using Cons.prems by (simp_all add: ev change_table_eq)
  show ?case
  proof (cases "fd = int32 (eventFD a) \<or> fatal rs")
    case True
    with drainSocket_fatal [OF c(1) _ c(2), of "case ?t fd of Some n \<Rightarrow> n | None \<Rightarrow> []" out] show ?thesis
      by (auto simp: ev Let_def change_table_eq split: prod.splits bool.splits option.splits)
  next
    case False
    with drainSocket_ok [OF c(1) _ c(2), of ?t fd out] Cons.IH Cons.prems show ?thesis
      by (auto simp: ev Let_def change_table_eq stops_def)
  qed
qed simp

lemma eventLoop_runs:
  "0 < buf a \<Longrightarrow> \<forall>w \<in> set ws. \<not> leaves (eventFD a) w \<Longrightarrow>
     \<forall>w \<in> set ws. \<forall>ev \<in> set (ready w). complete (snd (snd ev)) \<Longrightarrow>
     \<exists>a'. eventLoop ws a out = (None, a', out @ delivered (buf a) (ifaceByFD a) (concat (map ready ws))) \<and>
       captured a' = captured a + of_nat (length (delivered (buf a) (ifaceByFD a) (concat (map ready ws))))"
proof (induction ws arbitrary: a out)
  case (Cons w ws)
  show ?case
  proof (cases w)
    case (WaitErr e)
    with Cons show ?thesis by simp
  next
    case (WaitOK evs)
    with Cons.prems obtain a1 where a1:
      "drain_batch evs a out = (Some True, a1, out @ delivered (buf a) (ifaceByFD a) evs)"
      "captured a1 = captured a + of_nat (length (delivered (buf a) (ifaceByFD a) evs))"
      "buf a1 = buf a" "eventFD a1 = eventFD a"
      "\<And>evs'. delivered (buf a) (ifaceByFD a) (evs @ evs') =
          delivered (buf a) (ifaceByFD a) evs @ delivered (buf a) (ifaceByFD a1) evs'"
      using drain_batch_ok [of evs a out] by auto
    from Cons.IH [of a1 "out @ delivered (buf a) (ifaceByFD a) evs"] Cons.prems a1 WaitOK
    show ?thesis by (auto simp: add.assoc)
  qed
qed simp

lemma eventLoop_ends:
  "0 < buf a \<Longrightarrow> \<exists>w \<in> set ws. leaves (eventFD a) w \<Longrightarrow>
     \<forall>w \<in> set ws. \<forall>ev \<in> set (ready w). complete (snd (snd ev)) \<Longrightarrow>
     fst (eventLoop ws a out) = Some False"
proof (induction ws arbitrary: a out)
  case (Cons w ws)
  show ?case
  proof (cases "leaves (eventFD a) w")
    case True
    with Cons.prems drain_batch_stops [of "ready w" a out] show ?thesis
      by (cases w) (auto split: prod.splits option.splits bool.splits)
  next
    case False
    show ?thesis
    proof (cases w)
      case (WaitOK evs)
      with False Cons.prems obtain a1 where
        "drain_batch evs a out = (Some True, a1, out @ delivered (buf a) (ifaceByFD a) evs)"
        "buf a1 = buf a" "eventFD a1 = eventFD a"
        using drain_batch_ok [of evs a out] by auto
      with Cons.IH [of a1 "out @ delivered (buf a) (ifaceByFD a) evs"] Cons.prems False WaitOK
      show ?thesis by auto
    qed (use False Cons in auto)
  qed
qed simp

section \<open>Goroutines\<close>

text \<open>The watcher goroutine is between calls, in \<open>Attach\<close> with a registered socket not yet in the
  tables, or in \<open>Detach\<close> with a socket taken out of the tables and not yet closed. \<open>closing\<close>:
  some \<open>Close\<close> has posted to the event descriptor and waits for the loop.\<close>

datatype client = Idle | Attaching string int | Detaching int

record world =
  afp :: AFPacket
  hist :: history
  client :: client
  running :: bool
  closing :: bool

inductive step :: "os \<Rightarrow> basm \<Rightarrow> rng \<Rightarrow> world \<Rightarrow> world \<Rightarrow> bool"
  for os :: os and basm :: basm and rng :: rng
where
  attach_refused: "client w = Idle \<Longrightarrow> attach_open os basm n (afp w) (hist w) = (Inl r, a, h) \<Longrightarrow>
    step os basm rng w (w\<lparr>afp := a, hist := h\<rparr>)"
| attach_opened: "client w = Idle \<Longrightarrow> attach_open os basm n (afp w) (hist w) = (Inr fd, a, h) \<Longrightarrow>
    step os basm rng w (w\<lparr>afp := a, hist := h, client := Attaching n fd\<rparr>)"
| attach_done: "client w = Attaching n fd \<Longrightarrow> attach_commit os n fd (afp w) (hist w) = (a, h) \<Longrightarrow>
    step os basm rng w (w\<lparr>afp := a, hist := h, client := Idle\<rparr>)"
| detach_taken: "client w = Idle \<Longrightarrow> map_of (sockets (afp w)) n = Some fd \<Longrightarrow>
    step os basm rng w (w\<lparr>afp := drop_socket n fd (afp w), client := Detaching fd\<rparr>)"
| detach_done: "client w = Detaching fd \<Longrightarrow>
    h = snd (sys os (SysClose fd) (snd (sys os (SysEpollDel (epollFD (afp w)) fd) (hist w)))) \<Longrightarrow>
    step os basm rng w (w\<lparr>hist := h, client := Idle\<rparr>)"
| stats_read: "afp_Stats os rng (afp w) (hist w) = (st, a, h) \<Longrightarrow>
    step os basm rng w (w\<lparr>afp := a, hist := h\<rparr>)"
| loop_left: "running w \<Longrightarrow> step os basm rng w (w\<lparr>running := False\<rparr>)"
| close_wake: "\<not> closing w \<Longrightarrow> \<not> closed (afp w) \<Longrightarrow>
    step os basm rng w (w\<lparr>hist := wakeShutdown os (afp w) (hist w), closing := True\<rparr>)"
| close_done: "closing w \<Longrightarrow> \<not> closed (afp w) \<Longrightarrow> \<not> running w \<Longrightarrow>
    closeFDs os rng (afp w) (hist w) = (a, h) \<Longrightarrow>
    step os basm rng w (w\<lparr>afp := a\<lparr>closed := True\<rparr>, hist := h\<rparr>)"

definition started :: "AFPacket \<Rightarrow> history \<Rightarrow> world" where
  "started a h = \<lparr>afp = a, hist = h, client = Idle, running = True, closing = False\<rparr>"

fun held :: "client \<Rightarrow> int set" where
  "held Idle = {}"
| "held (Attaching n fd) = {fd}"
| "held (Detaching fd) = {fd}"

definition world_inv :: "world \<Rightarrow> bool" where
  "world_inv w \<longleftrightarrow>
     owns (held (client w)) (afp w) (hist w) \<and> closed (afp w) = isClosed (afp w) \<and>
     (running w \<longrightarrow> \<not> isClosed (afp w)) \<and>
     0 \<le> epollFD (afp w) \<and> 0 \<le> eventFD (afp w) \<and>
     (case client w of
        Attaching n fd \<Rightarrow> 0 \<le> fd \<and> fd < 2 ^ 31 \<and> n \<notin> fst ` set (sockets (afp w))
      | _ \<Rightarrow> True)"

lemma stats_loop_owns:
  "owns X a h \<Longrightarrow> stats_loop os fds d h = (d', h') \<Longrightarrow> owns X a h'"
proof (induction os fds d h rule: stats_loop.induct)
  case (2 os fd fds d h)
  have "owns X a (h @ [(SysPacketStats fd, x)])" for x
    using "2.prems"(1) by (rule owns_other) simp_all
  with 2 show ?case by (auto simp: readPacketStats_def sys_eq split: sysret.splits)
qed simp

lemma Stats_owns:
  assumes "owns X a h" "afp_Stats os rng a h = (st, a', h')"
  shows "owns X a' h'" "sockets a' = sockets a" "isClosed a' = isClosed a" "closed a' = closed a"
    "epollFD a' = epollFD a" "eventFD a' = eventFD a"
proof -
  obtain d h1 where l: "stats_loop os (map snd (rng (sockets a))) 0 h = (d, h1)" by fastforce
  have "owns X (a\<lparr>kernelDrops := k\<rparr>) h1" for k
    using stats_loop_owns [OF assms(1) l] by (subst owns_cong [of _ a]) simp_all
  with stats_loop_owns [OF assms(1) l] assms(2) show "owns X a' h'"
    by (auto simp: afp_Stats_def l Let_def split: if_splits)
qed (use assms(2) in \<open>auto simp: afp_Stats_def Let_def split: prod.splits if_splits\<close>)

lemma commit_fields:
  "attach_commit os n fd a h = (a', h') \<Longrightarrow> epollFD a' = epollFD a \<and> eventFD a' = eventFD a"
  by (auto simp: attach_commit_def Let_def split: if_splits)

lemma closeFDs_fields:
  "closeFDs os rng a h = (a', h') \<Longrightarrow> epollFD a' = epollFD a \<and> eventFD a' = eventFD a"
  by (auto simp: closeFDs_eq)

context fd_kernel
begin

lemma step_inv:
  assumes "range_order rng" "step os basm rng w w'" "world_inv w"
  shows "world_inv w'"
  using assms(2)
proof cases
  case (attach_refused n r a h)
  with assms(3) have "owns {} (afp w) (hist w)" by (simp add: world_inv_def)
  from attach_open_owns [OF this attach_refused(3)] attach_refused assms(3) show ?thesis
    by (simp add: world_inv_def)
next
  case (attach_opened n fd a h)
  with assms(3) have "owns {} (afp w) (hist w)" by (simp add: world_inv_def)
  from attach_open_owns [OF this attach_opened(3)] attach_opened assms(3) show ?thesis
    by (simp add: world_inv_def)
next
  case (attach_done n fd a h)
  with assms(3) have "owns (insert fd {}) (afp w) (hist w)" "0 \<le> fd" "fd < 2 ^ 31"
    "n \<notin> fst ` set (sockets (afp w))" by (simp_all add: world_inv_def)
  then have "owns {} a h" using attach_commit_owns [OF _ _ _ _ _ attach_done(3)] by blast
  with attach_commit_fields [OF attach_done(3)] commit_fields [OF attach_done(3)] attach_done assms(3)
  show ?thesis by (simp add: world_inv_def)
next
  case (detach_taken n fd)
  with assms(3) have "owns {} (afp w) (hist w)" by (simp add: world_inv_def)
  from owns_drop [OF this detach_taken(3)] detach_taken assms(3) show ?thesis
    by (simp add: world_inv_def)
next
  case (detach_done fd h)
  with assms(3) have "owns (insert fd {}) (afp w) (hist w)" by (simp add: world_inv_def)
  then have "owns {} (afp w) ((hist w @ [(SysEpollDel (epollFD (afp w)) fd, x)]) @ [(SysClose fd, y)])" for x y
    by (intro owns_close [OF owns_other]) simp_all
  with detach_done assms(3) show ?thesis by (simp add: world_inv_def sys_eq)
next
  case (stats_read st a h)
  have "owns (held (client w)) (afp w) (hist w)" using assms(3) by (simp add: world_inv_def)
  from Stats_owns [OF this stats_read(2)] stats_read assms(3) show ?thesis
    by (simp add: world_inv_def split: client.splits)
next
  case loop_left
  with assms(3) show ?thesis by (simp add: world_inv_def split: client.splits)
next
  case close_wake
  have "owns (held (client w)) (afp w) (hist w)" using assms(3) by (simp add: world_inv_def)
  then have "owns (held (client w)) (afp w) (wakeShutdown os (afp w) (hist w))"
    by (auto simp: wakeShutdown_def sys_eq intro: owns_other)
  with close_wake assms(3) show ?thesis by (simp add: world_inv_def split: client.splits)
next
  case (close_done a h)
  with assms(3) have o: "owns (held (client w)) (afp w) (hist w)" "\<not> isClosed (afp w)"
    by (simp_all add: world_inv_def)
  note c = closeFDs_owns [OF assms(1) o close_done(5)]
  have "owns (held (client w)) (a\<lparr>closed := True\<rparr>) h" using c(1) by (subst owns_cong [of _ a]) simp_all
  with c closeFDs_fields [OF close_done(5)] close_done assms(3) show ?thesis
    by (auto simp: world_inv_def split: client.splits)
qed

lemma steps_inv:
  "(step os basm rng)\<^sup>*\<^sup>* w w' \<Longrightarrow> range_order rng \<Longrightarrow> world_inv w \<Longrightarrow> world_inv w'"
  by (induction rule: rtranclp_induct) (auto intro: step_inv)

lemma started_inv:
  assumes "range_order rng" "distinct ifaces"
    "Start os basm rng ifaces (NewAFPacket sp) [] = (None, a, h)"
  shows "world_inv (started a h)"
  using Start_fresh [OF assms] by (simp add: world_inv_def started_def)

end

text \<open>From every state the watcher can finish its call and \<open>Close\<close> can run to its end.\<close>

lemma client_finishes: "\<exists>w'. (step os basm rng)\<^sup>*\<^sup>* w w' \<and> client w' = Idle"
proof (cases "client w")
  case (Attaching n fd)
  obtain a h where "attach_commit os n fd (afp w) (hist w) = (a, h)" by fastforce
  from attach_done [OF Attaching this, of basm rng] show ?thesis by (auto intro!: exI r_into_rtranclp)
next
  case (Detaching fd)
  from detach_done [OF this refl, of os basm rng] show ?thesis by (auto intro!: exI r_into_rtranclp)
qed auto

lemma closer_finishes:
  assumes "client w = Idle"
  shows "\<exists>w'. (step os basm rng)\<^sup>*\<^sup>* w w' \<and> client w' = Idle \<and> closed (afp w')"
proof (cases "closed (afp w)")
  case False
  obtain w1 where 1: "(step os basm rng)\<^sup>*\<^sup>* w w1" "client w1 = Idle" "closing w1" "\<not> closed (afp w1)"
  proof (cases "closing w")
    case False
    have "step os basm rng w (w\<lparr>hist := wakeShutdown os (afp w) (hist w), closing := True\<rparr>)"
      by (rule close_wake) fact+
    from that [OF r_into_rtranclp, OF this] assms \<open>\<not> closed (afp w)\<close> show ?thesis by simp
  qed (use that assms False in auto)
  obtain w2 where 2: "(step os basm rng)\<^sup>*\<^sup>* w1 w2" "client w2 = Idle" "closing w2" "\<not> closed (afp w2)"
    "\<not> running w2"
  proof (cases "running w1")
    case True
    then have "step os basm rng w1 (w1\<lparr>running := False\<rparr>)" by (rule loop_left)
    from that [OF r_into_rtranclp, OF this] 1 show ?thesis by simp
  qed (use that 1 in auto)
  obtain a h where c: "closeFDs os rng (afp w2) (hist w2) = (a, h)" by fastforce
  let ?w3 = "w2\<lparr>afp := a\<lparr>closed := True\<rparr>, hist := h\<rparr>"
  have "step os basm rng w2 ?w3" by (rule close_done [OF 2(3,4,5) c])
  with 1(1) 2(1) have "(step os basm rng)\<^sup>*\<^sup>* w ?w3" by simp
  moreover have "client ?w3 = Idle" "closed (afp ?w3)" using 2 by simp_all
  ultimately show ?thesis by blast
qed (use assms in auto)

section \<open>Kernel drop counts\<close>

text \<open>\<open>PACKET_STATISTICS\<close> resets on read, so what the kernel dropped is the sum of all its answers.\<close>

fun drops_of :: "syscall \<times> sysret \<Rightarrow> u64" where
  "drops_of (SysPacketStats fd, RetInt d) = ucast (word_of_int d :: u32)"
| "drops_of _ = 0"

definition drops_read :: "history \<Rightarrow> u64" where
  "drops_read h = sum_list (map drops_of h)"

lemma drops_read_append [simp]: "drops_read (h @ h') = drops_read h + sum_list (map drops_of h')"
  by (simp add: drops_read_def)

lemma openSocket_drops [keeps_drops]: "openSocket os n flt h = (r, h') \<Longrightarrow> drops_read h' = drops_read h"
  by (auto simp: openSocket_def attachFilter_def sys_eq split: sysret.splits if_splits)

lemma close_each_drops: "drops_read (close_each os fds h) = drops_read h"
  by (induction fds arbitrary: h) (simp_all add: sys_eq)

lemma closeFDs_drops [keeps_drops]: "closeFDs os rng a h = (a', h') \<Longrightarrow> drops_read h' = drops_read h \<and> kernelDrops a' = kernelDrops a"
  by (auto simp: closeFDs_def Let_def sys_eq close_each_drops)

lemma open_all_drops [keeps_drops]:
  "open_all os names a h = (a', h') \<Longrightarrow> drops_read h' = drops_read h \<and> kernelDrops a' = kernelDrops a"
  by (induction os names a h rule: open_all.induct)
    (auto simp: add_socket_def dest: keeps_drops split: prod.splits sum.splits)

lemma epoll_add_all_drops [keeps_drops]: "epoll_add_all os ep ss h = (r, h') \<Longrightarrow> drops_read h' = drops_read h"
  by (induction os ep ss h rule: epoll_add_all.induct) (auto simp: sys_eq split: sysret.splits)

lemma raw_once_drops [simp]: "kernelDrops (raw_once basm a) = kernelDrops a"
  by (simp add: raw_once_def split: sum.split)

lemma Start_drops:
  "Start os basm rng names a h = (None, a', h') \<Longrightarrow> drops_read h' = drops_read h \<and> kernelDrops a' = kernelDrops a"
  by (auto simp: Start_def Let_def sys_eq dest!: keeps_drops
      split: option.splits prod.splits sysret.splits)

lemma attach_open_drops [keeps_drops]:
  "attach_open os basm n a h = (r, a', h') \<Longrightarrow> drops_read h' = drops_read h \<and> kernelDrops a' = kernelDrops a"
  by (auto simp: attach_open_def Let_def sys_eq dest!: keeps_drops
      split: if_splits option.splits prod.splits sum.splits sysret.splits)

lemma attach_commit_drops [keeps_drops]:
  "attach_commit os n fd a h = (a', h') \<Longrightarrow> drops_read h' = drops_read h \<and> kernelDrops a' = kernelDrops a"
  by (auto simp: attach_commit_def Let_def sys_eq add_socket_def split: if_splits)

lemma stats_loop_drops:
  "stats_loop os fds d h = (d', h') \<Longrightarrow>
     d' + drops_read h = d + drops_read h' \<and> take (length h) h' = h \<and>
     map fst (drop (length h) h') = map SysPacketStats fds"
proof (induction fds arbitrary: d h)
  case (Cons fd fds)
  obtain x where x: "os h (SysPacketStats fd) = x" by blast
  define h1 where "h1 = h @ [(SysPacketStats fd, x)]"
  define d1 where "d1 = d + drops_of (SysPacketStats fd, x)"
  have "stats_loop os fds d1 h1 = (d', h')"
    using Cons.prems by (cases x) (simp_all add: readPacketStats_def sys_eq x h1_def d1_def)
  note ih = Cons.IH [OF this]
  then have t: "take (Suc (length h)) h' = h @ [(SysPacketStats fd, x)]" by (simp add: h1_def)
  then have "h' = h @ (SysPacketStats fd, x) # drop (Suc (length h)) h'"
    by (metis append.assoc append_Cons append_Nil append_take_drop_id)
  then obtain rest where r: "h' = h @ (SysPacketStats fd, x) # rest" by blast
  from ih show ?case by (simp add: r h1_def d1_def algebra_simps)
qed simp

lemma Stats_drops:
  assumes "afp_Stats os rng a h = (st, a', h')"
  shows "kernelDrops a' + drops_read h = kernelDrops a + drops_read h'" "Stats.KernelDrops st = kernelDrops a'"
    "map fst (drop (length h) h') = map (SysPacketStats \<circ> snd) (rng (sockets a))"
proof -
  obtain d h1 where l: "stats_loop os (map snd (rng (sockets a))) 0 h = (d, h1)" by fastforce
  have k: "kernelDrops a' = kernelDrops a + d" "h' = h1" "Stats.KernelDrops st = kernelDrops a'"
    using assms by (auto simp: afp_Stats_def l Let_def word_gt_0 split: if_splits)
  from stats_loop_drops [OF l] show "kernelDrops a' + drops_read h = kernelDrops a + drops_read h'"
    "map fst (drop (length h) h') = map (SysPacketStats \<circ> snd) (rng (sockets a))"
    by (simp_all add: k(1,2) algebra_simps)
  show "Stats.KernelDrops st = kernelDrops a'" by (rule k(3))
qed

lemma step_drops:
  "step os basm rng w w' \<Longrightarrow> kernelDrops (afp w) = drops_read (hist w) \<Longrightarrow> kernelDrops (afp w') = drops_read (hist w')"
proof (induction rule: step.induct)
  case (stats_read w st a h)
  from Stats_drops(1) [OF stats_read(1)] stats_read(2) show ?case by (simp add: algebra_simps)
next
  case (detach_taken w n fd)
  then show ?case by (simp add: drop_socket_def)
next
  case (close_wake w)
  then show ?case by (simp add: wakeShutdown_def sys_eq)
qed (auto simp: sys_eq dest: keeps_drops)

lemma steps_drops:
  "(step os basm rng)\<^sup>*\<^sup>* w w' \<Longrightarrow> kernelDrops (afp w) = drops_read (hist w) \<Longrightarrow>
     kernelDrops (afp w') = drops_read (hist w')"
  by (induction rule: rtranclp_induct) (auto intro: step_drops)

section \<open>Properties\<close>



text \<open>C16: while nothing tells it to stop, the event loop delivers every frame of every ready
  socket, in the order read, cut to the read buffer and labelled with the name that \<open>ifaceByFD\<close>
  holds for the descriptor when the loop looks it up; the capture counter grows by the number of
  packets delivered, and interrupted calls lose nothing.\<close>

theorem eventLoop_delivers:
  assumes "0 < buf a" "\<forall>w \<in> set ws. \<not> leaves (eventFD a) w"
    "\<forall>w \<in> set ws. \<forall>ev \<in> set (ready w). complete (snd (snd ev))"
  shows "\<exists>a'. eventLoop ws a out =
      (None, a', out @ delivered (buf a) (ifaceByFD a) (concat (map ready ws))) \<and>
    captured a' = captured a + of_nat (length (delivered (buf a) (ifaceByFD a) (concat (map ready ws))))"
  using eventLoop_runs [OF assms] .

theorem eventLoop_delivers_witness:
  "\<exists>a'. eventLoop [WaitOK [([TableAdd 9 ''lxc1''], 9, [ReadOK [1, 2] True, ReadErr EINTR, ReadOK [3] True, ReadErr EAGAIN])],
       WaitErr EINTR, WaitOK [([TableDel 9], 9, [ReadOK [] True])]] (NewAFPacket Default) [] =
     (None, a', [\<lparr>Data = [1, 2], Iface = ''lxc1'', Dir = DirUnknown\<rparr>,
                 \<lparr>Data = [3], Iface = ''lxc1'', Dir = DirUnknown\<rparr>]) \<and> captured a' = 2"
proof -
  let ?ws = "[WaitOK [([TableAdd 9 ''lxc1''], 9, [ReadOK [1, 2] True, ReadErr EINTR, ReadOK [3] True, ReadErr EAGAIN])],
       WaitErr EINTR, WaitOK [([TableDel 9], 9, [ReadOK [] True])]] :: wait_result list"
  have "\<forall>w \<in> set ?ws. \<not> leaves (eventFD (NewAFPacket Default)) w" by (simp add: stops_def)
  moreover have "\<forall>w \<in> set ?ws. \<forall>ev \<in> set (ready w). complete (snd (snd ev))" by simp
  moreover have "0 < buf (NewAFPacket Default)" "captured (NewAFPacket Default) = 0"
    by (simp_all add: NewAFPacket_def afpacketReadBuf_def)
  moreover have "delivered (buf (NewAFPacket Default)) (ifaceByFD (NewAFPacket Default)) (concat (map ready ?ws)) =
      [\<lparr>Data = [1, 2], Iface = ''lxc1'', Dir = DirUnknown\<rparr>, \<lparr>Data = [3], Iface = ''lxc1'', Dir = DirUnknown\<rparr>]"
    by (simp add: labelled_def NewAFPacket_def afpacketReadBuf_def)
  ultimately show ?thesis using eventLoop_delivers [of "NewAFPacket Default" ?ws "[]"] by (auto simp: numeral_eq_Suc)
qed

text \<open>C17: when the event loop leaves. It returns exactly when some wait fails with an error other
  than EINTR, when the event descriptor is ready, when the context ends during a send, or when a
  read on any one socket fails with an error other than EAGAIN and EINTR. The last case means
  that one socket whose interface goes down, or that \<open>Detach\<close> closed after \<open>epoll_wait\<close> reported
  it, ends capture on all of them.\<close>

theorem eventLoop_leaves:
  assumes "0 < buf a" "\<forall>w \<in> set ws. \<forall>ev \<in> set (ready w). complete (snd (snd ev))"
  shows "fst (eventLoop ws a out) = (if \<exists>w \<in> set ws. leaves (eventFD a) w then Some False else None)"
proof (cases "\<exists>w \<in> set ws. leaves (eventFD a) w")
  case True
  with eventLoop_ends [OF assms(1) True assms(2)] show ?thesis by simp
next
  case False
  with eventLoop_runs [OF assms(1) _ assms(2), of out] show ?thesis by auto
qed

theorem eventLoop_leaves_witness:
  "fst (eventLoop [WaitOK [([TableDel 9], 9, [ReadErr EBADF])],
      WaitOK [([], 7, [ReadOK [1] True, ReadErr EAGAIN])]] (NewAFPacket Default) []) = Some False"
proof -
  let ?ws = "[WaitOK [([TableDel 9], 9, [ReadErr EBADF])],
      WaitOK [([], 7, [ReadOK [1] True, ReadErr EAGAIN])]] :: wait_result list"
  have "0 < buf (NewAFPacket Default)" by (simp add: NewAFPacket_def afpacketReadBuf_def)
  moreover have "\<forall>w \<in> set ?ws. \<forall>ev \<in> set (ready w). complete (snd (snd ev))" by simp
  moreover have "\<exists>w \<in> set ?ws. leaves (eventFD (NewAFPacket Default)) w" by (simp add: stops_def)
  ultimately show ?thesis using eventLoop_leaves [of "NewAFPacket Default" ?ws "[]"] by presburger
qed

text \<open>C37: no kernel drop is lost or counted twice. The kernel resets its drop count on every read;
  in every interleaving after \<open>Start\<close>, the total kept by the capturer is the sum, modulo
  \<open>2 ^ 64\<close>, of everything the kernel answered; the next \<open>Stats\<close> asks every socket of the table
  once, in the order of the map, skips those that fail, and reports the new sum.\<close>

theorem Stats_sums_reads:
  assumes "Start os basm rng ifaces (NewAFPacket sp) [] = (None, a, h)"
    "(step os basm rng)\<^sup>*\<^sup>* (started a h) w" "afp_Stats os rng (afp w) (hist w) = (st, a', h')"
  shows "kernelDrops (afp w) = drops_read (hist w) \<and> Stats.KernelDrops st = drops_read h' \<and>
    map fst (drop (length (hist w)) h') = map (SysPacketStats \<circ> snd) (rng (sockets (afp w)))"
proof -
  have "kernelDrops (afp (started a h)) = drops_read (hist (started a h))"
    using Start_drops [OF assms(1)] by (simp add: started_def drops_read_def NewAFPacket_def)
  note steps_drops [OF assms(2) this]
  with Stats_drops [OF assms(3)] show ?thesis by simp
qed

text \<open>A kernel that reports five drops at every read.\<close>

definition dropping_os :: os where
  "dropping_os h c = (case c of SysPacketStats fd \<Rightarrow> RetInt 5 | _ \<Rightarrow> lowest_fd h c)"

lemma dropping_os_eval:
  "dropping_os h (SysPacketStats fd) = RetInt 5"
  "\<forall>fd. c \<noteq> SysPacketStats fd \<Longrightarrow> dropping_os h c = lowest_fd h c"
  by (simp_all add: dropping_os_def split: syscall.split)

lemma Start_dropping:
  "\<exists>a h. Start dropping_os ret_basm id [''eth0''] (NewAFPacket Default) [] = (None, a, h) \<and>
     sockets a = [(''eth0'', 3)] \<and> kernelDrops a = 0"
proof -
  let ?a = "raw_once ret_basm (NewAFPacket Default)"
  have "sockets ?a = []" by (simp add: raw_once_def NewAFPacket_def split: sum.split)
  then obtain h where o: "open_all dropping_os [''eth0''] ?a [] = (add_socket ''eth0'' 3 ?a, h)"
    and h: "open_fds h = {3}" "1 \<le> length h" by (simp add: os_eval dropping_os_eval)
  have "sockets (add_socket ''eth0'' 3 ?a) = [(''eth0'', 3)]" "kernelDrops (add_socket ''eth0'' 3 ?a) = 0"
    by (simp_all add: add_socket_def \<open>sockets ?a = []\<close>) (simp add: NewAFPacket_def)
  with h show ?thesis by (simp add: Start_def o os_eval dropping_os_eval)
qed

theorem Stats_sums_reads_witness:
  "\<exists>a h st a' h'. Start dropping_os ret_basm id [''eth0''] (NewAFPacket Default) [] = (None, a, h) \<and>
     afp_Stats dropping_os id a h = (st, a', h') \<and> Stats.KernelDrops st = 5 \<and> drops_read h' = 5 \<and>
     map fst (drop (length h) h') = [SysPacketStats 3]"
proof -
  obtain a h where s: "Start dropping_os ret_basm id [''eth0''] (NewAFPacket Default) [] = (None, a, h)"
    and a: "sockets a = [(''eth0'', 3)]" "kernelDrops a = 0" using Start_dropping by blast
  obtain st a' h' where r: "afp_Stats dropping_os id a h = (st, a', h')" by (metis prod_cases3)
  then have "Stats.KernelDrops st = 5"
    using a by (auto simp: afp_Stats_def readPacketStats_def sys_eq dropping_os_eval)
  with Stats_sums_reads [OF s rtranclp.rtrancl_refl, of st a' h'] s r a show ?thesis
    by (auto simp: started_def)
qed

end
