(* ===== verification/Afp_Endless.thy ===== *)
theory Afp_Endless
  imports Afp_Loop
begin

text \<open>
  \<open>eventLoop\<close> of \<open>internal/capture/afpacket.go\<close> over endless inputs. Theory \<open>Afp_Loop\<close> runs it over
  finite recordings; here the results of \<open>epoll_wait\<close> and of the reads on each ready socket never
  run out, so the loops may run forever. They are \<open>partial_function\<close>s, whose value \<open>None\<close> means that
  they do not return. The question is when the loop returns, since \<open>Close\<close> waits for it.
\<close>

section \<open>The event loop\<close>

datatype endless_wait =
    EWaitErr errno
  | EWaitOK "(table_change list \<times> 32 word \<times> (nat \<Rightarrow> read_result)) list"

partial_function (option) drain_on ::
  "string \<Rightarrow> (nat \<Rightarrow> read_result) \<Rightarrow> nat \<Rightarrow> AFPacket \<Rightarrow> Packet list \<Rightarrow> (bool \<times> AFPacket \<times> Packet list) option"
where
  "drain_on name rs i a out =
     (case rs i of
        ReadErr e \<Rightarrow>
          if e = EAGAIN then Some (True, a, out)
          else if e = EINTR then drain_on name rs (Suc i) a out
          else Some (False, a, out)
      | ReadOK d sent \<Rightarrow>
          (let data = take (buf a) d in
           if length data = 0 then Some (True, a, out)
           else
             let a = a\<lparr>captured := captured a + 1\<rparr> in
             if sent then drain_on name rs (Suc i) a (out @ [\<lparr>Data = data, Iface = name, Dir = DirUnknown\<rparr>])
             else Some (False, a, out)))"

fun batch_on ::
  "(table_change list \<times> 32 word \<times> (nat \<Rightarrow> read_result)) list \<Rightarrow> AFPacket \<Rightarrow> Packet list \<Rightarrow>
     (bool \<times> AFPacket \<times> Packet list) option"
where
  "batch_on [] a out = Some (True, a, out)"
| "batch_on ((cs, fd, rs) # evs) a out =
     (if fd = int32 (eventFD a) then Some (False, a, out)
      else
        let a = change_table cs a;
            name = (case ifaceByFD a fd of Some n \<Rightarrow> n | None \<Rightarrow> [])
        in case drain_on name rs 0 a out of
             None \<Rightarrow> None
           | Some (go, a, out) \<Rightarrow> if go then batch_on evs a out else Some (False, a, out))"

partial_function (option) eventLoop_on ::
  "(nat \<Rightarrow> endless_wait) \<Rightarrow> nat \<Rightarrow> AFPacket \<Rightarrow> Packet list \<Rightarrow> (AFPacket \<times> Packet list) option"
where
  "eventLoop_on ws i a out =
     (case ws i of
        EWaitErr e \<Rightarrow> if e = EINTR then eventLoop_on ws (Suc i) a out else Some (a, out)
      | EWaitOK evs \<Rightarrow>
          (case batch_on evs a out of
             None \<Rightarrow> None
           | Some (go, a', out') \<Rightarrow> if go then eventLoop_on ws (Suc i) a' out' else Some (a', out')))"

section \<open>When it returns\<close>

text \<open>A read that ends the draining of a socket, and one that ends the event loop with it.\<close>

fun ends :: "read_result \<Rightarrow> bool" where
  "ends (ReadErr e) = (e \<noteq> EINTR)"
| "ends (ReadOK d sent) = (d = [] \<or> \<not> sent)"

fun kills :: "read_result \<Rightarrow> bool" where
  "kills (ReadErr e) = (e \<noteq> EINTR \<and> e \<noteq> EAGAIN)"
| "kills (ReadOK d sent) = (d \<noteq> [] \<and> \<not> sent)"

text \<open>Some read empties the socket, or fails.\<close>

definition drains :: "(nat \<Rightarrow> read_result) \<Rightarrow> bool" where
  "drains rs \<longleftrightarrow> (\<exists>k. ends (rs k))"

definition fatal_on :: "(nat \<Rightarrow> read_result) \<Rightarrow> bool" where
  "fatal_on rs \<longleftrightarrow> (\<exists>k. kills (rs k) \<and> (\<forall>j < k. \<not> ends (rs j)))"

fun events_of :: "endless_wait \<Rightarrow> (table_change list \<times> 32 word \<times> (nat \<Rightarrow> read_result)) list" where
  "events_of (EWaitErr e) = []"
| "events_of (EWaitOK evs) = evs"

fun leaves_on :: "int \<Rightarrow> endless_wait \<Rightarrow> bool" where
  "leaves_on efd (EWaitErr e) = (e \<noteq> EINTR)"
| "leaves_on efd (EWaitOK evs) = (\<exists>(cs, fd, rs) \<in> set evs. fd = int32 efd \<or> fatal_on rs)"

lemma kills_ends: "kills r \<Longrightarrow> ends r"
  by (cases r) auto

lemma drain_on_first:
  "i \<le> k \<Longrightarrow> ends (rs k) \<Longrightarrow> \<forall>j. i \<le> j \<and> j < k \<longrightarrow> \<not> ends (rs j) \<Longrightarrow> 0 < buf a \<Longrightarrow>
     \<exists>a' out'. drain_on name rs i a out = Some (\<not> kills (rs k), a', out') \<and> buf a' = buf a \<and> eventFD a' = eventFD a"
proof (induction "k - i" arbitrary: i a out)
  case 0
  then have "k = i" by simp
  with 0 show ?case by (cases "rs i") (auto simp: drain_on.simps [of name rs i] Let_def)
next
  case (Suc m)
  then have "i < k" by simp
  then have n: "\<not> ends (rs i)" using Suc.prems(3) by simp
  have IH: "\<exists>a' out'. drain_on name rs (Suc i) b o1 = Some (\<not> kills (rs k), a', out') \<and> buf a' = buf b \<and> eventFD a' = eventFD b"
    if "buf b = buf a" for b o1
    using Suc that \<open>i < k\<close> by (intro Suc.hyps(1)) auto
  show ?case
  proof (cases "rs i")
    case (ReadErr e)
    with n IH [of a out] show ?thesis by (simp add: drain_on.simps [of name rs i])
  next
    case (ReadOK d sent)
    with n IH [of "a\<lparr>captured := captured a + 1\<rparr>" "out @ [\<lparr>Data = take (buf a) d, Iface = name, Dir = DirUnknown\<rparr>]"]
      Suc.prems(4) show ?thesis by (simp add: drain_on.simps [of name rs i] Let_def)
  qed
qed

lemma drain_on_drains:
  assumes "drains rs" "0 < buf a"
  shows "\<exists>a' out'. drain_on name rs 0 a out = Some (\<not> fatal_on rs, a', out') \<and> buf a' = buf a \<and> eventFD a' = eventFD a"
proof -
  obtain k where k: "ends (rs k)" "\<forall>j < k. \<not> ends (rs j)"
    using assms(1) exists_least_iff [of "\<lambda>k. ends (rs k)"] by (auto simp: drains_def)
  have "k' = k" if "kills (rs k')" "\<forall>j < k'. \<not> ends (rs j)" for k'
    using k that kills_ends [OF that(1)] linorder_neqE_nat [of k' k] by blast
  then have "kills (rs k) \<longleftrightarrow> fatal_on rs" using k(2) by (auto simp: fatal_on_def)
  with drain_on_first [of 0 k rs a name out] k assms(2) show ?thesis by simp
qed

lemma batch_on_drains:
  "\<forall>(cs, fd, rs) \<in> set evs. drains rs \<Longrightarrow> 0 < buf a \<Longrightarrow>
     \<exists>a' out'. batch_on evs a out = Some (\<not> leaves_on (eventFD a) (EWaitOK evs), a', out') \<and>
       buf a' = buf a \<and> eventFD a' = eventFD a"
proof (induction evs arbitrary: a out)
  case (Cons ev evs)
  obtain cs fd rs where ev: "ev = (cs, fd, rs)" by (metis prod_cases3)
  let ?a = "change_table cs a"
  let ?name = "case ifaceByFD ?a fd of Some n \<Rightarrow> n | None \<Rightarrow> []"
  have b: "buf ?a = buf a" "eventFD ?a = eventFD a" by (simp_all add: change_table_eq)
  obtain a1 o1 where d: "drain_on ?name rs 0 ?a out = Some (\<not> fatal_on rs, a1, o1)" "buf a1 = buf a" "eventFD a1 = eventFD a"
    using drain_on_drains [of rs ?a ?name out] Cons.prems b by (auto simp: ev)
  show ?case
  proof (cases "fd = int32 (eventFD a)")
    case True
    then show ?thesis by (simp add: ev)
  next
    case False
    then show ?thesis using d Cons.IH [of a1 o1] Cons.prems by (auto simp: ev Let_def)
  qed
qed simp

lemma eventLoop_on_returns:
  assumes "\<And>i. \<forall>(cs, fd, rs) \<in> set (events_of (ws i)). drains rs" "leaves_on (eventFD a) (ws k)" "i \<le> k" "0 < buf a"
  shows "\<exists>r. eventLoop_on ws i a out = Some r"
  using assms(2-4)
proof (induction "k - i" arbitrary: i a out)
  case 0
  then have "k = i" by simp
  with 0 show ?case
    using batch_on_drains [of "events_of (ws i)" a out] assms(1) [of i]
    by (cases "ws i") (auto simp: eventLoop_on.simps [of ws i])
next
  case (Suc m)
  then have "i < k" by simp
  have IH: "\<exists>r. eventLoop_on ws (Suc i) b o1 = Some r" if "buf b = buf a" "eventFD b = eventFD a" for b o1
    using Suc that \<open>i < k\<close> by (intro Suc.hyps(1)) auto
  show ?case
  proof (cases "ws i")
    case (EWaitErr e)
    with IH [of a] show ?thesis by (auto simp: eventLoop_on.simps [of ws i])
  next
    case (EWaitOK evs)
    with batch_on_drains [of evs a out] assms(1) [of i] Suc.prems(3) IH show ?thesis
      by (fastforce simp: eventLoop_on.simps [of ws i])
  qed
qed

lemma eventLoop_on_left:
  "eventLoop_on ws i a out = Some r \<Longrightarrow> \<forall>i. \<forall>(cs, fd, rs) \<in> set (events_of (ws i)). drains rs \<Longrightarrow> 0 < buf a \<Longrightarrow>
     \<exists>k. leaves_on (eventFD a) (ws k)"
proof (induction rule: eventLoop_on.raw_induct [rotated 1, consumes 1])
  case (1 loop ws i a out r)
  show ?case
  proof (cases "leaves_on (eventFD a) (ws i)")
    case False
    show ?thesis
    proof (cases "ws i")
      case (EWaitErr e)
      with 1 False show ?thesis by auto
    next
      case (EWaitOK evs)
      have "\<forall>(cs, fd, rs) \<in> set evs. drains rs" using "1.prems"(1) [THEN spec, of i] EWaitOK by simp
      from batch_on_drains [OF this "1.prems"(2), of out] obtain a1 o1 where
        b: "batch_on evs a out = Some (True, a1, o1)" "buf a1 = buf a" "eventFD a1 = eventFD a"
        using False EWaitOK by auto
      with "1.hyps" EWaitOK have "loop ws (Suc i) a1 o1 = Some r" by simp
      from "1.IH" [OF this "1.prems"(1)] b "1.prems"(2) show ?thesis by simp
    qed
  qed blast
qed

lemma eventLoop_on_iff:
  assumes "\<forall>i. \<forall>(cs, fd, rs) \<in> set (events_of (ws i)). drains rs" "0 < buf a"
  shows "(\<exists>r. eventLoop_on ws 0 a out = Some r) \<longleftrightarrow> (\<exists>i. leaves_on (eventFD a) (ws i))"
proof
  assume "\<exists>r. eventLoop_on ws 0 a out = Some r"
  then show "\<exists>i. leaves_on (eventFD a) (ws i)" using eventLoop_on_left assms by blast
next
  assume "\<exists>i. leaves_on (eventFD a) (ws i)"
  then obtain k where k: "leaves_on (eventFD a) (ws k)" ..
  show "\<exists>r. eventLoop_on ws 0 a out = Some r"
    by (rule eventLoop_on_returns [where k = k]) (use assms k in simp_all)
qed

text \<open>A socket that never runs dry keeps the loop, also from an event descriptor that is reported
  after it.\<close>

lemma drain_on_ends: "drain_on name rs i a out = Some r \<Longrightarrow> 0 < buf a \<Longrightarrow> drains rs"
proof (induction rule: drain_on.raw_induct [rotated 1, consumes 1])
  case (1 loop name rs i a out r)
  show ?case
  proof (cases "ends (rs i)")
    case False
    with 1 show ?thesis by (cases "rs i") (auto simp: Let_def)
  qed (auto simp: drains_def)
qed

lemma eventLoop_on_stuck:
  assumes "ws i = EWaitOK ((cs, fd, rs) # evs)" "fd \<noteq> int32 (eventFD a)" "\<not> drains rs" "0 < buf a"
  shows "eventLoop_on ws i a out = None"
proof -
  have "drain_on name rs 0 (change_table cs a) out = None" for name
    using drain_on_ends [of name rs 0 "change_table cs a" out] assms(3,4)
    by (cases "drain_on name rs 0 (change_table cs a) out") (auto simp: change_table_eq)
  with assms(1,2) show ?thesis by (simp add: eventLoop_on.simps [of ws i] Let_def)
qed

end
