(* ===== verification/Tc_Filter.thy ===== *)
theory Tc_Filter
  imports Filter_Spec
begin

text \<open>
  The TC-BPF program of \<open>bpf/filter.c\<close>: \<open>classify\<close> is the parsing and filtering part of
  \<open>handle\<close>, \<open>handle\<close> adds the drop counters and the ring-buffer submission. The kernel
  helpers (\<open>bpf_ringbuf_reserve\<close>, \<open>bpf_skb_load_bytes\<close>) are the fields of \<open>tc_env\<close>. Header
  fields are compared in network order by the C code; the model compares their values.
\<close>

section \<open>Data\<close>

record skb =
  skb_data :: bytes
  skb_len :: u32
  skb_ifindex :: u32

record capture_event =
  ce_len :: u32
  ce_ifindex :: u32
  ce_ingress :: u8
  ce_pad :: bytes
  ce_data :: bytes

text \<open>\<open>drop_counters\<close> is the slot array of the CPU the program runs on.\<close>

record tc_state =
  drop_counters :: "u64 list"
  events :: "capture_event list"

text \<open>\<open>rb_reserve\<close>: the old content of the reserved data area, or no room. \<open>skb_load_bytes n\<close>:
  the first \<open>n\<close> bytes of the packet, or failure.\<close>

record tc_env =
  rb_reserve :: "bytes option"
  skb_load_bytes :: "nat \<Rightarrow> bytes option"

definition MAX_CAPTURE :: nat where "MAX_CAPTURE = 1536"

datatype drop_reason = DROP_NON_IPV4 | DROP_METADATA | DROP_NON_L4 | DROP_DNS | DROP_VXLAN
  | DROP_TRUNC | DROP_K8S_NOISE | DROP_RB_FULL

fun reason_index :: "drop_reason \<Rightarrow> nat" where
  "reason_index DROP_NON_IPV4 = 0"
| "reason_index DROP_METADATA = 1"
| "reason_index DROP_NON_L4 = 2"
| "reason_index DROP_DNS = 3"
| "reason_index DROP_VXLAN = 4"
| "reason_index DROP_TRUNC = 5"
| "reason_index DROP_K8S_NOISE = 6"
| "reason_index DROP_RB_FULL = 7"

datatype verdict = Untouched | Dropped drop_reason | Captured

section \<open>handle\<close>

definition net16 :: "bytes \<Rightarrow> nat \<Rightarrow> u16" where
  "net16 f off = BigEndian_Uint16 (f ! off) (f ! (off + 1))"

definition net32 :: "bytes \<Rightarrow> nat \<Rightarrow> u32" where
  "net32 f off = BigEndian_Uint32 (f ! off) (f ! (off + 1)) (f ! (off + 2)) (f ! (off + 3))"

definition METADATA_IP :: u32 where "METADATA_IP = 0xa9fea9fe"
definition DNS_PORT :: u16 where "DNS_PORT = 53"
definition VXLAN_PORT :: u16 where "VXLAN_PORT = 4789"
definition VXLAN_SRC :: u16 where "VXLAN_SRC = 16401"
definition NTP_PORT :: u16 where "NTP_PORT = 123"

lemmas port_defs = DNS_PORT_def VXLAN_PORT_def VXLAN_SRC_def NTP_PORT_def

definition k8s_tcp_ports :: "u16 list" where
  "k8s_tcp_ports = [22, 8080, 8181, 9090, 10249, 10250, 10255, 10256]"

definition bump_drop :: "drop_reason \<Rightarrow> tc_state \<Rightarrow> tc_state" where
  "bump_drop r s =
     (let i = reason_index r; cs = drop_counters s in
      if i < length cs then s\<lparr>drop_counters := cs[i := cs ! i + 1]\<rparr> else s)"

definition classify :: "bytes \<Rightarrow> verdict" where
  "classify f =
     (if 14 > length f then Untouched
      else if net16 f 12 \<noteq> 0x0800 then Dropped DROP_NON_IPV4
      else if 34 > length f then Untouched
      else if net32 f 30 = METADATA_IP \<or> net32 f 26 = METADATA_IP then Dropped DROP_METADATA
      else
        let ihl = 4 * unat (f ! 14 AND 15); protocol = f ! 23 in
        if ihl < 20 then Untouched
        else if protocol \<noteq> 6 \<and> protocol \<noteq> 17 then Dropped DROP_NON_L4
        else if protocol = 17 then
          if 14 + ihl + 8 > length f then Untouched
          else
            let source = net16 f (14 + ihl); dest = net16 f (14 + ihl + 2) in
            if source = DNS_PORT \<or> dest = DNS_PORT then Dropped DROP_DNS
            else if source = VXLAN_SRC \<or> dest = VXLAN_PORT then Dropped DROP_VXLAN
            else if source = NTP_PORT \<or> dest = NTP_PORT then Dropped DROP_K8S_NOISE
            else Captured
        else
          if 14 + ihl + 8 > length f then Untouched
          else
            let sp = net16 f (14 + ihl); dp = net16 f (14 + ihl + 2) in
            if (\<exists>port \<in> set k8s_tcp_ports. sp = port \<or> dp = port) then Dropped DROP_K8S_NOISE
            else Captured)"

abbreviation (input) TC_ACT_UNSPEC :: int where "TC_ACT_UNSPEC \<equiv> -1"

definition handle :: "tc_env \<Rightarrow> skb \<Rightarrow> u8 \<Rightarrow> tc_state \<Rightarrow> int \<times> tc_state" where
  "handle env sk ingress s =
     (case classify (skb_data sk) of
        Untouched \<Rightarrow> (TC_ACT_UNSPEC, s)
      | Dropped r \<Rightarrow> (TC_ACT_UNSPEC, bump_drop r s)
      | Captured \<Rightarrow>
          (let wire_len = unat (skb_len sk);
               copy_len = (if wire_len > MAX_CAPTURE then MAX_CAPTURE else wire_len) in
           if copy_len = 0 then (TC_ACT_UNSPEC, s)
           else case rb_reserve env of
              None \<Rightarrow> (TC_ACT_UNSPEC, bump_drop DROP_RB_FULL s)
            | Some slot \<Rightarrow>
                (case skb_load_bytes env copy_len of
                   None \<Rightarrow> (TC_ACT_UNSPEC, bump_drop DROP_TRUNC s)
                 | Some bs \<Rightarrow>
                     let e = \<lparr>ce_len = skb_len sk, ce_ifindex = skb_ifindex sk, ce_ingress = ingress,
                              ce_pad = [0, 0, 0], ce_data = bs @ drop (length bs) slot\<rparr>
                     in (TC_ACT_UNSPEC, s\<lparr>events := events s @ [e]\<rparr>))))"

definition sensor_ingress :: "tc_env \<Rightarrow> skb \<Rightarrow> tc_state \<Rightarrow> int \<times> tc_state" where
  "sensor_ingress env sk s = handle env sk 1 s"

definition sensor_egress :: "tc_env \<Rightarrow> skb \<Rightarrow> tc_state \<Rightarrow> int \<times> tc_state" where
  "sensor_egress env sk s = handle env sk 0 s"

text \<open>The record in ring-buffer memory, on the little-endian hosts the sensor is built for.\<close>

definition event_bytes :: "capture_event \<Rightarrow> bytes" where
  "event_bytes e = LittleEndian_PutUint32 (ce_len e) @ LittleEndian_PutUint32 (ce_ifindex e) @
     [ce_ingress e] @ ce_pad e @ ce_data e"

section \<open>Lemmas\<close>

lemma be_val2: "be_val [a, b] 0 = ucast (BigEndian_Uint16 a b)"
  by (rule bit_word_eqI) (auto simp: BigEndian_Uint16_def bit_simps dest: bit_imp_le_length)

lemma be_val4: "be_val [a, b, c, d] 0 = BigEndian_Uint32 a b c d"
  by (rule bit_word_eqI) (auto simp: BigEndian_Uint32_def bit_simps)

lemma take_drop_nth:
  "off < length f \<Longrightarrow> take (Suc n) (drop off f) = f ! off # take n (drop (Suc off) f)"
  by (simp add: Cons_nth_drop_Suc [symmetric])

lemma rd2: "off + 2 \<le> length f \<Longrightarrow> rd f off 2 = Some (ucast (net16 f off))"
  by (simp add: rd_def net16_def numeral_2_eq_2 take_drop_nth be_val2 del: be_val.simps)

lemma rd4: "off + 4 \<le> length f \<Longrightarrow> rd f off 4 = Some (net32 f off)"
  by (simp add: rd_def net32_def numeral_eq_Suc take_drop_nth be_val4 del: be_val.simps)

lemma rd1: "off < length f \<Longrightarrow> rd f off 1 = Some (ucast (f ! off))"
  by (simp add: rd_def take_drop_nth)

lemma unat_ucast16: "unat (ucast (a :: u16) :: u32) = unat a"
proof -
  have "unat a < 2 ^ 16" using unsigned_less [of a] by simp
  then show ?thesis by (simp add: unsigned_ucast_eq take_bit_nat_eq_self)
qed

lemma unat_ucast8: "unat (ucast (a :: u8) :: u32) = unat a"
proof -
  have "unat a < 2 ^ 8" using unsigned_less [of a] by simp
  then show ?thesis by (simp add: unsigned_ucast_eq take_bit_nat_eq_self)
qed

lemma ucast16_inj: "(ucast (a :: u16) :: u32) = ucast b \<longleftrightarrow> a = b"
  by (metis unat_ucast16 word_unat_eq_iff)

lemma ucast8_inj: "(ucast (a :: u8) :: u32) = ucast b \<longleftrightarrow> a = b"
  by (metis unat_ucast8 word_unat_eq_iff)

lemma ucast16_mem: "(ucast (a :: u16) :: u32) \<in> set (map ucast ps) \<longleftrightarrow> a \<in> set ps"
  by (auto simp: ucast16_inj)

text \<open>The numerals of the source at the register width.\<close>

lemmas ucast_consts =
  ucast16_inj [of _ "0x0800", simplified] ucast8_inj [of _ 6, simplified]
  ucast8_inj [of _ 17, simplified]

text \<open>The drop rules of \<open>Default\<close> on a frame with a full header, over the fields as the C code
  reads them.\<close>

lemma spec_accepts_Default:
  assumes "34 \<le> length f" and "14 + ihl_bytes f + 4 \<le> length f"
  shows "spec_accepts Default f \<longleftrightarrow>
    net16 f 12 = 0x0800 \<and> net32 f 26 \<noteq> METADATA_IP \<and> net32 f 30 \<noteq> METADATA_IP \<and>
    (f ! 23 = 6 \<and> net16 f (14 + ihl_bytes f) \<notin> set k8s_tcp_ports \<and>
       net16 f (16 + ihl_bytes f) \<notin> set k8s_tcp_ports \<or>
     f ! 23 = 17 \<and> net16 f (14 + ihl_bytes f) \<notin> set [53, 16401, 123] \<and>
       net16 f (16 + ihl_bytes f) \<notin> set [53, 4789, 123])"
proof -
  have T: "K8sNoiseTCPPorts Default = k8s_tcp_ports"
    by (simp add: Default_def k8s_tcp_ports_def)
  have U: "ucast (DNSPort Default) # ucast (VXLANSrcPort Default) #
      map ucast (K8sNoiseUDPPorts Default) = map ucast [53, 16401, 123 :: u16]"
    "ucast (DNSPort Default) # ucast (VXLANPort Default) #
      map ucast (K8sNoiseUDPPorts Default) = map ucast [53, 4789, 123 :: u16]"
    by (simp_all add: Default_def)
  have F: "ethertype f = Some (ucast (net16 f 12))" "ip_src f = Some (net32 f 26)"
    "ip_dst f = Some (net32 f 30)" "ip_proto f = Some (ucast (f ! 23))"
    "l4_sport f = Some (ucast (net16 f (14 + ihl_bytes f)))"
    "l4_dport f = Some (ucast (net16 f (16 + ihl_bytes f)))"
    using assms by (simp_all add: field_defs rd1 rd2 rd4 del: One_nat_def)
  show ?thesis
    unfolding spec_accepts_def F U T allowed_Some ucast16_mem
    by (auto simp: ucast_consts METADATA_IP_def)
qed

lemma spec_accepts_long:
  assumes "spec_accepts sp f"
  shows "34 \<le> length f" and "14 + ihl_bytes f + 4 \<le> length f" and "ethertype f = Some 0x0800"
  using assms
  by (auto simp: spec_accepts_def field_defs allowed_def split: option.splits dest: rd_SomeD)

lemma classify_Captured_long:
  assumes "classify f = Captured"
  shows "34 \<le> length f \<and> 14 + ihl_bytes f + 8 \<le> length f"
proof (rule ccontr)
  assume "\<not> ?thesis"
  then consider "length f < 34" | "34 \<le> length f" "length f < 14 + ihl_bytes f + 8" by linarith
  then show False using assms
    by cases (simp_all add: classify_def Let_def ihl_bytes_def [symmetric] split: if_split_asm)
qed

lemma classify_long:
  assumes "34 \<le> length f" and "14 + ihl_bytes f + 8 \<le> length f"
  shows "classify f = Captured \<longleftrightarrow>
      net16 f 12 = 0x0800 \<and> \<not> (net32 f 30 = METADATA_IP \<or> net32 f 26 = METADATA_IP) \<and>
      20 \<le> ihl_bytes f \<and> (f ! 23 = 6 \<or> f ! 23 = 17) \<and>
      (let s = net16 f (14 + ihl_bytes f); d = net16 f (16 + ihl_bytes f) in
       if f ! 23 = 17
       then \<not> (s = 53 \<or> d = 53) \<and> \<not> (s = 16401 \<or> d = 4789) \<and> \<not> (s = 123 \<or> d = 123)
       else \<not> (\<exists>port \<in> set k8s_tcp_ports. s = port \<or> d = port))"
  using assms by (simp add: classify_def Let_def port_defs ihl_bytes_def [symmetric])

lemma classify_iff:
  "classify f = Captured \<longleftrightarrow>
     spec_accepts Default f \<and> 20 \<le> ihl_bytes f \<and> 14 + ihl_bytes f + 8 \<le> length f"
proof (cases "34 \<le> length f \<and> 14 + ihl_bytes f + 8 \<le> length f")
  case True
  then have long: "34 \<le> length f" "14 + ihl_bytes f + 8 \<le> length f" "14 + ihl_bytes f + 4 \<le> length f"
    by simp_all
  have "classify f = Captured \<longleftrightarrow> spec_accepts Default f \<and> 20 \<le> ihl_bytes f"
    unfolding classify_long [OF long(1,2)] spec_accepts_Default [OF long(1,3)] Let_def
    by (cases "f ! 23 = 17") auto
  with True show ?thesis by simp
next
  case False
  with classify_Captured_long spec_accepts_long(1) show ?thesis by blast
qed

text \<open>C3: the kernel program and the drop rules. \<open>filter.c\<close> captures a frame exactly when the
  rules of \<open>Default\<close> accept it, its IP header length is at least five words and eight bytes of
  layer 4 are in the linear part. The two extra conditions are the whole difference to the
  AF_PACKET filter, which decides \<open>spec_accepts Default\<close>.\<close>

theorem classify_Captured_iff:
  "classify f = Captured \<longleftrightarrow>
     spec_accepts Default f \<and> 20 \<le> ihl_bytes f \<and> 14 + ihl_bytes f + 8 \<le> length f"
  by (rule classify_iff)

section \<open>Accounting\<close>

text \<open>A run of the program over a sequence of packets with the helper outcomes of each.\<close>

fun run_tc :: "(tc_env \<times> skb \<times> u8) list \<Rightarrow> tc_state \<Rightarrow> tc_state" where
  "run_tc [] s = s"
| "run_tc ((env, sk, ing) # ps) s = run_tc ps (snd (handle env sk ing s))"

definition tc_total :: "tc_state \<Rightarrow> u64" where
  "tc_total s = sum_list (drop_counters s) + of_nat (length (events s))"

text \<open>A packet the program decides about: not one it passes over for lack of a full header, and
  not a captured one of length zero.\<close>

definition decided :: "skb \<Rightarrow> bool" where
  "decided sk = (case classify (skb_data sk) of Untouched \<Rightarrow> False | Dropped r \<Rightarrow> True
     | Captured \<Rightarrow> skb_len sk \<noteq> 0)"

lemma reason_index_less: "reason_index r < 8"
  by (cases r) simp_all

lemma sum_list_bump:
  "i < length cs \<Longrightarrow> sum_list (cs[i := cs ! i + (1 :: u64)]) = sum_list cs + 1"
  by (induction cs arbitrary: i) (auto split: nat.splits)

lemma bump_drop_total:
  "length (drop_counters s) = 8 \<Longrightarrow>
     tc_total (bump_drop r s) = tc_total s + 1 \<and> length (drop_counters (bump_drop r s)) = 8"
  using reason_index_less [of r] by (simp add: bump_drop_def tc_total_def Let_def sum_list_bump)

lemma handle_total:
  assumes "length (drop_counters s) = 8"
  shows "tc_total (snd (handle env sk ing s)) = tc_total s + (if decided sk then 1 else 0) \<and>
    length (drop_counters (snd (handle env sk ing s))) = 8"
proof -
  have [simp]: "unat (skb_len sk) = 0 \<longleftrightarrow> skb_len sk = 0"
    by (simp add: unat_eq_0)
  show ?thesis using assms bump_drop_total [OF assms]
    by (auto simp: handle_def decided_def Let_def MAX_CAPTURE_def tc_total_def
        split: verdict.splits option.splits)
qed

lemma run_tc_total:
  assumes "length (drop_counters s) = 8"
  shows "tc_total (run_tc ps s) = tc_total s + of_nat (length (filter (\<lambda>(env, sk, ing). decided sk) ps)) \<and>
    length (drop_counters (run_tc ps s)) = 8"
  using assms
proof (induction ps arbitrary: s)
  case (Cons p ps)
  obtain env sk ing where p: "p = (env, sk, ing)" by (cases p)
  note handle_total [OF Cons.prems, of env sk ing]
  with Cons.IH [of "snd (handle env sk ing s)"] show ?case
    by (simp add: p)
qed simp

text \<open>C4: the kernel program loses no packet silently. Over any sequence of packets, whatever the
  ring buffer and the byte copy answer, the per-reason counters and the submitted events
  together grow by exactly one for every packet the program decides about (modulo the
  64-bit width of the counters).\<close>

theorem run_tc_accounting:
  assumes "length (drop_counters s) = 8"
  shows "tc_total (run_tc ps s) = tc_total s + of_nat (length (filter (\<lambda>(env, sk, ing). decided sk) ps))"
  using run_tc_total [OF assms] by simp

definition idle_tc :: tc_state where
  "idle_tc = \<lparr>drop_counters = replicate 8 0, events = []\<rparr>"

definition example_skb :: "bytes \<Rightarrow> skb" where
  "example_skb f = \<lparr>skb_data = f, skb_len = of_nat (length f), skb_ifindex = 2\<rparr>"

theorem run_tc_accounting_witness:
  "length (drop_counters idle_tc) = 8 \<and>
   tc_total (run_tc [(\<lparr>rb_reserve = None, skb_load_bytes = (\<lambda>n. None)\<rparr>,
       example_skb (buildFrame 0x0800 6 [10, 0, 0, 5] 40000 80), 1)] idle_tc) = 1"
proof -
  have h: "length (drop_counters idle_tc) = 8" by (simp add: idle_tc_def)
  have d: "decided (example_skb (buildFrame 0x0800 6 [10, 0, 0, 5] 40000 80))" by code_simp
  have z: "tc_total idle_tc = 0" by (simp add: tc_total_def idle_tc_def sum_list_replicate)
  show ?thesis unfolding run_tc_accounting [OF h] using h d z by simp
qed

end
