(* ===== verification/Tcbpf.thy ===== *)
theory Tcbpf
  imports Tc_Filter Kernel Capture "HOL-Library.Countable"
begin

text \<open>
  \<open>internal/capture/tcbpf.go\<close>: the TC-BPF backend. The calls into \<open>net\<close>, \<open>netlink\<close> and
  \<open>cilium/ebpf\<close> are the constructors of \<open>tcall\<close>; their answers come from a parameter \<open>os\<close>, as
  in theory \<open>Kernel\<close>. A BPF link is the handle that \<open>AttachTCX\<close> returned; \<open>open_links\<close> are the
  links of a history that were opened and not closed. The locale \<open>link_kernel\<close> states that a new
  link is none of the open ones.
\<close>

section \<open>Calls\<close>

datatype tcall =
    RemoveMemlock
  | LoadObjects
  | InterfaceByName string
  | LinkByIndex int
  | QdiscReplace int
  | AttachTCX int Direction
  | LinkClose int
  | NewReader
  | ReaderClose
  | ObjsClose

type_synonym thistory = "(tcall \<times> sysret) list"
type_synonym tos = "thistory \<Rightarrow> tcall \<Rightarrow> sysret"

fun link_step :: "int set \<Rightarrow> tcall \<times> sysret \<Rightarrow> int set" where
  "link_step S (AttachTCX i d, RetInt l) = insert l S"
| "link_step S (LinkClose l, r) = S - {l}"
| "link_step S (c, r) = S"

definition open_links :: "thistory \<Rightarrow> int set" where
  "open_links h = foldl link_step {} h"

fun link_closes_ok :: "int set \<Rightarrow> thistory \<Rightarrow> bool" where
  "link_closes_ok S [] = True"
| "link_closes_ok S ((c, r) # h) =
     ((case c of LinkClose l \<Rightarrow> l \<in> S | _ \<Rightarrow> True) \<and> link_closes_ok (link_step S (c, r)) h)"

definition good_link_closes :: "thistory \<Rightarrow> bool" where
  "good_link_closes h = link_closes_ok {} h"

section \<open>State\<close>

datatype tc_error = TcFailed string errno

record TCBPF =
  links :: "(int \<times> int list) list"
  ifaces :: "(int \<times> string) list"
  rb :: bool
  rbOnce :: bool
  captured :: u64
  closed :: bool

definition dropRBFullIndex :: nat where "dropRBFullIndex = 7"
definition evHdrLen :: nat where "evHdrLen = 4 + 4 + 1 + 3"
definition evDataLen :: nat where "evDataLen = 1536"

definition NewTCBPF :: "tos \<Rightarrow> thistory \<Rightarrow> (tc_error + TCBPF) \<times> thistory" where
  "NewTCBPF os h =
     (case sys os RemoveMemlock h of
        (RetErr e, h) \<Rightarrow> (Inl (TcFailed ''remove memlock'' e), h)
      | (RetInt _, h) \<Rightarrow>
     (case sys os LoadObjects h of
        (RetErr e, h) \<Rightarrow> (Inl (TcFailed ''load bpf objects'' e), h)
      | (RetInt _, h) \<Rightarrow>
          (Inr \<lparr>links = [], ifaces = [], rb = False, rbOnce = False, captured = 0, closed = False\<rparr>, h)))"

definition tc_Mode :: string where "tc_Mode = ''tcbpf''"

section \<open>attach\<close>

text \<open>The part of \<open>attach\<close> before the lock, and the commit under it: a concurrent caller may have
  attached the same interface in between.\<close>

definition attach_ingress :: "tos \<Rightarrow> int \<Rightarrow> thistory \<Rightarrow> (tc_error + int) \<times> thistory" where
  "attach_ingress os idx h =
     (case sys os (LinkByIndex idx) h of
        (RetErr e, h) \<Rightarrow> (Inl (TcFailed ''netlink lookup'' e), h)
      | (RetInt _, h) \<Rightarrow>
     (case sys os (QdiscReplace idx) h of
        (RetErr e, h) \<Rightarrow> (Inl (TcFailed ''qdisc clsact'' e), h)
      | (RetInt _, h) \<Rightarrow>
     (case sys os (AttachTCX idx DirIngress) h of
        (RetErr e, h) \<Rightarrow> (Inl (TcFailed ''attach ingress'' e), h)
      | (RetInt ing, h) \<Rightarrow> (Inr ing, h))))"

definition attach_egress :: "tos \<Rightarrow> int \<Rightarrow> int \<Rightarrow> thistory \<Rightarrow> (tc_error + int \<times> int) \<times> thistory" where
  "attach_egress os idx ing h =
     (case sys os (AttachTCX idx DirEgress) h of
        (RetErr e, h) \<Rightarrow> (Inl (TcFailed ''attach egress'' e), snd (sys os (LinkClose ing) h))
      | (RetInt egr, h) \<Rightarrow> (Inr (ing, egr), h))"

definition attach_links :: "tos \<Rightarrow> int \<Rightarrow> thistory \<Rightarrow> (tc_error + int \<times> int) \<times> thistory" where
  "attach_links os idx h =
     (case attach_ingress os idx h of
        (Inl e, h) \<Rightarrow> (Inl e, h)
      | (Inr ing, h) \<Rightarrow> attach_egress os idx ing h)"

definition attach_store ::
  "tos \<Rightarrow> int \<Rightarrow> string \<Rightarrow> int \<times> int \<Rightarrow> TCBPF \<Rightarrow> thistory \<Rightarrow> TCBPF \<times> thistory" where
  "attach_store os idx name ls t h =
     (case ls of (ing, egr) \<Rightarrow>
        if idx \<in> fst ` set (links t)
        then (t, snd (sys os (LinkClose egr) (snd (sys os (LinkClose ing) h))))
        else (t\<lparr>links := AList.update idx [ing, egr] (links t),
                ifaces := AList.update idx name (ifaces t)\<rparr>, h))"

definition tc_attach ::
  "tos \<Rightarrow> int \<Rightarrow> string \<Rightarrow> TCBPF \<Rightarrow> thistory \<Rightarrow> tc_error option \<times> TCBPF \<times> thistory" where
  "tc_attach os idx name t h =
     (case attach_links os idx h of
        (Inl e, h) \<Rightarrow> (Some e, t, h)
      | (Inr ls, h) \<Rightarrow> (None, attach_store os idx name ls t h))"

section \<open>Start\<close>

fun start_attach :: "tos \<Rightarrow> string list \<Rightarrow> TCBPF \<Rightarrow> thistory \<Rightarrow> TCBPF \<times> thistory" where
  "start_attach os [] t h = (t, h)"
| "start_attach os (name # names) t h =
     (case sys os (InterfaceByName name) h of
        (RetErr e, h) \<Rightarrow> start_attach os names t h
      | (RetInt idx, h) \<Rightarrow>
          (case tc_attach os idx name t h of (r, t, h) \<Rightarrow> start_attach os names t h))"

definition tc_Start :: "tos \<Rightarrow> string list \<Rightarrow> TCBPF \<Rightarrow> thistory \<Rightarrow> tc_error option \<times> TCBPF \<times> thistory" where
  "tc_Start os names t h =
     (case start_attach os names t h of (t, h) \<Rightarrow>
      case sys os NewReader h of
        (RetErr e, h) \<Rightarrow> (Some (TcFailed ''ringbuf reader'' e), t, h)
      | (RetInt _, h) \<Rightarrow> (None, t\<lparr>rb := True\<rparr>, h))"

section \<open>Attach, Detach, Close\<close>

definition tc_Attach :: "tos \<Rightarrow> string \<Rightarrow> TCBPF \<Rightarrow> thistory \<Rightarrow> tc_error option \<times> TCBPF \<times> thistory" where
  "tc_Attach os iface t h =
     (case sys os (InterfaceByName iface) h of
        (RetErr e, h) \<Rightarrow> (None, t, h)
      | (RetInt idx, h) \<Rightarrow>
          if idx \<in> fst ` set (links t) then (None, t, h) else tc_attach os idx iface t h)"

fun close_links :: "tos \<Rightarrow> int list \<Rightarrow> thistory \<Rightarrow> thistory" where
  "close_links os [] h = h"
| "close_links os (l # ls) h = close_links os ls (snd (sys os (LinkClose l) h))"

definition tc_Detach :: "tos \<Rightarrow> string \<Rightarrow> TCBPF \<Rightarrow> thistory \<Rightarrow> TCBPF \<times> thistory" where
  "tc_Detach os iface t h =
     (case sys os (InterfaceByName iface) h of
        (RetErr e, h) \<Rightarrow> (t, h)
      | (RetInt idx, h) \<Rightarrow>
     (case map_of (links t) idx of
        None \<Rightarrow> (t, h)
      | Some ls \<Rightarrow>
          (t\<lparr>links := AList.delete idx (links t), ifaces := AList.delete idx (ifaces t)\<rparr>,
           close_links os ls h)))"

text \<open>\<open>closeRB\<close>: once, and only a reader that exists. \<open>Close\<close>, from the moment the reader goroutine
  has left; \<open>rng\<close> is the order in which \<open>range\<close> visits the link map. The first error is kept.\<close>

definition closeRB :: "tos \<Rightarrow> TCBPF \<Rightarrow> thistory \<Rightarrow> errno option \<times> TCBPF \<times> thistory" where
  "closeRB os t h =
     (if rbOnce t then (None, t, h)
      else if rb t then
        (case sys os ReaderClose h of
           (RetErr e, h) \<Rightarrow> (Some e, t\<lparr>rbOnce := True\<rparr>, h)
         | (RetInt _, h) \<Rightarrow> (None, t\<lparr>rbOnce := True\<rparr>, h))
      else (None, t\<lparr>rbOnce := True\<rparr>, h))"

fun close_all_links :: "tos \<Rightarrow> int list \<Rightarrow> errno option \<Rightarrow> thistory \<Rightarrow> errno option \<times> thistory" where
  "close_all_links os [] firstErr h = (firstErr, h)"
| "close_all_links os (l # ls) firstErr h =
     (case sys os (LinkClose l) h of
        (RetErr e, h) \<Rightarrow> close_all_links os ls (if firstErr = None then Some e else firstErr) h
      | (RetInt _, h) \<Rightarrow> close_all_links os ls firstErr h)"

definition close_tables ::
  "tos \<Rightarrow> ((int \<times> int list) list \<Rightarrow> (int \<times> int list) list) \<Rightarrow> errno option \<Rightarrow> TCBPF \<Rightarrow> thistory \<Rightarrow>
     errno option \<times> TCBPF \<times> thistory"
where
  "close_tables os rng firstErr t h =
     (case close_all_links os (concat (map snd (rng (links t)))) firstErr h of
        (firstErr, h) \<Rightarrow> (firstErr, t\<lparr>links := [], ifaces := []\<rparr>, h))"

definition tc_Close ::
  "tos \<Rightarrow> ((int \<times> int list) list \<Rightarrow> (int \<times> int list) list) \<Rightarrow> TCBPF \<Rightarrow> thistory \<Rightarrow>
     errno option \<times> TCBPF \<times> thistory"
where
  "tc_Close os rng t h =
     (if closed t then (None, t, h)
      else
        case closeRB os t h of (firstErr, t, h) \<Rightarrow>
        case close_tables os rng firstErr t h of (firstErr, t, h) \<Rightarrow>
        let t = t\<lparr>closed := True\<rparr> in
        case sys os ObjsClose h of
          (RetErr e, h) \<Rightarrow> (if firstErr = None then Some e else firstErr, t, h)
        | (RetInt _, h) \<Rightarrow> (firstErr, t, h))"

section \<open>reader\<close>

text \<open>The results of successive \<open>rb.Read()\<close> calls; with a sample comes the arm of the \<open>select\<close>
  that ran. The value \<open>None\<close> of \<open>read_sample\<close> would be an out-of-range slice.\<close>

datatype rb_result = RbClosed | RbErr | RbSample bytes bool

definition read_sample :: "(int \<times> string) list \<Rightarrow> bytes \<Rightarrow> Packet option" where
  "read_sample names raw =
     (let wireLen = LittleEndian_Uint32 (raw ! 0) (raw ! 1) (raw ! 2) (raw ! 3);
          ifindex = LittleEndian_Uint32 (raw ! 4) (raw ! 5) (raw ! 6) (raw ! 7);
          ingress = (raw ! 8 = 1);
          payloadLen = unat wireLen;
          payloadLen = (if payloadLen > evDataLen then evDataLen else payloadLen);
          payloadLen = (if evHdrLen + payloadLen > length raw then length raw - evHdrLen else payloadLen);
          ifaceName = (case map_of names (uint ifindex) of Some n \<Rightarrow> n | None \<Rightarrow> [])
      in case slice raw evHdrLen (evHdrLen + payloadLen) of
           None \<Rightarrow> None
         | Some d \<Rightarrow> Some \<lparr>Data = d, Iface = ifaceName, Dir = (if ingress then DirIngress else DirEgress)\<rparr>)"

fun reader :: "rb_result list \<Rightarrow> TCBPF \<Rightarrow> Packet list \<Rightarrow> (bool \<times> TCBPF \<times> Packet list) option" where
  "reader [] t out = Some (True, t, out)"
| "reader (RbClosed # rs) t out = Some (False, t, out)"
| "reader (RbErr # rs) t out = reader rs t out"
| "reader (RbSample raw sent # rs) t out =
     (if length raw < evHdrLen then reader rs t out
      else case read_sample (ifaces t) raw of
          None \<Rightarrow> None
        | Some pkt \<Rightarrow>
            (let t = t\<lparr>captured := captured t + 1\<rparr> in
             if sent then reader rs t (out @ [pkt]) else Some (False, t, out)))"

section \<open>Stats\<close>

text \<open>\<open>lookup\<close>: the per-CPU values of a slot of \<open>drop_counters\<close>, or a failed lookup.\<close>

definition readDropCounter :: "(nat \<Rightarrow> u64 list option) \<Rightarrow> nat \<Rightarrow> u64" where
  "readDropCounter lookup idx = (case lookup idx of None \<Rightarrow> 0 | Some per \<Rightarrow> foldl (+) 0 per)"

definition tc_Stats :: "(nat \<Rightarrow> u64 list option) \<Rightarrow> TCBPF \<Rightarrow> Stats" where
  "tc_Stats lookup t =
     \<lparr>CapturedPackets = captured t,
      KernelDrops = readDropCounter lookup dropRBFullIndex,
      FilterDrops = map (\<lambda>(i, r). (r, readDropCounter lookup i)) (enumerate 0 AllReasons)\<rparr>"

section \<open>Laws of the kernel side\<close>

locale link_kernel =
  fixes os :: tos and index :: "string \<Rightarrow> int"
  assumes fresh_link: "os h (AttachTCX i d) = RetInt l \<Longrightarrow> l \<notin> open_links h"
    and closed_objs: "ObjsClose \<in> fst ` set h \<Longrightarrow> os h (AttachTCX i d) \<noteq> RetInt l"
    and name_index: "os h (InterfaceByName n) = RetInt i \<Longrightarrow> i = index n"
    and index_inj: "index m = index n \<longleftrightarrow> m = n"

text \<open>A reference kernel in which every interface exists.\<close>

definition ref_tc :: "(string \<Rightarrow> int) \<Rightarrow> tos" where
  "ref_tc index h c =
     (case c of
        InterfaceByName n \<Rightarrow> RetInt (index n)
      | AttachTCX i d \<Rightarrow>
          (let l = lowest_free (open_links h) (length h) in
           if l < 0 \<or> ObjsClose \<in> fst ` set h then RetErr EBADF else RetInt l)
      | _ \<Rightarrow> RetInt 0)"

definition ref_index :: "string \<Rightarrow> int" where "ref_index n = int (to_nat n)"

interpretation ref_link: link_kernel "ref_tc ref_index" ref_index
  by unfold_locales
    (auto simp: ref_tc_def ref_index_def Let_def lowest_free_notin split: if_splits)

section \<open>Lemmas: links\<close>

lemma open_links_Nil [simp]: "open_links [] = {}"
  by (simp add: open_links_def)

lemma open_links_append [simp]: "open_links (h @ es) = foldl link_step (open_links h) es"
  by (simp add: open_links_def)

lemma link_closes_ok_append:
  "link_closes_ok S (h @ h') \<longleftrightarrow> link_closes_ok S h \<and> link_closes_ok (foldl link_step S h) h'"
  by (induction S h rule: link_closes_ok.induct) auto

lemma good_link_closes_Nil [simp]: "good_link_closes []"
  by (simp add: good_link_closes_def)

lemma good_link_closes_append [simp]:
  "good_link_closes (h @ es) \<longleftrightarrow> good_link_closes h \<and> link_closes_ok (open_links h) es"
  by (simp add: good_link_closes_def link_closes_ok_append open_links_def)

abbreviation table_links :: "TCBPF \<Rightarrow> int list" where
  "table_links t \<equiv> concat (map snd (links t))"

text \<open>The links of the table are distinct and, together with \<open>X\<close>, the links a caller holds, are
  all the open ones; the two maps have the same distinct keys; none was closed twice.\<close>

definition tc_owns :: "int set \<Rightarrow> TCBPF \<Rightarrow> thistory \<Rightarrow> bool" where
  "tc_owns X t h \<longleftrightarrow>
     distinct (map fst (links t)) \<and> map fst (ifaces t) = map fst (links t) \<and>
     distinct (table_links t) \<and> good_link_closes h \<and>
     open_links h = set (table_links t) \<union> X \<and> set (table_links t) \<inter> X = {}"

lemma tc_owns_fields [simp]:
  "tc_owns X (t\<lparr>rbOnce := b\<rparr>) h = tc_owns X t h" "tc_owns X (t\<lparr>rb := b\<rparr>) h = tc_owns X t h"
  by (simp_all add: tc_owns_def)

lemma tc_owns_other:
  "tc_owns X t h \<Longrightarrow> (\<forall>i d. c \<noteq> AttachTCX i d) \<Longrightarrow> (\<forall>l. c \<noteq> LinkClose l) \<Longrightarrow> tc_owns X t (h @ [(c, r)])"
  by (cases c) (simp_all add: tc_owns_def)

lemma tc_owns_open:
  "tc_owns X t h \<Longrightarrow> l \<notin> open_links h \<Longrightarrow> tc_owns (insert l X) t (h @ [(AttachTCX i d, RetInt l)]) \<and> l \<notin> X"
  by (simp add: tc_owns_def)

lemma tc_owns_err: "tc_owns X t h \<Longrightarrow> tc_owns X t (h @ [(AttachTCX i d, RetErr e)])"
  by (simp add: tc_owns_def)

lemma tc_owns_close:
  "tc_owns (insert l X) t h \<Longrightarrow> l \<notin> X \<Longrightarrow> tc_owns X t (h @ [(LinkClose l, r)])"
  by (auto simp: tc_owns_def)

lemma close_links_fds:
  "distinct ls \<Longrightarrow> set ls \<subseteq> open_links h \<Longrightarrow> good_link_closes h \<Longrightarrow>
     good_link_closes (close_links os ls h) \<and> open_links (close_links os ls h) = open_links h - set ls"
proof (induction ls arbitrary: h)
  case (Cons l ls)
  let ?h = "h @ [(LinkClose l, os h (LinkClose l))]"
  from Cons.prems have "set ls \<subseteq> open_links ?h" "good_link_closes ?h" by auto
  with Cons.IH [of ?h] Cons.prems show ?case by (simp add: sys_eq) blast
qed simp

lemma close_all_links_history: "snd (close_all_links os ls e h) = close_links os ls h"
  by (induction os ls e h rule: close_all_links.induct) (auto simp: sys_eq split: sysret.splits)

lemma delete_split:
  assumes "distinct (map fst al)" "map_of al k = Some v"
  obtains xs ys where "al = xs @ (k, v) # ys" "AList.delete k al = xs @ ys"
proof -
  from assms(2) obtain xs ys where al: "al = xs @ (k, v) # ys" by (meson map_of_SomeD split_list)
  with assms(1) have "k \<notin> fst ` set xs" "k \<notin> fst ` set ys" by auto
  then have "filter (\<lambda>(k', _). k \<noteq> k') xs = xs" "filter (\<lambda>(k', _). k \<noteq> k') ys = ys"
    by (force intro!: filter_True)+
  with al that show ?thesis by (simp add: AList.delete_eq)
qed

lemma delete_links:
  assumes "distinct (map fst al)" "distinct (concat (map snd al))" "map_of al k = Some ls"
  shows "distinct (concat (map snd (AList.delete k al)))"
    "set (concat (map snd (AList.delete k al))) = set (concat (map snd al)) - set ls"
    "set ls \<subseteq> set (concat (map snd al))" "distinct ls"
proof -
  obtain xs ys where d: "al = xs @ (k, ls) # ys" "AList.delete k al = xs @ ys"
    using delete_split [OF assms(1,3)] .
  define A B where "A = concat (map snd xs)" and "B = concat (map snd ys)"
  have e: "concat (map snd (AList.delete k al)) = A @ B" "concat (map snd al) = A @ ls @ B"
    unfolding d(2) A_def B_def by (simp, simp add: d(1))
  have "distinct (A @ ls @ B)" using assms(2) unfolding e .
  then show "distinct (concat (map snd (AList.delete k al)))"
    "set (concat (map snd (AList.delete k al))) = set (concat (map snd al)) - set ls"
    "set ls \<subseteq> set (concat (map snd al))" "distinct ls"
    unfolding e by auto
qed

lemma tc_owns_drop:
  assumes "tc_owns X t h" "map_of (links t) idx = Some ls"
  shows "tc_owns X (t\<lparr>links := AList.delete idx (links t), ifaces := AList.delete idx (ifaces t)\<rparr>)
    (close_links os ls h)"
proof -
  have d: "distinct (map fst (links t))" "distinct (table_links t)" using assms(1) by (simp_all add: tc_owns_def)
  note del = delete_links [OF d assms(2)]
  have keys: "distinct (map fst (AList.delete idx (links t)))"
    "map fst (AList.delete idx (ifaces t)) = map fst (AList.delete idx (links t))"
    using assms(1) by (simp_all add: tc_owns_def AList.delete_keys distinct_removeAll)
  have "good_link_closes (close_links os ls h) \<and> open_links (close_links os ls h) = open_links h - set ls"
    by (rule close_links_fds) (use del assms(1) in \<open>auto simp: tc_owns_def\<close>)
  with del keys assms(1) show ?thesis by (auto simp: tc_owns_def)
qed

lemma attach_store_owns:
  assumes "tc_owns (insert i (insert j X)) t h" "i \<notin> X" "j \<notin> insert i X"
    "attach_store os idx n (i, j) t h = (t', h')"
  shows "tc_owns X t' h'"
proof (cases "idx \<in> fst ` set (links t)")
  case True
  have "tc_owns X t ((h @ [(LinkClose i, r)]) @ [(LinkClose j, r')])" for r r'
    by (rule tc_owns_close [OF tc_owns_close]) (use assms in auto)
  with True assms(4) show ?thesis by (auto simp: attach_store_def sys_eq)
next
  case False
  moreover have "fst ` set (ifaces t) = fst ` set (links t)"
    using assms(1) by (metis tc_owns_def list.set_map)
  ultimately have "t' = t\<lparr>links := links t @ [(idx, [i, j])], ifaces := ifaces t @ [(idx, n)]\<rparr>" "h' = h"
    using assms(4) by (simp_all add: attach_store_def update_fresh)
  with assms(1-3) False show ?thesis by (auto simp: tc_owns_def)
qed

lemma attach_store_tables:
  assumes "attach_store os idx n ls t h = (t', h')" "map fst (ifaces t) = map fst (links t)"
  shows "ifaces t' = ifaces t \<or> ifaces t' = ifaces t @ [(idx, n)]" "closed t' = closed t" "set h \<subseteq> set h'"
    "links t' = links t \<or> (\<exists>i j. ls = (i, j) \<and> links t' = links t @ [(idx, [i, j])])"
proof -
  have "fst ` set (ifaces t) = fst ` set (links t)" using assms(2) by (metis list.set_map)
  with assms(1) show "ifaces t' = ifaces t \<or> ifaces t' = ifaces t @ [(idx, n)]" "closed t' = closed t"
    "set h \<subseteq> set h'" "links t' = links t \<or> (\<exists>i j. ls = (i, j) \<and> links t' = links t @ [(idx, [i, j])])"
    by (auto simp: attach_store_def sys_eq update_fresh split: prod.splits if_splits)
qed

context link_kernel
begin

lemma attach_ingress_owns:
  assumes "tc_owns X t h" "attach_ingress os idx h = (r, h')"
  shows "case r of Inl e \<Rightarrow> tc_owns X t h'
    | Inr i \<Rightarrow> tc_owns (insert i X) t h' \<and> i \<notin> X \<and> ObjsClose \<notin> fst ` set h'"
    and "set h \<subseteq> set h'"
proof -
  show "set h \<subseteq> set h'"
    using assms(2) by (auto simp: attach_ingress_def sys_eq split: sysret.splits)
  have h1: "tc_owns X t (h @ [(LinkByIndex idx, x)])" for x
    using assms(1) by (rule tc_owns_other) simp_all
  have h2: "tc_owns X t (h @ [(LinkByIndex idx, x), (QdiscReplace idx, y)])" for x y
    using tc_owns_other [OF h1 [of x], of "QdiscReplace idx" y] by simp
  have h3: "tc_owns (insert i X) t (h @ [(LinkByIndex idx, x), (QdiscReplace idx, y), (AttachTCX idx DirIngress, RetInt i)]) \<and>
      i \<notin> X \<and> ObjsClose \<notin> fst ` set h"
    if "os (h @ [(LinkByIndex idx, x), (QdiscReplace idx, y)]) (AttachTCX idx DirIngress) = RetInt i" for x y i
    using tc_owns_open [OF h2 fresh_link [OF that]] closed_objs [OF _ , of _ idx DirIngress i] that by auto
  have h4: "tc_owns X t (h @ [(LinkByIndex idx, x), (QdiscReplace idx, y), (AttachTCX idx DirIngress, RetErr e)])" for x y e
    using tc_owns_err [OF h2, of x y idx DirIngress e] by simp
  show "case r of Inl e \<Rightarrow> tc_owns X t h'
    | Inr i \<Rightarrow> tc_owns (insert i X) t h' \<and> i \<notin> X \<and> ObjsClose \<notin> fst ` set h'"
    using assms(2) h1 h2 h3 h4 by (auto simp: attach_ingress_def sys_eq split: sysret.splits)
qed

lemma attach_egress_owns:
  assumes "tc_owns (insert i X) t h" "i \<notin> X" "attach_egress os idx i h = (r, h')"
  shows "case r of Inl e \<Rightarrow> tc_owns X t h'
    | Inr (i', j) \<Rightarrow> i' = i \<and> tc_owns (insert i (insert j X)) t h' \<and> j \<notin> insert i X"
    and "set h \<subseteq> set h'"
proof -
  show "set h \<subseteq> set h'"
    using assms(3) by (auto simp: attach_egress_def sys_eq split: sysret.splits)
  show "case r of Inl e \<Rightarrow> tc_owns X t h'
    | Inr (i', j) \<Rightarrow> i' = i \<and> tc_owns (insert i (insert j X)) t h' \<and> j \<notin> insert i X"
  proof (cases "os h (AttachTCX idx DirEgress)")
    case (RetInt j)
    with tc_owns_open [OF assms(1) fresh_link [OF this]] assms(3) show ?thesis
      by (auto simp: attach_egress_def sys_eq insert_commute)
  next
    case (RetErr x)
    with tc_owns_close [OF tc_owns_err [OF assms(1)] assms(2)] assms(3) show ?thesis
      by (auto simp: attach_egress_def sys_eq)
  qed
qed

lemma attach_links_owns:
  assumes "tc_owns X t h" "attach_links os idx h = (r, h')"
  shows "case r of Inl e \<Rightarrow> tc_owns X t h'
    | Inr (i, j) \<Rightarrow> tc_owns (insert i (insert j X)) t h' \<and> i \<notin> X \<and> j \<notin> insert i X \<and>
        ObjsClose \<notin> fst ` set h"
    and "set h \<subseteq> set h'"
proof -
  obtain q h1 where i: "attach_ingress os idx h = (q, h1)" by fastforce
  note ing = attach_ingress_owns [OF assms(1) i]
  have "(case r of Inl e \<Rightarrow> tc_owns X t h'
    | Inr (i, j) \<Rightarrow> tc_owns (insert i (insert j X)) t h' \<and> i \<notin> X \<and> j \<notin> insert i X \<and>
        ObjsClose \<notin> fst ` set h) \<and> set h \<subseteq> set h'"
  proof (cases q)
    case (Inl e)
    with ing i assms(2) show ?thesis by (auto simp: attach_links_def)
  next
    case (Inr l)
    with i assms(2) have e: "attach_egress os idx l h1 = (r, h')" by (simp add: attach_links_def)
    have o: "tc_owns (insert l X) t h1" "l \<notin> X" "ObjsClose \<notin> fst ` set h" using ing Inr by auto
    from attach_egress_owns [OF o(1,2) e] o ing(2) show ?thesis by (auto split: sum.splits)
  qed
  then show "case r of Inl e \<Rightarrow> tc_owns X t h'
    | Inr (i, j) \<Rightarrow> tc_owns (insert i (insert j X)) t h' \<and> i \<notin> X \<and> j \<notin> insert i X \<and>
        ObjsClose \<notin> fst ` set h" and "set h \<subseteq> set h'" by blast+
qed

end

section \<open>The contract of a capturer\<close>

type_synonym tcs = "TCBPF \<times> thistory"
type_synonym links_rng = "(int \<times> int list) list \<Rightarrow> (int \<times> int list) list"

definition tc_att :: "tos \<Rightarrow> string \<Rightarrow> tcs \<Rightarrow> tcs" where
  "tc_att os n s = (case s of (t, h) \<Rightarrow> snd (tc_Attach os n t h))"

definition tc_det :: "tos \<Rightarrow> string \<Rightarrow> tcs \<Rightarrow> tcs" where
  "tc_det os n s = (case s of (t, h) \<Rightarrow> tc_Detach os n t h)"

definition tc_cls :: "tos \<Rightarrow> links_rng \<Rightarrow> tcs \<Rightarrow> tcs" where
  "tc_cls os rng s = (case s of (t, h) \<Rightarrow> snd (tc_Close os rng t h))"

definition tc_attached :: "tcs \<Rightarrow> string set" where
  "tc_attached s = snd ` set (ifaces (fst s))"

definition tc_inv :: "(string \<Rightarrow> int) \<Rightarrow> tcs \<Rightarrow> bool" where
  "tc_inv index s \<longleftrightarrow>
     (case s of (t, h) \<Rightarrow>
        tc_owns {} t h \<and> (\<forall>(i, n) \<in> set (ifaces t). i = index n) \<and>
        (closed t \<longrightarrow> ifaces t = [] \<and> ObjsClose \<in> fst ` set h))"

lemma tc_inv_other:
  "tc_inv index (t, h) \<Longrightarrow> (\<forall>i d. c \<noteq> AttachTCX i d) \<Longrightarrow> (\<forall>l. c \<noteq> LinkClose l) \<Longrightarrow>
     tc_inv index (t, h @ [(c, r)])"
  using tc_owns_other [of "{}" t h c r] by (auto simp: tc_inv_def)

lemma tc_closeRB:
  assumes "closeRB os t h = (e, t', h')" "tc_owns X t h"
  shows "tc_owns X t' h'" "links t' = links t" "ifaces t' = ifaces t" "closed t' = closed t" "set h \<subseteq> set h'"
proof -
  have "tc_owns X t (h @ [(ReaderClose, r)])" for r using assms(2) by (rule tc_owns_other) simp_all
  with assms show "tc_owns X t' h'"
    by (auto simp: closeRB_def sys_eq split: sysret.splits if_splits)
  show "links t' = links t" "ifaces t' = ifaces t" "closed t' = closed t" "set h \<subseteq> set h'"
    using assms(1) by (auto simp: closeRB_def sys_eq split: sysret.splits if_splits)
qed

lemma tc_Close_tables: "\<not> closed t \<Longrightarrow> tc_Close os rng t h = (e, t', h') \<Longrightarrow> ifaces t' = [] \<and> links t' = []"
  by (auto simp: tc_Close_def close_tables_def Let_def split: prod.splits sysret.splits)

lemma close_tables_owns:
  assumes "range_order rng" "tc_owns X t h" "close_tables os rng e t h = (e', t', h')"
  shows "tc_owns X t' h'" "t' = t\<lparr>links := [], ifaces := []\<rparr>" "open_links h' = X"
proof -
  let ?ls = "concat (map snd (rng (links t)))"
  have m: "mset ?ls = mset (table_links t)" using assms(1) by (rule range_order_facts)
  then have "distinct ?ls" "set ?ls = set (table_links t)"
    using assms(2) mset_eq_imp_distinct_iff mset_eq_setD unfolding tc_owns_def by blast+
  then have c: "good_link_closes (close_links os ?ls h)" "open_links (close_links os ?ls h) = X"
    using close_links_fds [of ?ls h os] assms(2) unfolding tc_owns_def
    by (metis Diff_cancel Un_Diff Un_upper1 Diff_triv inf_commute sup_bot_left)+
  have "close_all_links os ?ls e h = (e', close_links os ?ls h)" "t' = t\<lparr>links := [], ifaces := []\<rparr>"
    "h' = close_links os ?ls h"
    using assms(3) close_all_links_history [of os ?ls e h] by (auto simp: close_tables_def split: prod.splits)
  with c show "tc_owns X t' h'" "t' = t\<lparr>links := [], ifaces := []\<rparr>" "open_links h' = X"
    by (simp_all add: tc_owns_def)
qed

lemma tc_Close_owns:
  assumes "range_order rng" "tc_owns X t h" "\<not> closed t" "tc_Close os rng t h = (e, t', h')"
  shows "good_link_closes h' \<and> open_links h' = X \<and> closed t' \<and> links t' = []"
proof -
  obtain e1 t1 h1 where rb: "closeRB os t h = (e1, t1, h1)" by (metis prod_cases3)
  obtain e2 t2 h2 where ct: "close_tables os rng e1 t1 h1 = (e2, t2, h2)" by (metis prod_cases3)
  note c = close_tables_owns [OF assms(1) tc_closeRB(1) [OF rb assms(2)] ct]
  show ?thesis
    using assms(3,4) c by (auto simp: tc_Close_def rb ct sys_eq Let_def tc_owns_def split: sysret.splits)
qed

context link_kernel
begin

lemma tc_attach_inv:
  assumes "tc_inv index (t, h)" "tc_attach os (index n) n t h = (r, t', h')"
  shows "tc_inv index (t', h')" "ifaces t' = ifaces t \<or> ifaces t' = ifaces t @ [(index n, n)]"
    "closed t' = closed t"
proof -
  have o: "tc_owns {} t h" using assms(1) by (simp add: tc_inv_def)
  obtain s h1 where l: "attach_links os (index n) h = (s, h1)" by fastforce
  note links = attach_links_owns [OF o l]
  have "tc_inv index (t', h') \<and> (ifaces t' = ifaces t \<or> ifaces t' = ifaces t @ [(index n, n)]) \<and> closed t' = closed t"
  proof (cases s)
    case (Inl e)
    with assms links l show ?thesis by (auto simp: tc_attach_def tc_inv_def)
  next
    case (Inr ls)
    obtain i j where ls: "ls = (i, j)" by fastforce
    have st: "attach_store os (index n) n (i, j) t h1 = (t', h')"
      using assms(2) Inr ls l by (simp add: tc_attach_def)
    have o1: "tc_owns {i, j} t h1" "j \<notin> {i}" "ObjsClose \<notin> fst ` set h" using links Inr ls by simp_all
    have "tc_owns {} t' h'" by (rule attach_store_owns [OF _ _ _ st]) (use o1 in auto)
    moreover have "\<not> closed t" using assms(1) o1(3) by (simp add: tc_inv_def)
    ultimately show ?thesis
      using attach_store_tables [OF st] o1(1) assms(1) by (auto simp: tc_inv_def tc_owns_def)
  qed
  then show "tc_inv index (t', h')" "ifaces t' = ifaces t \<or> ifaces t' = ifaces t @ [(index n, n)]"
    "closed t' = closed t" by blast+
qed

lemma tc_Attach_inv:
  assumes "tc_inv index (t, h)" "tc_Attach os n t h = (r, t', h')"
  shows "tc_inv index (t', h')" "ifaces t' = ifaces t \<or> ifaces t' = ifaces t @ [(index n, n)]"
    "closed t' = closed t"
proof -
  have i: "tc_inv index (t, h @ [(InterfaceByName n, x)])" for x using assms(1) by (rule tc_inv_other) simp_all
  have "tc_inv index (t', h') \<and> (ifaces t' = ifaces t \<or> ifaces t' = ifaces t @ [(index n, n)]) \<and> closed t' = closed t"
  proof (cases "os h (InterfaceByName n)")
    case (RetInt idx)
    from name_index [OF RetInt] RetInt i assms(2) tc_attach_inv [OF i] show ?thesis
      by (auto simp: tc_Attach_def sys_eq split: if_splits)
  next
    case (RetErr e)
    with i assms(2) show ?thesis by (auto simp: tc_Attach_def sys_eq)
  qed
  then show "tc_inv index (t', h')" "ifaces t' = ifaces t \<or> ifaces t' = ifaces t @ [(index n, n)]"
    "closed t' = closed t" by blast+
qed

lemma delete_names:
  assumes "\<forall>(i, n) \<in> set al. i = index n"
  shows "snd ` set (AList.delete (index n) al) = snd ` set al - {n}"
proof -
  have "(i, m) \<in> set al \<Longrightarrow> index n \<noteq> i \<longleftrightarrow> m \<noteq> n" for i m using assms index_inj [of n m] by auto
  then have "filter (\<lambda>(i, m). index n \<noteq> i) al = filter (\<lambda>(i, m). m \<noteq> n) al" by (auto intro!: filter_cong)
  then show ?thesis unfolding AList.delete_eq by force
qed

lemma tc_Detach_inv:
  assumes "tc_inv index (t, h)" "tc_Detach os n t h = (t', h')"
  shows "tc_inv index (t', h')" "closed t' = closed t"
    "case os h (InterfaceByName n) of
       RetErr e \<Rightarrow> t' = t \<and> open_links h' = open_links h
     | RetInt i \<Rightarrow> snd ` set (ifaces t') = snd ` set (ifaces t) - {n}"
proof -
  have i: "tc_inv index (t, h @ [(InterfaceByName n, x)])" for x using assms(1) by (rule tc_inv_other) simp_all
  have keys: "fst ` set (ifaces t) = fst ` set (links t)"
    using assms(1) by (metis (no_types, lifting) tc_inv_def tc_owns_def list.set_map case_prod_conv)
  have names: "\<forall>(i, n) \<in> set (ifaces t). i = index n" using assms(1) by (simp add: tc_inv_def)
  have "tc_inv index (t', h') \<and> closed t' = closed t \<and> (case os h (InterfaceByName n) of
       RetErr e \<Rightarrow> t' = t \<and> open_links h' = open_links h
     | RetInt i \<Rightarrow> snd ` set (ifaces t') = snd ` set (ifaces t) - {n})"
  proof (cases "os h (InterfaceByName n)")
    case (RetErr e)
    with i assms(2) show ?thesis by (auto simp: tc_Detach_def sys_eq)
  next
    case (RetInt idx)
    let ?h = "h @ [(InterfaceByName n, RetInt idx)]"
    have idx: "idx = index n" using name_index [OF RetInt] .
    show ?thesis
    proof (cases "map_of (links t) idx")
      case None
      then have "index n \<notin> fst ` set (ifaces t)" using keys idx by (simp add: map_of_eq_None_iff)
      then have "n \<notin> snd ` set (ifaces t)" using names by force
      with None RetInt i assms(2) show ?thesis by (auto simp: tc_Detach_def sys_eq)
    next
      case (Some ls)
      have t': "t' = t\<lparr>links := AList.delete idx (links t), ifaces := AList.delete idx (ifaces t)\<rparr>"
        "h' = close_links os ls ?h" using Some RetInt assms(2) by (auto simp: tc_Detach_def sys_eq)
      have "tc_owns {} t' h'"
        unfolding t' by (rule tc_owns_drop) (use i [of "RetInt idx"] Some in \<open>simp_all add: tc_inv_def\<close>)
      moreover have "\<not> closed t" using Some keys assms(1) by (auto simp: tc_inv_def dest: map_of_SomeD)
      moreover have "\<forall>(i, n) \<in> set (ifaces t'). i = index n" using names by (auto simp: t' AList.delete_eq)
      ultimately show ?thesis using delete_names [OF names, of n] RetInt by (simp add: tc_inv_def t' idx)
    qed
  qed
  then show "tc_inv index (t', h')" "closed t' = closed t"
    "case os h (InterfaceByName n) of
       RetErr e \<Rightarrow> t' = t \<and> open_links h' = open_links h
     | RetInt i \<Rightarrow> snd ` set (ifaces t') = snd ` set (ifaces t) - {n}" by blast+
qed

end

sublocale link_kernel \<subseteq> tc: capturer "tc_att os" "tc_det os" "tc_cls os rng" tc_attached "tc_inv index"
  for rng
proof
  fix s :: tcs and n
  obtain t h where s: "s = (t, h)" by fastforce
  assume i: "tc_inv index s"
  obtain r t1 h1 where att: "tc_Attach os n t h = (r, t1, h1)" by (metis prod_cases3)
  obtain t2 h2 where det: "tc_Detach os n t h = (t2, h2)" by fastforce
  from tc_Attach_inv [OF i [unfolded s] att]
  show "tc_inv index (tc_att os n s)" "tc_attached s \<subseteq> tc_attached (tc_att os n s)"
    "tc_attached (tc_att os n s) \<subseteq> insert n (tc_attached s)"
    by (auto simp: tc_att_def tc_attached_def s att)
  from tc_Detach_inv [OF i [unfolded s] det]
  show "tc_inv index (tc_det os n s)" "tc_attached s - {n} \<subseteq> tc_attached (tc_det os n s)"
    "tc_attached (tc_det os n s) \<subseteq> tc_attached s"
    by (auto simp: tc_det_def tc_attached_def s det split: sysret.splits)
  obtain e t3 h3 where cls: "tc_Close os rng t h = (e, t3, h3)" by (metis prod_cases3)
  show "tc_attached (tc_cls os rng s) = {}"
  proof (cases "closed t")
    case True
    with i show ?thesis by (simp add: tc_cls_def tc_attached_def tc_Close_def tc_inv_def s)
  next
    case False
    from tc_Close_tables [OF this cls] show ?thesis by (simp add: tc_cls_def tc_attached_def s cls)
  qed
qed

interpretation ref_tcs: capturer "tc_att (ref_tc ref_index)" "tc_det (ref_tc ref_index)"
    "tc_cls (ref_tc ref_index) rng" tc_attached "tc_inv ref_index"
  for rng
  by (rule ref_link.tc.capturer_axioms)

section \<open>Start to Close\<close>

context link_kernel
begin

lemma start_attach_inv:
  "tc_inv index (t, h) \<Longrightarrow> start_attach os names t h = (t', h') \<Longrightarrow>
     tc_inv index (t', h') \<and> closed t' = closed t"
proof (induction names arbitrary: t h)
  case (Cons n names)
  have i: "tc_inv index (t, h @ [(InterfaceByName n, x)])" for x using Cons.prems(1) by (rule tc_inv_other) simp_all
  show ?case
  proof (cases "os h (InterfaceByName n)")
    case (RetErr e)
    with Cons.IH [OF i] Cons.prems(2) show ?thesis by (simp add: sys_eq)
  next
    case (RetInt idx)
    let ?h = "h @ [(InterfaceByName n, RetInt idx)]"
    obtain r t1 h1 where att: "tc_attach os idx n t ?h = (r, t1, h1)" by (metis prod_cases3)
    from tc_attach_inv [OF i att [unfolded name_index [OF RetInt]]] Cons.IH [of t1 h1] Cons.prems(2) att RetInt
    show ?thesis by (simp add: sys_eq)
  qed
qed simp

lemma tc_Start_inv:
  assumes "tc_inv index (t, h)" "tc_Start os names t h = (r, t', h')"
  shows "tc_inv index (t', h') \<and> closed t' = closed t"
proof -
  obtain t1 h1 where a: "start_attach os names t h = (t1, h1)" by fastforce
  note start_attach_inv [OF assms(1) a]
  moreover from this have "tc_inv index (t1, h1 @ [(NewReader, x)])" for x by (intro tc_inv_other) simp_all
  ultimately show ?thesis
    using assms(2) by (auto simp: tc_Start_def a sys_eq tc_inv_def split: sysret.splits)
qed

lemma NewTCBPF_inv:
  assumes "NewTCBPF os [] = (Inr t, h)"
  shows "tc_inv index (t, h)" "\<not> closed t"
  using assms
  by (auto simp: NewTCBPF_def sys_eq tc_inv_def tc_owns_def open_links_def good_link_closes_def
      split: sysret.splits)

lemma tc_callbacks_open:
  "tc_inv index s \<Longrightarrow> closed (fst (run_callbacks (tc_att os) (tc_det os) cs s)) = closed (fst s)"
proof (induction cs arbitrary: s)
  case (Cons c cs)
  obtain t h where s: "s = (t, h)" by fastforce
  show ?case
  proof (cases c)
    case (OnAdd n)
    obtain r t1 h1 where att: "tc_Attach os n t h = (r, t1, h1)" by (metis prod_cases3)
    then have "tc_att os n s = (t1, h1)" by (simp add: tc_att_def s)
    with tc_Attach_inv(3) [OF Cons.prems [unfolded s] att] Cons.IH [OF tc.att_inv [OF Cons.prems], of n]
    show ?thesis by (simp add: OnAdd s)
  next
    case (OnRemove n)
    obtain t1 h1 where det: "tc_Detach os n t h = (t1, h1)" by fastforce
    then have "tc_det os n s = (t1, h1)" by (simp add: tc_det_def s)
    with tc_Detach_inv(2) [OF Cons.prems [unfolded s] det] Cons.IH [OF tc.det_inv [OF Cons.prems], of n]
    show ?thesis by (simp add: OnRemove s)
  qed
qed simp

lemmas tc_frame = tc.run_callbacks_frame

lemma tc_lifecycle:
  assumes "range_order rng" "NewTCBPF os [] = (Inr t0, h0)" "tc_Start os names t0 h0 = (r, t, h)"
    "s = run_callbacks (tc_att os) (tc_det os) cs (t, h)"
    "tc_Close os rng (fst s) (snd s) = (e, t', h')"
  shows "good_link_closes h' \<and> open_links h' = {} \<and>
    (OnAdd n \<notin> set cs \<and> OnRemove n \<notin> set cs \<longrightarrow> (n \<in> tc_attached s \<longleftrightarrow> n \<in> tc_attached (t, h)))"
proof -
  have st: "tc_inv index (t, h)" "\<not> closed t"
    using tc_Start_inv [OF _ assms(3)] NewTCBPF_inv [OF assms(2)] by simp_all
  have "tc_inv index s" unfolding assms(4) using st(1) by (rule tc.run_callbacks_inv)
  then have "tc_owns {} (fst s) (snd s)" by (cases s) (simp add: tc_inv_def)
  moreover have "\<not> closed (fst s)" using tc_callbacks_open [OF st(1), of cs] st(2) by (simp add: assms(4))
  ultimately show ?thesis
    using tc_Close_owns [OF assms(1) _ _ assms(5)] tc.run_callbacks_frame [OF st(1), of n cs] by (simp add: assms(4))
qed

end

section \<open>Properties\<close>


lemma ref_NewTCBPF: "\<exists>t h. NewTCBPF (ref_tc ref_index) [] = (Inr t, h)"
  by (simp add: NewTCBPF_def sys_eq ref_tc_def)



text \<open>A kernel from which an interface has disappeared.\<close>

definition gone_tc :: "string \<Rightarrow> tos" where
  "gone_tc n h c = (if c = InterfaceByName n then RetErr (EOther ''no such network interface'')
     else ref_tc ref_index h c)"

lemma link_kernel_gone: "link_kernel (gone_tc n) ref_index"
proof
  show "gone_tc n h (AttachTCX i d) = RetInt l \<Longrightarrow> l \<notin> open_links h" for h i d l
    using ref_link.fresh_link [of h i d l] by (simp add: gone_tc_def)
  show "ObjsClose \<in> fst ` set h \<Longrightarrow> gone_tc n h (AttachTCX i d) \<noteq> RetInt l" for h i d l
    using ref_link.closed_objs [of h i d l] by (simp add: gone_tc_def)
  show "gone_tc n h (InterfaceByName m) = RetInt i \<Longrightarrow> i = ref_index m" for h m i
    using ref_link.name_index [of h m i] by (simp add: gone_tc_def split: if_splits)
  show "ref_index m = ref_index k \<longleftrightarrow> m = k" for m k by (rule ref_link.index_inj)
qed

definition one_tc :: TCBPF where
  "one_tc = \<lparr>links = [(ref_index ''lxc1'', [3, 4])], ifaces = [(ref_index ''lxc1'', ''lxc1'')],
     rb = True, rbOnce = False, captured = 0, closed = False\<rparr>"

definition one_hist :: thistory where
  "one_hist = [(AttachTCX (ref_index ''lxc1'') DirIngress, RetInt 3),
     (AttachTCX (ref_index ''lxc1'') DirEgress, RetInt 4)]"

lemma one_tc_inv: "tc_inv ref_index (one_tc, one_hist)" "''lxc1'' \<in> tc_attached (one_tc, one_hist)"
  by (auto simp: tc_inv_def tc_owns_def one_tc_def one_hist_def open_links_def good_link_closes_def tc_attached_def)


text \<open>An \<open>attach\<close> that made its two links before \<open>Close\<close> ran and stores them after it. \<open>Close\<close>
  has emptied the tables, so the commit finds no entry, stores the links in the closed object,
  and no later \<open>Close\<close> closes them. The AF_PACKET backend checks \<open>isClosed\<close> at this point.\<close>

lemma attach_after_Close_leaks:
  assumes "range_order rng" "tc_owns {i, j} t h" "\<not> closed t" "tc_Close os rng t h = (e, t1, h1)"
    "attach_store os idx n (i, j) t1 h1 = (t2, h2)"
  shows "open_links h2 = {i, j} \<and> snd (tc_Close os rng t2 h2) = (t2, h2)"
proof -
  note c = tc_Close_owns [OF assms(1-4)]
  then have "t2 = t1\<lparr>links := AList.update idx [i, j] (links t1), ifaces := AList.update idx n (ifaces t1)\<rparr>"
    "h2 = h1" using assms(5) by (simp_all add: attach_store_def)
  with c show ?thesis by (simp add: tc_Close_def)
qed

lemma attach_after_Close_leaks_example:
  "\<exists>t2 h2. open_links h2 = {5, 6} \<and> snd (tc_Close (ref_tc ref_index) id t2 h2) = (t2, h2)"
proof -
  let ?h = "one_hist @ [(AttachTCX 9 DirIngress, RetInt 5), (AttachTCX 9 DirEgress, RetInt 6)]"
  have o: "tc_owns {5, 6} one_tc ?h" "\<not> closed one_tc"
    by (auto simp: tc_owns_def one_tc_def one_hist_def open_links_def good_link_closes_def)
  obtain e t1 h1 where c: "tc_Close (ref_tc ref_index) id one_tc ?h = (e, t1, h1)" by (metis prod_cases3)
  obtain t2 h2 where s: "attach_store (ref_tc ref_index) 9 ''lxc2'' (5, 6) t1 h1 = (t2, h2)" by fastforce
  from attach_after_Close_leaks [OF range_order_id(1) o c s] show ?thesis by blast
qed

lemma LittleEndian_nth:
  assumes "length (LittleEndian_PutUint32 v) + k \<le> length raw" "take 4 (drop k raw) = LittleEndian_PutUint32 v"
  shows "LittleEndian_Uint32 (raw ! k) (raw ! (k + 1)) (raw ! (k + 2)) (raw ! (k + 3)) = v"
proof -
  have "take 4 (drop k raw) = [raw ! k, raw ! (k + 1), raw ! (k + 2), raw ! (k + 3)]"
    using assms(1) by (simp add: numeral_eq_Suc take_drop_nth)
  then show ?thesis using LittleEndian_Uint32_Put assms(2) by metis
qed

lemma read_event:
  assumes "length (ce_pad e) = 3" "length (ce_data e) = evDataLen"
  shows "read_sample names (event_bytes e) =
    Some \<lparr>Data = take (unat (ce_len e)) (ce_data e),
          Iface = (case map_of names (uint (ce_ifindex e)) of Some n \<Rightarrow> n | None \<Rightarrow> []),
          Dir = (if ce_ingress e = 1 then DirIngress else DirEgress)\<rparr>"
proof -
  let ?r = "event_bytes e"
  have len: "length ?r = evHdrLen + evDataLen" using assms by (simp add: event_bytes_def evHdrLen_def)
  have d: "drop evHdrLen ?r = ce_data e" using assms(1) by (simp add: event_bytes_def evHdrLen_def)
  have t0: "take 4 (drop 0 ?r) = LittleEndian_PutUint32 (ce_len e)"
    and t4: "take 4 (drop 4 ?r) = LittleEndian_PutUint32 (ce_ifindex e)"
    by (simp_all add: event_bytes_def)
  have w: "LittleEndian_Uint32 (?r ! 0) (?r ! 1) (?r ! 2) (?r ! 3) = ce_len e"
    using LittleEndian_nth [OF _ t0] len by (simp add: evHdrLen_def numeral_2_eq_2)
  have i: "LittleEndian_Uint32 (?r ! 4) (?r ! 5) (?r ! 6) (?r ! 7) = ce_ifindex e"
    using LittleEndian_nth [OF _ t4] len by (simp add: evHdrLen_def)
  have g: "?r ! 8 = ce_ingress e"
    by (simp add: event_bytes_def nth_append)
  have "take (min (unat (ce_len e)) evDataLen) (ce_data e) = take (unat (ce_len e)) (ce_data e)"
    using assms(2) by (simp add: min_def)
  then show ?thesis
    unfolding read_sample_def Let_def w i g slice_def len
    using assms(2) by (auto simp: d min_def split: if_splits)
qed

lemma reader_handle:
  assumes "classify (skb_data sk) = Captured" "skb_data sk = take k frame"
    "skb_len sk = of_nat (length frame)" "length frame < 2 ^ 32"
    "skb_load_bytes env = (\<lambda>n. if n \<le> length frame then Some (take n frame) else None)"
    "rb_reserve env = Some slot" "length slot = MAX_CAPTURE"
  shows "\<exists>e. snd (handle env sk ing s) = s\<lparr>events := events s @ [e]\<rparr> \<and>
    reader [RbSample (event_bytes e) True] t out =
      Some (True, t\<lparr>captured := captured t + 1\<rparr>, out @
        [\<lparr>Data = take MAX_CAPTURE frame,
          Iface = (case map_of (ifaces t) (uint (skb_ifindex sk)) of Some n \<Rightarrow> n | None \<Rightarrow> []),
          Dir = (if ing = 1 then DirIngress else DirEgress)\<rparr>])"
proof -
  have len: "unat (skb_len sk) = length frame"
    using assms(3,4) by (simp add: unat_of_nat take_bit_nat_eq_self)
  have "34 \<le> length frame" using classify_Captured_long [OF assms(1)] assms(2) by simp
  let ?n = "min MAX_CAPTURE (length frame)"
  define e where "e = \<lparr>ce_len = skb_len sk, ce_ifindex = skb_ifindex sk, ce_ingress = ing, ce_pad = [0, 0, 0],
    ce_data = take ?n frame @ drop ?n slot\<rparr>"
  have "snd (handle env sk ing s) = s\<lparr>events := events s @ [e]\<rparr>"
    using assms(1,5,6) \<open>34 \<le> length frame\<close>
    by (auto simp: handle_def Let_def len e_def min_def MAX_CAPTURE_def)
  moreover have "read_sample (ifaces t) (event_bytes e) =
      Some \<lparr>Data = take MAX_CAPTURE frame,
          Iface = (case map_of (ifaces t) (uint (skb_ifindex sk)) of Some n \<Rightarrow> n | None \<Rightarrow> []),
          Dir = (if ing = 1 then DirIngress else DirEgress)\<rparr>"
    using assms(7) by (subst read_event) (auto simp: e_def len evDataLen_def MAX_CAPTURE_def min_def)
  moreover have "\<not> length (event_bytes e) < evHdrLen" by (simp add: event_bytes_def evHdrLen_def e_def)
  ultimately show ?thesis by (intro exI [of _ e]) (simp add: Let_def)
qed

text \<open>C21: from the kernel program to the Go packet. For a captured packet whose bytes the helper
  can copy, the event that \<open>handle\<close> submits, read back by \<open>reader\<close> from ring-buffer memory, is
  one packet with the frame (cut at 1536 bytes), the name the table has for the interface index,
  and the direction of the program that saw it.\<close>

theorem reader_decodes_handle:
  assumes "classify (skb_data sk) = Captured" "skb_data sk = take k frame"
    "skb_len sk = of_nat (length frame)" "length frame < 2 ^ 32"
    "skb_load_bytes env = (\<lambda>n. if n \<le> length frame then Some (take n frame) else None)"
    "rb_reserve env = Some slot" "length slot = MAX_CAPTURE"
  shows "\<exists>e. snd (handle env sk ing s) = s\<lparr>events := events s @ [e]\<rparr> \<and>
    reader [RbSample (event_bytes e) True] t out =
      Some (True, t\<lparr>captured := captured t + 1\<rparr>, out @
        [\<lparr>Data = take MAX_CAPTURE frame,
          Iface = (case map_of (ifaces t) (uint (skb_ifindex sk)) of Some n \<Rightarrow> n | None \<Rightarrow> []),
          Dir = (if ing = 1 then DirIngress else DirEgress)\<rparr>])"
  using assms by (rule reader_handle)

definition example_frame :: bytes where
  "example_frame = buildFrame 0x0800 6 [10, 0, 0, 5] 40000 80"

definition example_env :: tc_env where
  "example_env = \<lparr>rb_reserve = Some (replicate 1536 0),
     skb_load_bytes = (\<lambda>n. if n \<le> length example_frame then Some (take n example_frame) else None)\<rparr>"

theorem reader_decodes_handle_witness:
  "\<exists>e. snd (handle example_env (example_skb example_frame) 1 idle_tc) =
       idle_tc\<lparr>events := events idle_tc @ [e]\<rparr> \<and>
     reader [RbSample (event_bytes e) True] one_tc [] =
       Some (True, one_tc\<lparr>captured := captured one_tc + 1\<rparr>, [] @
         [\<lparr>Data = take MAX_CAPTURE example_frame,
           Iface = (case map_of (ifaces one_tc) (uint (skb_ifindex (example_skb example_frame))) of
              Some n \<Rightarrow> n | None \<Rightarrow> []),
           Dir = (if (1 :: u8) = 1 then DirIngress else DirEgress)\<rparr>])"
proof (rule reader_decodes_handle)
  show "classify (skb_data (example_skb example_frame)) = Captured" by code_simp
  show "skb_data (example_skb example_frame) = take (length example_frame) example_frame"
    "skb_len (example_skb example_frame) = of_nat (length example_frame)"
    by (simp_all add: example_skb_def)
  show "length example_frame < 2 ^ 32"
    by (simp add: example_frame_def buildFrame_def buildFrameSrc_def)
  show "skb_load_bytes example_env = (\<lambda>n. if n \<le> length example_frame then Some (take n example_frame) else None)"
    "rb_reserve example_env = Some (replicate 1536 0)"
    by (simp_all add: example_env_def)
  show "length (replicate 1536 0 :: bytes) = MAX_CAPTURE" by (simp add: MAX_CAPTURE_def)
qed

section \<open>Statistics\<close>

text \<open>The label of each counter slot, by the names of the C enumeration and of the Go constants;
  the last slot is reported as kernel drops.\<close>

fun reason_label :: "drop_reason \<Rightarrow> DropReason option" where
  "reason_label DROP_NON_IPV4 = Some DropNonIPv4"
| "reason_label DROP_METADATA = Some DropMetadata"
| "reason_label DROP_NON_L4 = Some DropNonL4"
| "reason_label DROP_DNS = Some DropDNS"
| "reason_label DROP_VXLAN = Some DropVXLAN"
| "reason_label DROP_TRUNC = Some DropTruncate"
| "reason_label DROP_K8S_NOISE = Some DropK8sNoise"
| "reason_label DROP_RB_FULL = None"

text \<open>The per-CPU map as \<open>Lookup\<close> shows it: slot by slot, one value per CPU.\<close>

definition percpu :: "tc_state list \<Rightarrow> nat \<Rightarrow> u64 list option" where
  "percpu cpus i = (if i < 8 then Some (map (\<lambda>s. drop_counters s ! i) cpus) else None)"

lemma foldl_plus: "foldl (+) (x :: u64) xs = x + sum_list xs"
  by (induction xs arbitrary: x) (simp_all add: add.assoc)

lemma readDropCounter_percpu:
  "i < 8 \<Longrightarrow> readDropCounter (percpu cpus) i = (\<Sum>s\<leftarrow>cpus. drop_counters s ! i)"
  by (simp add: readDropCounter_def percpu_def foldl_plus)

lemma FilterDrops_percpu:
  "FilterDrops (tc_Stats (percpu cpus) t) =
     map (\<lambda>(l, i). (l, \<Sum>s\<leftarrow>cpus. drop_counters s ! i))
       [(DropNonIPv4, 0), (DropMetadata, 1), (DropNonL4, 2), (DropDNS, 3), (DropVXLAN, 4),
        (DropTruncate, 5), (DropK8sNoise, 6)]"
  by (simp add: tc_Stats_def AllReasons_def readDropCounter_percpu eval_nat_numeral)

lemma counters_split:
  "length cs = 8 \<Longrightarrow>
     sum_list cs = cs ! 7 + (cs ! 0 + (cs ! 1 + (cs ! 2 + (cs ! 3 + (cs ! 4 + (cs ! 5 + cs ! 6 :: u64))))))"
  by (simp add: eval_nat_numeral length_Suc_conv) (auto simp: add.commute add.left_commute)

lemma Stats_sum:
  assumes "\<forall>s \<in> set cpus. length (drop_counters s) = 8"
  shows "KernelDrops (tc_Stats (percpu cpus) t) + (\<Sum>(l, v)\<leftarrow>FilterDrops (tc_Stats (percpu cpus) t). v) =
    (\<Sum>s\<leftarrow>cpus. sum_list (drop_counters s))"
  unfolding FilterDrops_percpu
  using assms
  by (induction cpus)
    (simp_all add: tc_Stats_def readDropCounter_percpu dropRBFullIndex_def counters_split algebra_simps)

text \<open>C22: every drop counter is reported under its own name. The value \<open>Stats\<close> gives for a filter
  reason is the sum over the CPUs of the slot that the C program counts it in, and the slot of
  ring-buffer overflows is the one reported as kernel drops.\<close>

theorem Stats_labels:
  "case reason_label r of
     Some l \<Rightarrow> map_of (FilterDrops (tc_Stats (percpu cpus) t)) l =
       Some (\<Sum>s\<leftarrow>cpus. drop_counters s ! reason_index r)
   | None \<Rightarrow> KernelDrops (tc_Stats (percpu cpus) t) = (\<Sum>s\<leftarrow>cpus. drop_counters s ! reason_index r)"
  unfolding FilterDrops_percpu
  by (cases r)
    (simp_all add: tc_Stats_def readDropCounter_percpu dropRBFullIndex_def DropReason_defs)

text \<open>C23: the statistics account for all traffic. When the program has run on each CPU over some
  packets, the drops that \<open>Stats\<close> reports, all reasons and the kernel drops together, plus the
  events submitted to user space are the number of packets the program decided about.\<close>

theorem Stats_account:
  "KernelDrops (tc_Stats (percpu (map (\<lambda>ps. run_tc ps idle_tc) runs)) t) +
   (\<Sum>(l, v)\<leftarrow>FilterDrops (tc_Stats (percpu (map (\<lambda>ps. run_tc ps idle_tc) runs)) t). v) +
   (\<Sum>ps\<leftarrow>runs. of_nat (length (events (run_tc ps idle_tc)))) =
   (\<Sum>ps\<leftarrow>runs. of_nat (length (filter (\<lambda>(env, sk, ing). decided sk) ps)))"
proof -
  have i: "length (drop_counters idle_tc) = 8" "tc_total idle_tc = 0"
    by (simp_all add: idle_tc_def tc_total_def sum_list_replicate)
  note run = run_tc_total [OF i(1)]
  have "KernelDrops (tc_Stats (percpu (map (\<lambda>ps. run_tc ps idle_tc) runs)) t) +
      (\<Sum>(l, v)\<leftarrow>FilterDrops (tc_Stats (percpu (map (\<lambda>ps. run_tc ps idle_tc) runs)) t). v) =
      (\<Sum>ps\<leftarrow>runs. sum_list (drop_counters (run_tc ps idle_tc)))"
    by (subst Stats_sum) (auto simp: run o_def)
  moreover have "sum_list (drop_counters (run_tc ps idle_tc)) + of_nat (length (events (run_tc ps idle_tc))) =
      of_nat (length (filter (\<lambda>(env, sk, ing). decided sk) ps))" for ps
    using run [of ps] i(2) by (simp add: tc_total_def)
  ultimately show ?thesis by (simp add: sum_list_addf [symmetric])
qed

end
