(* ===== verification/Tc_Loop.thy ===== *)
theory Tc_Loop
  imports Tcbpf
begin

text \<open>
  The goroutines of \<open>internal/capture/tcbpf.go\<close>. The interface watcher runs \<open>Attach\<close> and \<open>Detach\<close>,
  the reader takes samples until it leaves, a goroutine of \<open>Start\<close> closes the ring-buffer reader
  when the context ends, and \<open>Close\<close> tears everything down. The steps of the relation \<open>tstep\<close> are
  the sections between which another goroutine can run: each BPF attachment, each critical
  section of \<open>linksMu\<close>, the closing of the links, of the tables and of the BPF objects.
\<close>

section \<open>Steps\<close>

text \<open>Where the watcher is: between calls; in \<open>attach\<close> with the ingress link made, or with both, not
  yet stored; in \<open>Detach\<close> with the links out of the table and not yet closed.\<close>

datatype tclient = TIdle | TIngress int string int | TBoth int string "int \<times> int" | TDetaching "int list"

record tworld =
  tcb :: TCBPF
  thist :: thistory
  tclient :: tclient
  reading :: bool
  cleared :: bool

inductive tstep :: "tos \<Rightarrow> links_rng \<Rightarrow> tworld \<Rightarrow> tworld \<Rightarrow> bool" for os :: tos and rng :: links_rng where
  lookup_failed: "tclient w = TIdle \<Longrightarrow> sys os (InterfaceByName n) (thist w) = (RetErr e, h) \<Longrightarrow>
    tstep os rng w (w\<lparr>thist := h\<rparr>)"
| attach_already: "tclient w = TIdle \<Longrightarrow> sys os (InterfaceByName n) (thist w) = (RetInt idx, h) \<Longrightarrow>
    idx \<in> fst ` set (links (tcb w)) \<Longrightarrow> tstep os rng w (w\<lparr>thist := h\<rparr>)"
| ingress_failed: "tclient w = TIdle \<Longrightarrow> sys os (InterfaceByName n) (thist w) = (RetInt idx, h1) \<Longrightarrow>
    idx \<notin> fst ` set (links (tcb w)) \<Longrightarrow> attach_ingress os idx h1 = (Inl e, h) \<Longrightarrow>
    tstep os rng w (w\<lparr>thist := h\<rparr>)"
| ingress_made: "tclient w = TIdle \<Longrightarrow> sys os (InterfaceByName n) (thist w) = (RetInt idx, h1) \<Longrightarrow>
    idx \<notin> fst ` set (links (tcb w)) \<Longrightarrow> attach_ingress os idx h1 = (Inr ing, h) \<Longrightarrow>
    tstep os rng w (w\<lparr>thist := h, tclient := TIngress idx n ing\<rparr>)"
| egress_failed: "tclient w = TIngress idx n ing \<Longrightarrow> attach_egress os idx ing (thist w) = (Inl e, h) \<Longrightarrow>
    tstep os rng w (w\<lparr>thist := h, tclient := TIdle\<rparr>)"
| egress_made: "tclient w = TIngress idx n ing \<Longrightarrow> attach_egress os idx ing (thist w) = (Inr ls, h) \<Longrightarrow>
    tstep os rng w (w\<lparr>thist := h, tclient := TBoth idx n ls\<rparr>)"
| attach_stored: "tclient w = TBoth idx n ls \<Longrightarrow> attach_store os idx n ls (tcb w) (thist w) = (t, h) \<Longrightarrow>
    tstep os rng w (w\<lparr>tcb := t, thist := h, tclient := TIdle\<rparr>)"
| detach_none: "tclient w = TIdle \<Longrightarrow> sys os (InterfaceByName n) (thist w) = (RetInt idx, h) \<Longrightarrow>
    map_of (links (tcb w)) idx = None \<Longrightarrow> tstep os rng w (w\<lparr>thist := h\<rparr>)"
| detach_taken: "tclient w = TIdle \<Longrightarrow> sys os (InterfaceByName n) (thist w) = (RetInt idx, h) \<Longrightarrow>
    map_of (links (tcb w)) idx = Some ls \<Longrightarrow>
    tstep os rng w (w\<lparr>tcb := (tcb w)\<lparr>links := AList.delete idx (links (tcb w)),
      ifaces := AList.delete idx (ifaces (tcb w))\<rparr>, thist := h, tclient := TDetaching ls\<rparr>)"
| detach_done: "tclient w = TDetaching ls \<Longrightarrow>
    tstep os rng w (w\<lparr>thist := close_links os ls (thist w), tclient := TIdle\<rparr>)"
| rb_closed: "closeRB os (tcb w) (thist w) = (e, t, h) \<Longrightarrow> tstep os rng w (w\<lparr>tcb := t, thist := h\<rparr>)"
| reader_left: "reading w \<Longrightarrow> tstep os rng w (w\<lparr>reading := False\<rparr>)"
| tables_closed: "\<not> cleared w \<Longrightarrow> \<not> reading w \<Longrightarrow> rbOnce (tcb w) \<Longrightarrow>
    close_tables os rng e (tcb w) (thist w) = (e', t, h) \<Longrightarrow>
    tstep os rng w (w\<lparr>tcb := t, thist := h, cleared := True\<rparr>)"
| objs_closed: "cleared w \<Longrightarrow> \<not> closed (tcb w) \<Longrightarrow> sys os ObjsClose (thist w) = (r, h) \<Longrightarrow>
    tstep os rng w (w\<lparr>tcb := (tcb w)\<lparr>closed := True\<rparr>, thist := h\<rparr>)"

definition tstarted :: "TCBPF \<Rightarrow> thistory \<Rightarrow> tworld" where
  "tstarted t h = \<lparr>tcb = t, thist = h, tclient = TIdle, reading = True, cleared = False\<rparr>"

fun theld :: "tclient \<Rightarrow> int list" where
  "theld TIdle = []"
| "theld (TIngress idx n ing) = [ing]"
| "theld (TBoth idx n ls) = [fst ls, snd ls]"
| "theld (TDetaching ls) = ls"

definition tworld_inv :: "tworld \<Rightarrow> bool" where
  "tworld_inv w \<longleftrightarrow> tc_owns (set (theld (tclient w))) (tcb w) (thist w) \<and> distinct (theld (tclient w))"

text \<open>The end of a clean shutdown: the objects are closed, the watcher is between calls, and no link
  is in the tables.\<close>

definition tdone :: "tworld \<Rightarrow> bool" where
  "tdone w \<longleftrightarrow> ObjsClose \<in> fst ` set (thist w) \<and> tclient w = TIdle \<and> links (tcb w) = []"

section \<open>Invariant\<close>

lemma tc_owns_closed [simp]: "tc_owns X (t\<lparr>closed := b\<rparr>) h = tc_owns X t h"
  by (simp add: tc_owns_def)

lemma tc_owns_take:
  assumes "tc_owns {} t h" "map_of (links t) idx = Some ls"
  shows "tc_owns (set ls) (t\<lparr>links := AList.delete idx (links t), ifaces := AList.delete idx (ifaces t)\<rparr>) h"
    "distinct ls"
proof -
  have d: "distinct (map fst (links t))" "distinct (table_links t)" using assms(1) by (simp_all add: tc_owns_def)
  note del = delete_links [OF d assms(2)]
  have "distinct (map fst (AList.delete idx (links t)))"
    "map fst (AList.delete idx (ifaces t)) = map fst (AList.delete idx (links t))"
    using assms(1) by (simp_all add: tc_owns_def AList.delete_keys distinct_removeAll)
  with del assms(1)
  show "tc_owns (set ls) (t\<lparr>links := AList.delete idx (links t), ifaces := AList.delete idx (ifaces t)\<rparr>) h"
    by (auto simp: tc_owns_def)
  show "distinct ls" by (rule del(4))
qed

lemma tc_owns_release:
  "tc_owns (set ls) t h \<Longrightarrow> distinct ls \<Longrightarrow> tc_owns {} t (close_links os ls h)"
  using close_links_fds [of ls h os] by (auto simp: tc_owns_def)

lemma tc_owns_lookup:
  "tc_owns X t h \<Longrightarrow> sys os (InterfaceByName n) h = (r, h') \<Longrightarrow> tc_owns X t h'"
  using tc_owns_other [of X t h "InterfaceByName n"] by (auto simp: sys_eq)

lemma close_all_links_grows: "set h \<subseteq> set (snd (close_all_links os ls e h))"
  by (induction os ls e h rule: close_all_links.induct) (auto simp: sys_eq split: sysret.splits)

lemma close_tables_grows: "close_tables os rng e t h = (e', t', h') \<Longrightarrow> set h \<subseteq> set h' \<and> links t' = []"
  using close_all_links_grows [of h os "concat (map snd (rng (links t)))" e]
  by (auto simp: close_tables_def split: prod.splits)

lemma close_links_grows: "set h \<subseteq> set (close_links os ls h)"
  using close_all_links_grows [of h os ls None] by (simp add: close_all_links_history)

lemma attach_grows:
  "attach_ingress os idx h = (q, h') \<Longrightarrow> set h \<subseteq> set h'"
  "attach_egress os idx ing h = (q', h') \<Longrightarrow> set h \<subseteq> set h'"
  by (auto simp: attach_ingress_def attach_egress_def sys_eq split: sysret.splits)

lemma closeRB_grows: "closeRB os t h = (e, t', h') \<Longrightarrow> set h \<subseteq> set h' \<and> closed t' = closed t \<and> links t' = links t"
  by (auto simp: closeRB_def sys_eq split: sysret.splits if_splits)

lemma attach_store_grows: "attach_store os idx n ls t h = (t', h') \<Longrightarrow> set h \<subseteq> set h' \<and> closed t' = closed t"
  by (auto simp: attach_store_def sys_eq split: prod.splits if_splits)

lemmas grows = close_tables_grows attach_grows closeRB_grows attach_store_grows

text \<open>The order of a shutdown: \<open>closed\<close> is set when the objects are closed, after the tables.\<close>

definition torder :: "tworld \<Rightarrow> bool" where
  "torder w \<longleftrightarrow> (closed (tcb w) \<longrightarrow> cleared w \<and> ObjsClose \<in> fst ` set (thist w))"

lemma tstep_grows: "tstep os rng w w' \<Longrightarrow> set (thist w) \<subseteq> set (thist w')"
proof (induction rule: tstep.induct)
  case (detach_done w ls)
  show ?case using close_links_grows by simp
next
  case (ingress_failed w n idx h1 e h)
  then show ?case using attach_grows(1) [OF ingress_failed(4)] by (auto simp: sys_eq)
next
  case (ingress_made w n idx h1 ing h)
  then show ?case using attach_grows(1) [OF ingress_made(4)] by (auto simp: sys_eq)
qed (auto simp: sys_eq dest: grows)

lemma tstep_order:
  assumes "tstep os rng w w'" "torder w"
  shows "torder w'"
proof -
  have "closed (tcb w') \<Longrightarrow> closed (tcb w) \<or> cleared w' \<and> ObjsClose \<in> fst ` set (thist w')"
    using assms(1) by cases (auto simp: sys_eq close_tables_def dest!: closeRB_grows attach_store_grows split: prod.splits)
  moreover have "cleared w \<Longrightarrow> cleared w'" using assms(1) by cases auto
  ultimately show ?thesis using assms(2) image_mono [OF tstep_grows [OF assms(1)], of fst] by (auto simp: torder_def)
qed

lemma tsteps_order: "(tstep os rng)\<^sup>*\<^sup>* w w' \<Longrightarrow> torder w \<Longrightarrow> torder w'"
  by (induction rule: rtranclp_induct) (auto intro: tstep_order)

context link_kernel
begin

lemma tstep_inv:
  assumes "range_order rng" "tstep os rng w w'" "tworld_inv w"
  shows "tworld_inv w'"
  using assms(2)
proof cases
  case (ingress_made n idx h1 ing h)
  have "tc_owns {} (tcb w) h1" by (rule tc_owns_lookup) (use assms(3) ingress_made in \<open>simp_all add: tworld_inv_def\<close>)
  from attach_ingress_owns [OF this ingress_made(5)] ingress_made show ?thesis by (simp add: tworld_inv_def)
next
  case (ingress_failed n idx h1 e h)
  have "tc_owns {} (tcb w) h1" by (rule tc_owns_lookup) (use assms(3) ingress_failed in \<open>simp_all add: tworld_inv_def\<close>)
  from attach_ingress_owns [OF this ingress_failed(5)] ingress_failed show ?thesis by (simp add: tworld_inv_def)
next
  case (egress_failed idx n ing e h)
  have "tc_owns (insert ing {}) (tcb w) (thist w)" using assms(3) egress_failed by (simp add: tworld_inv_def)
  from attach_egress_owns [OF this _ egress_failed(3)] egress_failed show ?thesis by (simp add: tworld_inv_def)
next
  case (egress_made idx n ing ls h)
  have "tc_owns (insert ing {}) (tcb w) (thist w)" using assms(3) egress_made by (simp add: tworld_inv_def)
  from attach_egress_owns [OF this _ egress_made(3)] egress_made show ?thesis
    by (auto simp: tworld_inv_def)
next
  case (attach_stored idx n ls t h)
  obtain i j where ls: "ls = (i, j)" by fastforce
  have "tc_owns (insert i (insert j {})) (tcb w) (thist w)" "j \<notin> insert i {}"
    using assms(3) attach_stored by (auto simp: tworld_inv_def ls)
  from attach_store_owns [OF this(1) _ this(2) attach_stored(3) [unfolded ls]] attach_stored show ?thesis
    by (simp add: tworld_inv_def)
next
  case (detach_taken n idx h ls)
  have "tc_owns {} (tcb w) h" by (rule tc_owns_lookup) (use assms(3) detach_taken in \<open>simp_all add: tworld_inv_def\<close>)
  from tc_owns_take [OF this detach_taken(4)] detach_taken show ?thesis by (simp add: tworld_inv_def)
next
  case (detach_done ls)
  with assms(3) tc_owns_release [of ls "tcb w" "thist w" os] show ?thesis by (simp add: tworld_inv_def)
next
  case (rb_closed e t h)
  with assms(3) tc_closeRB(1) [OF rb_closed(2)] show ?thesis by (simp add: tworld_inv_def)
next
  case (tables_closed e e' t h)
  have "tc_owns (set (theld (tclient w))) (tcb w) (thist w)" using assms(3) by (simp add: tworld_inv_def)
  from close_tables_owns(1) [OF assms(1) this tables_closed(5)] tables_closed assms(3) show ?thesis
    by (simp add: tworld_inv_def)
next
  case (objs_closed r h)
  with assms(3) tc_owns_other [of _ "tcb w" "thist w" ObjsClose] show ?thesis
    by (auto simp: tworld_inv_def sys_eq)
qed (use assms(3) in \<open>auto simp: tworld_inv_def dest: tc_owns_lookup\<close>)

lemma tsteps_inv:
  "(tstep os rng)\<^sup>*\<^sup>* w w' \<Longrightarrow> range_order rng \<Longrightarrow> tworld_inv w \<Longrightarrow> tworld_inv w'"
  by (induction rule: rtranclp_induct) (auto intro: tstep_inv)

lemma tstarted_inv:
  assumes "NewTCBPF os [] = (Inr t0, h0)" "tc_Start os names t0 h0 = (r, t, h)"
  shows "tworld_inv (tstarted t h)"
  using tc_Start_inv [OF _ assms(2)] NewTCBPF_inv [OF assms(1)]
  by (simp add: tworld_inv_def tstarted_def tc_inv_def)

text \<open>After a clean shutdown nothing is attached any more: the objects are closed.\<close>

lemma tstep_done:
  assumes "tstep os rng w w'" "tdone w"
  shows "tdone w'"
  using assms(1)
proof cases
  case (ingress_made n idx h1 ing h)
  then have "ObjsClose \<in> fst ` set h1" using assms(2) by (auto simp: tdone_def sys_eq)
  with ingress_made(5) closed_objs show ?thesis
    by (auto simp: attach_ingress_def sys_eq split: sysret.splits)
next
  case (ingress_failed n idx h1 e h)
  then have "ObjsClose \<in> fst ` set h1" using assms(2) by (auto simp: tdone_def sys_eq)
  moreover have "set h1 \<subseteq> set h"
    using ingress_failed(5) by (auto simp: attach_ingress_def sys_eq split: sysret.splits)
  ultimately show ?thesis using ingress_failed assms(2) by (auto simp: tdone_def)
next
  case (rb_closed e t h)
  with assms(2) show ?thesis by (auto simp: tdone_def closeRB_def sys_eq split: if_splits sysret.splits)
next
  case (tables_closed e e' t h)
  with assms(2) close_tables_grows [OF tables_closed(5)] show ?thesis by (auto simp: tdone_def)
qed (use assms(2) in \<open>auto simp: tdone_def sys_eq\<close>)

lemma tsteps_done: "(tstep os rng)\<^sup>*\<^sup>* w w' \<Longrightarrow> tdone w \<Longrightarrow> tdone w'"
  by (induction rule: rtranclp_induct) (auto intro: tstep_done)

end

section \<open>Calls that are not interrupted\<close>

text \<open>A whole call of the watcher, and \<open>Close\<close>, are sequences of steps: the relation contains the
  operations of theory \<open>Tcbpf\<close>.\<close>

lemma Attach_steps:
  assumes "tclient w = TIdle" "tc_Attach os n (tcb w) (thist w) = (r, t, h)"
  shows "(tstep os rng)\<^sup>*\<^sup>* w (w\<lparr>tcb := t, thist := h\<rparr>)"
proof (cases "sys os (InterfaceByName n) (thist w)")
  case (Pair x h0)
  have idle: "w\<lparr>tcb := t, thist := h, tclient := TIdle\<rparr> = w\<lparr>tcb := t, thist := h\<rparr>"
    using assms(1) by (cases w) simp
  show ?thesis
  proof (cases x)
    case (RetErr e)
    with Pair lookup_failed [OF assms(1), of os n e h0 rng] assms(2) show ?thesis
      by (auto simp: tc_Attach_def)
  next
    case (RetInt idx)
    note look = Pair [unfolded RetInt]
    show ?thesis
    proof (cases "idx \<in> fst ` set (links (tcb w))")
      case True
      with attach_already [OF assms(1) look] assms(2) look show ?thesis by (auto simp: tc_Attach_def)
    next
      case False
      obtain q h1 where i: "attach_ingress os idx h0 = (q, h1)" by fastforce
      show ?thesis
      proof (cases q)
        case (Inl e)
        with ingress_failed [OF assms(1) look False] i assms(2) look False show ?thesis
          by (auto simp: tc_Attach_def tc_attach_def attach_links_def)
      next
        case (Inr ing)
        let ?w1 = "w\<lparr>thist := h1, tclient := TIngress idx n ing\<rparr>"
        have 1: "tstep os rng w ?w1" using ingress_made [OF assms(1) look False] i Inr by simp
        obtain q2 h2 where g: "attach_egress os idx ing h1 = (q2, h2)" by fastforce
        show ?thesis
        proof (cases q2)
          case e: (Inl e)
          then have th: "t = tcb w" "h = h2" using g i Inr assms(2) look False
            by (simp_all add: tc_Attach_def tc_attach_def attach_links_def)
          have "tstep os rng ?w1 (?w1\<lparr>thist := h2, tclient := TIdle\<rparr>)"
            by (rule egress_failed) (use g e in simp_all)
          then have "tstep os rng ?w1 (w\<lparr>tcb := t, thist := h, tclient := TIdle\<rparr>)" by (simp add: th)
          then have "tstep os rng ?w1 (w\<lparr>tcb := t, thist := h\<rparr>)" by (simp only: idle)
          with 1 show ?thesis by simp
        next
          case l: (Inr ls)
          let ?w2 = "w\<lparr>thist := h2, tclient := TBoth idx n ls\<rparr>"
          have 2: "tstep os rng ?w1 ?w2" using egress_made [of ?w1 idx n ing os ls h2 rng] g l by simp
          have "attach_store os idx n ls (tcb w) h2 = (t, h)"
            using g l i Inr assms(2) look False by (simp add: tc_Attach_def tc_attach_def attach_links_def)
          then have "tstep os rng ?w2 (?w2\<lparr>tcb := t, thist := h, tclient := TIdle\<rparr>)"
            by (intro attach_stored) simp_all
          then have "tstep os rng ?w2 (w\<lparr>tcb := t, thist := h, tclient := TIdle\<rparr>)" by simp
          then have "tstep os rng ?w2 (w\<lparr>tcb := t, thist := h\<rparr>)" by (simp only: idle)
          with 1 2 show ?thesis by (meson converse_rtranclp_into_rtranclp r_into_rtranclp)
        qed
      qed
    qed
  qed
qed

text \<open>From every state the watcher can finish its call.\<close>

lemma tclient_finishes: "\<exists>w'. (tstep os rng)\<^sup>*\<^sup>* w w' \<and> tclient w' = TIdle \<and> cleared w' = cleared w"
proof -
  have both: "\<exists>w'. (tstep os rng)\<^sup>*\<^sup>* w w' \<and> tclient w' = TIdle \<and> cleared w' = cleared w" if "tclient w = TBoth idx n ls" for w :: tworld and idx n ls
  proof -
    obtain t h where "attach_store os idx n ls (tcb w) (thist w) = (t, h)" by fastforce
    from attach_stored [OF that this, of rng] show ?thesis by (auto intro!: exI r_into_rtranclp)
  qed
  show ?thesis
  proof (cases "tclient w")
    case (TIngress idx n ing)
    obtain q h where g: "attach_egress os idx ing (thist w) = (q, h)" by fastforce
    show ?thesis
    proof (cases q)
      case (Inl e)
      from egress_failed [OF TIngress g [unfolded Inl], of rng] show ?thesis by (auto intro!: exI r_into_rtranclp)
    next
      case (Inr ls)
      let ?w = "w\<lparr>thist := h, tclient := TBoth idx n ls\<rparr>"
      have "tstep os rng w ?w" by (rule egress_made [OF TIngress g [unfolded Inr]])
      moreover obtain w' where "(tstep os rng)\<^sup>*\<^sup>* ?w w'" "tclient w' = TIdle" "cleared w' = cleared w"
        using both [of ?w idx n ls] by auto
      ultimately show ?thesis by (meson converse_rtranclp_into_rtranclp)
    qed
  next
    case (TDetaching ls)
    from detach_done [OF this, of os rng] show ?thesis by (auto intro!: exI r_into_rtranclp)
  qed (use both in auto)
qed

text \<open>\<open>Close\<close> can run to its end wherever the watcher is.\<close>

lemma tcloser_finishes:
  assumes "\<not> cleared w" "torder w"
  shows "\<exists>w'. (tstep os rng)\<^sup>*\<^sup>* w w' \<and> tclient w' = tclient w \<and> closed (tcb w') \<and> links (tcb w') = [] \<and>
    ObjsClose \<in> fst ` set (thist w')"
proof -
  obtain e t h where rb: "closeRB os (tcb w) (thist w) = (e, t, h)" by (metis prod_cases3)
  let ?w1 = "w\<lparr>tcb := t, thist := h\<rparr>" and ?w2 = "w\<lparr>tcb := t, thist := h, reading := False\<rparr>"
  have 1: "tstep os rng w ?w1" by (rule rb_closed [OF rb])
  have 2: "(tstep os rng)\<^sup>*\<^sup>* ?w1 ?w2"
  proof (cases "reading w")
    case True
    then show ?thesis using reader_left [of ?w1 os rng] by simp
  next
    case False
    then have "?w2 = ?w1" by simp
    then show ?thesis by simp
  qed
  have once: "rbOnce t" using rb by (auto simp: closeRB_def split: if_splits sysret.splits prod.splits)
  obtain e2 t2 h2 where ct: "close_tables os rng e t h = (e2, t2, h2)" by (metis prod_cases3)
  let ?w3 = "?w2\<lparr>tcb := t2, thist := h2, cleared := True\<rparr>"
  have 3: "tstep os rng ?w2 ?w3" by (rule tables_closed [where e = e]) (use assms once ct in simp_all)
  have l: "links t2 = []" using close_tables_grows [OF ct] by simp
  have "\<not> closed t2"
    using assms closeRB_grows [OF rb] ct by (auto simp: torder_def close_tables_def split: prod.splits)
  then have 4: "tstep os rng ?w3 (?w3\<lparr>tcb := t2\<lparr>closed := True\<rparr>, thist := h2 @ [(ObjsClose, os h2 ObjsClose)]\<rparr>)"
    using objs_closed [of ?w3 os "os h2 ObjsClose" _ rng] by (simp add: sys_eq)
  have "(tstep os rng)\<^sup>*\<^sup>* w (?w3\<lparr>tcb := t2\<lparr>closed := True\<rparr>, thist := h2 @ [(ObjsClose, os h2 ObjsClose)]\<rparr>)"
    using 1 2 3 4 by (meson converse_rtranclp_into_rtranclp rtranclp.rtrancl_into_rtrancl)
  with l show ?thesis by (intro exI [of _ "?w3\<lparr>tcb := t2\<lparr>closed := True\<rparr>, thist := h2 @ [(ObjsClose, os h2 ObjsClose)]\<rparr>"]) simp
qed

lemma tshutdown:
  assumes "\<not> cleared w" "torder w"
  shows "\<exists>w'. (tstep os rng)\<^sup>*\<^sup>* w w' \<and> tdone w'"
proof -
  obtain w1 where 1: "(tstep os rng)\<^sup>*\<^sup>* w w1" "tclient w1 = TIdle" "\<not> cleared w1"
    using tclient_finishes [of os rng w] assms(1) by auto
  obtain w2 where "(tstep os rng)\<^sup>*\<^sup>* w1 w2" "tclient w2 = TIdle" "links (tcb w2) = []" "ObjsClose \<in> fst ` set (thist w2)"
    using tcloser_finishes [OF 1(3) tsteps_order [OF 1(1) assms(2)], of os rng] 1(2) by metis
  with 1(1) show ?thesis by (auto simp: tdone_def intro: rtranclp_trans)
qed

section \<open>The reader over endless input\<close>

text \<open>The results of \<open>rb.Read()\<close> never run out; \<open>None\<close> means that the loop does not return. The inner \<open>None\<close> is the panic of an out-of-range slice.\<close>

partial_function (option) reader_on ::
  "(nat \<Rightarrow> rb_result) \<Rightarrow> nat \<Rightarrow> TCBPF \<Rightarrow> Packet list \<Rightarrow> (TCBPF \<times> Packet list) option option"
where
  "reader_on rs i t out =
     (case rs i of
        RbClosed \<Rightarrow> Some (Some (t, out))
      | RbErr \<Rightarrow> reader_on rs (Suc i) t out
      | RbSample raw sent \<Rightarrow>
          if length raw < evHdrLen then reader_on rs (Suc i) t out
          else (case read_sample (ifaces t) raw of
              None \<Rightarrow> Some None
            | Some pkt \<Rightarrow>
                if sent then reader_on rs (Suc i) (t\<lparr>captured := captured t + 1\<rparr>) (out @ [pkt])
                else Some (Some (t\<lparr>captured := captured t + 1\<rparr>, out))))"

fun quits :: "rb_result \<Rightarrow> bool" where
  "quits RbClosed = True"
| "quits RbErr = False"
| "quits (RbSample raw sent) = (evHdrLen \<le> length raw \<and> \<not> sent)"

lemma read_sample_total: "evHdrLen \<le> length raw \<Longrightarrow> \<exists>pkt. read_sample names raw = Some pkt"
  by (simp add: read_sample_def Let_def slice_def evHdrLen_def)

lemma reader_on_returns:
  assumes "quits (rs k)" "i \<le> k"
  shows "\<exists>r. reader_on rs i t out = Some (Some r)"
  using assms
proof (induction "k - i" arbitrary: i t out)
  case 0
  then have "k = i" by simp
  show ?case
  proof (cases "rs i")
    case (RbSample raw sent)
    with 0 \<open>k = i\<close> obtain pkt where "read_sample (ifaces t) raw = Some pkt" "\<not> sent" "\<not> length raw < evHdrLen"
      using read_sample_total [of raw "ifaces t"] by auto
    with RbSample show ?thesis by (simp add: reader_on.simps [of rs i])
  qed (use 0 \<open>k = i\<close> in \<open>simp_all add: reader_on.simps [of rs i]\<close>)
next
  case (Suc m)
  then have IH: "\<exists>r. reader_on rs (Suc i) t' o1 = Some (Some r)" for t' o1 by (intro Suc.hyps(1)) auto
  show ?case
  proof (cases "rs i")
    case (RbSample raw sent)
    with IH read_sample_total [of raw "ifaces t"] show ?thesis
      by (cases "length raw < evHdrLen"; cases sent) (auto simp: reader_on.simps [of rs i])
  qed (use IH in \<open>simp_all add: reader_on.simps [of rs i]\<close>)
qed

lemma reader_on_quits: "reader_on rs i t out = Some r \<Longrightarrow> \<exists>k. quits (rs k)"
proof (induction rule: reader_on.raw_induct [rotated 1, consumes 1])
  case (1 loop rs i t out r)
  show ?case
  proof (cases "rs i")
    case RbClosed
    then have "quits (rs i)" by simp
    then show ?thesis by blast
  next
    case RbErr
    with 1 show ?thesis by auto
  next
    case (RbSample raw sent)
    show ?thesis
    proof (cases "evHdrLen \<le> length raw \<and> \<not> sent")
      case True
      then have "quits (rs i)" by (simp add: RbSample)
      then show ?thesis by blast
    next
      case False
      with 1 RbSample read_sample_total [of raw "ifaces t"] show ?thesis by (auto split: if_splits)
    qed
  qed
qed

lemma reader_on_iff:
  "(\<exists>r. reader_on rs 0 t out = Some r) \<longleftrightarrow> (\<exists>k. quits (rs k))"
  "reader_on rs 0 t out \<noteq> Some None"
proof -
  have q: "\<exists>r. reader_on rs 0 t out = Some (Some r)" if "quits (rs k)" for k
    using reader_on_returns [of rs k 0 t out] that by simp
  show "(\<exists>r. reader_on rs 0 t out = Some r) \<longleftrightarrow> (\<exists>k. quits (rs k))"
    using q reader_on_quits [of rs 0 t out] by blast
  show "reader_on rs 0 t out \<noteq> Some None"
    using q reader_on_quits [of rs 0 t out None] by fastforce
qed

section \<open>Properties\<close>


lemma lowest_links:
  "lowest_free {} (Suc (Suc (Suc (Suc (Suc (Suc 0)))))) = 3"
  "lowest_free {3} (Suc (Suc (Suc (Suc (Suc (Suc (Suc 0))))))) = 4"
  by code_simp+


end
