(* ===== verification/Sensor.thy ===== *)
theory Sensor
  imports Config Goroutines Afp_Endless Tc_Loop
begin

text \<open>
  \<open>cmd/sensor/main.go\<close>: \<open>run\<close> from the configuration to the exit code, with every early return and
  the deferred \<open>Close\<close> calls, the goroutine that restarts \<open>iface.Watch\<close>, and the small helpers. The
  world outside the repository is a record \<open>run_env\<close>; the packets, their socket answers and the
  watcher's callbacks while \<open>run\<close> waits are part of it. \<open>statsReporter\<close> runs beside this and touches
  other series (theories \<open>Reporter\<close> and \<open>Goroutines\<close>).
\<close>

section \<open>Helpers\<close>

datatype level = LevelDebug | LevelInfo | LevelWarn | LevelError

definition setupLogger :: "string \<Rightarrow> level" where
  "setupLogger level =
     (if level = ''debug'' then LevelDebug
      else if level = ''warn'' then LevelWarn
      else if level = ''error'' then LevelError
      else LevelInfo)"

definition version :: string where "version = ''dev''"

definition Second :: int where "Second = 1000000000"

text \<open>\<open>serve\<close>: the server it makes, and what it does as the context ends and as \<open>ListenAndServe\<close>
  returns, in the order in which the two happen. The goroutine that waits for the context outlives
  \<open>serve\<close> itself.\<close>

definition ErrServerClosed :: string where "ErrServerClosed = ''http: Server closed''"

datatype endpoint = MetricsEndpoint | HealthEndpoint

record http_server =
  srv_Addr :: string
  srv_Handler :: endpoint
  ReadHeaderTimeout :: int

datatype serve_event = CtxDone | ListenReturned "string option"

datatype serve_action = Shutdown int | LogError string string

fun serve_step :: "http_server \<Rightarrow> serve_event \<Rightarrow> serve_action list" where
  "serve_step srv CtxDone = [Shutdown (3 * Second)]"
| "serve_step srv (ListenReturned err) =
     (case err of None \<Rightarrow> [] | Some e \<Rightarrow> if e = ErrServerClosed then [] else [LogError (srv_Addr srv) e])"

definition serve :: "string \<Rightarrow> endpoint \<Rightarrow> serve_event list \<Rightarrow> http_server \<times> serve_action list" where
  "serve addr h evs =
     (let srv = \<lparr>srv_Addr = addr, srv_Handler = h, ReadHeaderTimeout = 5 * Second\<rparr>
      in (srv, concat (map (serve_step srv) evs)))"

text \<open>The servers that \<open>run\<close> starts: the metrics only with an address for them, the probes always.\<close>

definition http_servers :: "Config \<Rightarrow> (string \<times> endpoint) list" where
  "http_servers cfg =
     (if MetricsAddr cfg \<noteq> [] then [(MetricsAddr cfg, MetricsEndpoint)] else []) @ [(HealthAddr cfg, HealthEndpoint)]"

text \<open>\<open>parkedReminder\<close>: the number of reminders for a sequence of ticks (\<open>True\<close>) and the end of the
  context (\<open>False\<close>).\<close>

fun parkedReminder :: "bool list \<Rightarrow> nat" where
  "parkedReminder [] = 0"
| "parkedReminder (tick # inputs) = (if tick then Suc (parkedReminder inputs) else 0)"

section \<open>Restarting the watcher\<close>

text \<open>One entry per call of \<open>iface.Watch\<close>: its callbacks and result, and whether the context ends
  during the wait that follows an error. The result is all callbacks and the waits begun.\<close>

fun watch_restarts :: "((callback list \<times> watch_result) \<times> bool) list \<Rightarrow> int \<Rightarrow> callback list \<times> int list" where
  "watch_restarts [] backoff = ([], [])"
| "watch_restarts (((cbs, r), cancelled) # runs) backoff =
     (case r of
        WatchNil \<Rightarrow> (cbs, [])
      | WatchWaiting \<Rightarrow> (cbs, [])
      | WatchErr e \<Rightarrow>
          if cancelled then (cbs, [backoff])
          else
            let (cbs', waits) = watch_restarts runs (if backoff < 30 * Second then backoff * 2 else backoff)
            in (cbs @ cbs', backoff # waits))"

section \<open>The capturer\<close>

datatype capstate = NoCap | CapT TCBPF thistory | CapA AFPacket history

record 'm run_env =
  r_env :: env
  r_version :: string
  r_prom :: "'m prom"
  r_reg :: 'm
  r_features :: features
  r_tos :: tos
  r_os :: os
  r_basm :: basm
  r_rng :: rng
  r_lrng :: links_rng
  r_ifaces :: "string + NetInterface list"
  r_v6 :: "string \<Rightarrow> bytes option"
  r_dial :: "bytes \<Rightarrow> nat \<Rightarrow> string option"
  r_watch :: "callback list"
  r_turns :: "turn list"

definition build_capturer :: "'m run_env \<Rightarrow> string \<Rightarrow> capstate option" where
  "build_capturer E mode =
     (if mode = ''tcbpf'' then
        (case NewTCBPF (r_tos E) [] of (Inl e, h) \<Rightarrow> None | (Inr t, h) \<Rightarrow> Some (CapT t h))
      else if mode = ''afpacket'' then Some (CapA (NewAFPacket Default) [])
      else None)"

fun close_cap :: "'m run_env \<Rightarrow> capstate \<Rightarrow> capstate" where
  "close_cap E NoCap = NoCap"
| "close_cap E (CapT t h) = (case tc_Close (r_tos E) (r_lrng E) t h of (e, t, h) \<Rightarrow> CapT t h)"
| "close_cap E (CapA a h) = (case Close (r_os E) (r_rng E) a h of (a, h) \<Rightarrow> CapA a h)"

fun start_cap :: "'m run_env \<Rightarrow> string list \<Rightarrow> capstate \<Rightarrow> bool \<times> capstate" where
  "start_cap E names NoCap = (False, NoCap)"
| "start_cap E names (CapT t h) =
     (case tc_Start (r_tos E) names t h of (r, t, h) \<Rightarrow> (r = None, CapT t h))"
| "start_cap E names (CapA a h) =
     (case Start (r_os E) (r_basm E) (r_rng E) names a h of (r, a, h) \<Rightarrow> (r = None, CapA a h))"

fun watch_cap :: "'m run_env \<Rightarrow> callback list \<Rightarrow> capstate \<Rightarrow> capstate" where
  "watch_cap E cbs NoCap = NoCap"
| "watch_cap E cbs (CapT t h) =
     (case run_callbacks (tc_att (r_tos E)) (tc_det (r_tos E)) cbs (t, h) of (t, h) \<Rightarrow> CapT t h)"
| "watch_cap E cbs (CapA a h) =
     (case run_callbacks (afp_att (r_os E) (r_basm E)) (afp_det (r_os E)) cbs (a, h) of (a, h) \<Rightarrow> CapA a h)"

section \<open>run\<close>

record 'm run_result =
  code :: int
  served :: "(string \<times> endpoint) list"
  health :: "Server option"
  registry :: 'm
  capst :: capstate

text \<open>From \<open>iface.List()\<close> on, with the capturer built and its \<open>Close\<close> deferred.\<close>

definition run_capture ::
  "'m run_env \<Rightarrow> Config \<Rightarrow> Metrics \<Rightarrow> 'm \<Rightarrow> Server \<Rightarrow> capstate \<Rightarrow> 'm run_result option" where
  "run_capture E cfg M m hs cap =
     (let fail = (\<lambda>cap. Some \<lparr>code = 1, served = http_servers cfg, health = Some hs, registry = m, capst = close_cap E cap\<rparr>) in
      case ListIfaces (r_ifaces E) of
        Inl e \<Rightarrow> fail cap
      | Inr names \<Rightarrow>
          if names = [] then fail cap
          else case Forward.New (r_v6 E) (r_dial E) (NDRAddr cfg) (VNI cfg) (NDRMTU cfg) of
              Inl e \<Rightarrow> if e = NewPanic then None else fail cap
            | Inr fwd \<Rightarrow>
                (case start_cap E names cap of
                   (False, cap) \<Rightarrow> fail cap
                 | (True, cap) \<Rightarrow>
                     (case packet_loop (r_prom E) M (r_turns E) (MarkReady hs, m, fwd) of
                        None \<Rightarrow> None
                      | Some (hs, m, fwd) \<Rightarrow>
                          Some \<lparr>code = 0, served = http_servers cfg, health = Some hs, registry = m,
                            capst = close_cap E (watch_cap E (r_watch E) cap)\<rparr>)))"

definition run_active ::
  "'m run_env \<Rightarrow> Config \<Rightarrow> Metrics \<Rightarrow> 'm \<Rightarrow> Server \<Rightarrow> string \<Rightarrow> string \<Rightarrow> 'm run_result option" where
  "run_active E cfg M m hs node ndrConfigured =
     (case Pick (r_features E) (Config.CaptureMode cfg) of
        Inl e \<Rightarrow> Some \<lparr>code = 1, served = http_servers cfg, health = Some hs, registry = m, capst = NoCap\<rparr>
      | Inr mode \<Rightarrow>
     (case vec_set (r_prom E) (Metrics.CaptureMode M) [mode] 1 m of
        None \<Rightarrow> None
      | Some m \<Rightarrow>
     (case vec_set (r_prom E) (Info M) [r_version E, node, mode, ndrConfigured] 1 m of
        None \<Rightarrow> None
      | Some m \<Rightarrow>
     (case build_capturer E mode of
        None \<Rightarrow> Some \<lparr>code = 1, served = http_servers cfg, health = Some hs, registry = m, capst = NoCap\<rparr>
      | Some cap \<Rightarrow> run_capture E cfg M m hs cap))))"

definition run :: "'m run_env \<Rightarrow> 'm run_result option" where
  "run E =
     (case Load (r_env E) of
        (cfg, Some e) \<Rightarrow> Some \<lparr>code = 2, served = [], health = None, registry = r_reg E, capst = NoCap\<rparr>
      | (cfg, None) \<Rightarrow>
     (case Metrics.New (r_prom E) (r_reg E) of
        None \<Rightarrow> None
      | Some (M, m) \<Rightarrow>
          let hs = Health.New (word_of_int (30 * Second));
              node = getenv (r_env E) ''NODE_NAME'' [];
              ndrConfigured = (if NDRAddr cfg \<noteq> [] then ''true'' else ''false'')
          in if NDRAddr cfg = [] then
               (case vec_set (r_prom E) (Info M) [r_version E, node, ''parked'', ndrConfigured] 1 m of
                  None \<Rightarrow> None
                | Some m \<Rightarrow> Some \<lparr>code = 0, served = http_servers cfg, health = Some (MarkReady hs), registry = m, capst = NoCap\<rparr>)
             else run_active E cfg M m hs node ndrConfigured))"

text \<open>\<open>main\<close>: the exit code.\<close>

definition main :: "'m run_env \<Rightarrow> int option" where
  "main E = map_option code (run E)"

section \<open>Lemmas\<close>

text \<open>Once the context has ended the servers are shut down, and a server that ends because of that
  logs nothing.\<close>

lemma serve_quiet:
  "Shutdown (3 * Second) \<in> set (snd (serve addr h evs)) \<longleftrightarrow> CtxDone \<in> set evs"
  "(\<forall>a e. LogError a e \<notin> set (snd (serve addr h evs))) \<longleftrightarrow>
     (\<forall>e. ListenReturned (Some e) \<in> set evs \<longrightarrow> e = ErrServerClosed)"
proof -
  let ?srv = "\<lparr>srv_Addr = addr, srv_Handler = h, ReadHeaderTimeout = 5 * Second\<rparr>"
  have "Shutdown d \<in> set (serve_step ?srv ev) \<longleftrightarrow> ev = CtxDone \<and> d = 3 * Second"
    "LogError a e \<in> set (serve_step ?srv ev) \<longleftrightarrow> ev = ListenReturned (Some e) \<and> e \<noteq> ErrServerClosed \<and> a = addr" for ev d a e
    by (cases ev; auto split: option.splits if_splits)+
  then show "Shutdown (3 * Second) \<in> set (snd (serve addr h evs)) \<longleftrightarrow> CtxDone \<in> set evs"
    "(\<forall>a e. LogError a e \<notin> set (snd (serve addr h evs))) \<longleftrightarrow>
       (\<forall>e. ListenReturned (Some e) \<in> set evs \<longrightarrow> e = ErrServerClosed)"
    by (auto simp: serve_def Let_def)
qed

lemma Load_forwarder:
  assumes "Load env = (cfg, None)"
  shows "Forward.New v6 dial addr (VNI cfg) (NDRMTU cfg) \<noteq> Inl NewPanic"
    "Forward.New v6 dial addr (VNI cfg) (NDRMTU cfg) \<noteq> Inl (VniOutOfRange v)"
proof -
  have l: "100 \<le> NDRMTU cfg" "VNI cfg AND 0xff000000 = 0"
    using iffD1 [OF Load_None assms] by (auto simp: unat_vni intro!: vni_mask32)
  then have "copy_into (replicate (nat (NDRMTU cfg - 50 + 8)) 0) 0 8 (vxlan_header (VNI cfg)) \<noteq> None"
    by (simp add: slice_defs)
  with l show "Forward.New v6 dial addr (VNI cfg) (NDRMTU cfg) \<noteq> Inl NewPanic"
    "Forward.New v6 dial addr (VNI cfg) (NDRMTU cfg) \<noteq> Inl (VniOutOfRange v)"
    by (auto simp: Forward.New_def Let_def VXLANOverhead_def split: option.splits)
qed

context prom_registry
begin

lemma run_capture_total:
  assumes "P = r_prom E" "Load env = (cfg, None)" "\<forall>s. amount P m s + load (r_turns E) < 2 ^ 53"
  shows "\<exists>res. run_capture E cfg metrics m hs cap = Some res \<and> code res \<in> {0, 1} \<and> health res \<noteq> None \<and> served res = http_servers cfg"
proof (cases "Forward.New (r_v6 E) (r_dial E) (NDRAddr cfg) (VNI cfg) (NDRMTU cfg)")
  case (Inl e)
  with Load_forwarder(1) [OF assms(2)] have "e \<noteq> NewPanic" by metis
  with Inl show ?thesis by (auto simp: run_capture_def Let_def split: sum.splits)
next
  case (Inr fwd)
  obtain m' f' where "packet_loop P metrics (r_turns E) (MarkReady hs, m, fwd) =
      Some (health_run (MarkReady hs) (loop_events fwd (r_turns E)), m', f')"
    using packet_loop_sums [OF New_Inr(1) [OF Inr] assms(3)] by blast
  with Inr assms(1) show ?thesis
    by (auto simp: run_capture_def Let_def split: sum.splits prod.splits bool.splits)
qed

lemma run_total:
  assumes "P = r_prom E" "registered (r_reg E) = {}" "\<forall>s. p_val P (r_reg E) s = None"
    "load (r_turns E) + 1 < 2 ^ 53"
  shows "\<exists>res. run E = Some res \<and> main E = Some (code res) \<and> code res \<in> {0, 1, 2} \<and>
    (case Load (r_env E) of
       (cfg, Some e) \<Rightarrow> code res = 2 \<and> capst res = NoCap \<and> health res = None
     | (cfg, None) \<Rightarrow>
         code res \<noteq> 2 \<and> (\<exists>hs. health res = Some hs) \<and> served res = http_servers cfg \<and>
         (NDRAddr cfg = [] \<longrightarrow> code res = 0 \<and> capst res = NoCap \<and>
            health res = Some (MarkReady (Health.New (word_of_int (30 * Second))))))"
proof -
  obtain cfg err where l: "Load (r_env E) = (cfg, err)" by fastforce
  obtain m where n: "Metrics.New (r_prom E) (r_reg E) = Some (metrics, m)"
    using New_fresh [OF assms(2,3)] assms(1) by blast
  have z: "amount P m s = 0" for s using exported_New(4) [OF assms(2,3)] n assms(1) by simp
  have labels: "length (d_labels (Metrics.CaptureMode metrics)) = 1" "length (d_labels (Info metrics)) = 4"
    by (simp_all add: metrics_def)
  show ?thesis
  proof (cases err)
    case (Some e)
    with l show ?thesis by (simp add: run_def main_def)
  next
    case None
    show ?thesis
    proof (cases "NDRAddr cfg = []")
      case True
      with None l n labels show ?thesis
        by (simp add: run_def main_def Let_def vec_set_def WithLabelValues_def)
    next
      case False
      let ?hs = "Health.New (word_of_int (30 * Second))" and ?node = "getenv (r_env E) ''NODE_NAME'' []"
      let ?m = "\<lambda>mode. p_set P (d_name (Info metrics), [r_version E, ?node, mode, ''true''])
        1 (p_set P (d_name (Metrics.CaptureMode metrics), [mode]) 1 m)"
      have b: "\<forall>s. amount P (?m mode) s + load (r_turns E) < 2 ^ 53" for mode
        using assms(4) by (simp add: amount_set z)
      have "\<exists>res. run_active E cfg metrics m ?hs ?node ''true'' = Some res \<and> code res \<in> {0, 1} \<and> health res \<noteq> None \<and> served res = http_servers cfg"
      proof (cases "Pick (r_features E) (Config.CaptureMode cfg)")
        case (Inr mode)
        show ?thesis
          using run_capture_total [OF assms(1) l [unfolded None] b [of mode], of ?hs] labels assms(1)
          by (auto simp: run_active_def Inr vec_set_def WithLabelValues_def split: option.splits)
      qed (simp add: run_active_def)
      with False None l n show ?thesis by (auto simp: run_def main_def Let_def)
    qed
  qed
qed

end

section \<open>Release of resources\<close>

text \<open>No descriptor, no BPF link.\<close>

fun released :: "capstate \<Rightarrow> bool" where
  "released NoCap = True"
| "released (CapT t h) = (open_links h = {})"
| "released (CapA a h) = (open_fds h = {})"

lemma close_each_open: "open_fds (close_each os fds h) = open_fds h - set fds"
  by (induction fds arbitrary: h) (auto simp: sys_eq)

lemma Close_empty:
  assumes "open_fds h = {}" "Close os rng a h = (a', h')"
  shows "open_fds h' = {}"
  using assms
  by (auto simp: Close_def closeFDs_eq Let_def wakeShutdown_def sys_eq fd_step_other close_each_open
      split: if_splits)

text \<open>The assumptions on the world outside, collected.\<close>

definition lawful :: "'m run_env \<Rightarrow> (string \<Rightarrow> int) \<Rightarrow> bool" where
  "lawful E index \<longleftrightarrow>
     fd_kernel (r_os E) \<and> link_kernel (r_tos E) index \<and> range_order (r_rng E) \<and> range_order (r_lrng E) \<and>
     (\<forall>is. r_ifaces E = Inr is \<longrightarrow> distinct (map ifi_name is))"

lemma build_released:
  assumes "lawful E index" "build_capturer E mode = Some cap"
  shows "released (close_cap E cap)"
    "(case cap of NoCap \<Rightarrow> False | CapT t h \<Rightarrow> NewTCBPF (r_tos E) [] = (Inr t, h)
      | CapA a h \<Rightarrow> a = NewAFPacket Default \<and> h = [])"
proof -
  have law: "fd_kernel (r_os E)" "link_kernel (r_tos E) index" "range_order (r_rng E)" "range_order (r_lrng E)"
    using assms(1) by (simp_all add: lawful_def)
  from assms(2) consider (t) t h where "cap = CapT t h" "NewTCBPF (r_tos E) [] = (Inr t, h)"
    | (a) "cap = CapA (NewAFPacket Default) []"
    by (auto simp: build_capturer_def split: if_splits sum.splits prod.splits)
  then have "released (close_cap E cap) \<and> (case cap of NoCap \<Rightarrow> False
      | CapT t h \<Rightarrow> NewTCBPF (r_tos E) [] = (Inr t, h) | CapA a h \<Rightarrow> a = NewAFPacket Default \<and> h = [])"
  proof cases
    case t
    obtain e t' h' where c: "tc_Close (r_tos E) (r_lrng E) t h = (e, t', h')" by (metis prod_cases3)
    have "tc_owns {} t h" "\<not> TCBPF.closed t"
      using link_kernel.NewTCBPF_inv [OF law(2) t(2)] by (simp_all add: tc_inv_def)
    from tc_Close_owns [OF law(4) this c] t c show ?thesis by simp
  next
    case a
    obtain a' h' where c: "Close (r_os E) (r_rng E) (NewAFPacket Default) [] = (a', h')" by fastforce
    from Close_empty [OF _ c] a c show ?thesis by simp
  qed
  then show "released (close_cap E cap)"
    "(case cap of NoCap \<Rightarrow> False | CapT t h \<Rightarrow> NewTCBPF (r_tos E) [] = (Inr t, h)
      | CapA a h \<Rightarrow> a = NewAFPacket Default \<and> h = [])" by blast+
qed

lemma started_released:
  assumes "lawful E index" "build_capturer E mode = Some cap" "distinct names" "start_cap E names cap = (ok, cap')"
  shows "released (close_cap E (if ok then watch_cap E cs cap' else cap'))"
proof -
  have law: "fd_kernel (r_os E)" "link_kernel (r_tos E) index" "range_order (r_rng E)" "range_order (r_lrng E)"
    using assms(1) by (simp_all add: lawful_def)
  show ?thesis
  proof (cases cap)
    case (CapT t0 h0)
    obtain r t h where st: "tc_Start (r_tos E) names t0 h0 = (r, t, h)" by (metis prod_cases3)
    define cbs where "cbs = (if ok then cs else [])"
    obtain t1 h1 where w: "run_callbacks (tc_att (r_tos E)) (tc_det (r_tos E)) cbs (t, h) = (t1, h1)" by fastforce
    obtain e t2 h2 where c: "tc_Close (r_tos E) (r_lrng E) (fst (t1, h1)) (snd (t1, h1)) = (e, t2, h2)" by (metis prod_cases3)
    have new: "NewTCBPF (r_tos E) [] = (Inr t0, h0)" using build_released(2) [OF assms(1,2)] CapT by simp
    have "open_links h2 = {}" using link_kernel.tc_lifecycle [OF law(2,4) new st w [symmetric] c] by blast
    then show ?thesis using assms(4) CapT st w c by (auto simp: cbs_def split: if_splits)
  next
    case (CapA a0 h0)
    then have new: "a0 = NewAFPacket Default" "h0 = []" using build_released(2) [OF assms(1,2)] by simp_all
    obtain r a h where st: "Start (r_os E) (r_basm E) (r_rng E) names (NewAFPacket Default) [] = (r, a, h)"
      by (metis prod_cases3)
    show ?thesis
    proof (cases r)
      case None
      obtain a1 h1 where w: "run_callbacks (afp_att (r_os E) (r_basm E)) (afp_det (r_os E)) cs (a, h) = (a1, h1)" by fastforce
      obtain a2 h2 where c: "Close (r_os E) (r_rng E) (fst (a1, h1)) (snd (a1, h1)) = (a2, h2)" by fastforce
      from fd_kernel.lifecycle [OF law(1,3) assms(3) st [unfolded None] w [symmetric] c] have "open_fds h2 = {}" by blast
      then show ?thesis using assms(4) CapA new st None w c by auto
    next
      case (Some e)
      obtain a2 h2 where c: "Close (r_os E) (r_rng E) a h = (a2, h2)" by fastforce
      have "open_fds h = {}" using fd_kernel.Start_fresh [OF law(1,3) assms(3) st] Some by simp
      from Close_empty [OF this c] show ?thesis using assms(4) CapA new st Some c by auto
    qed
  qed (use build_released(2) [OF assms(1,2)] in simp)
qed

lemma run_capture_released:
  assumes "lawful E index" "build_capturer E mode = Some cap" "run_capture E cfg M m hs cap = Some res"
  shows "released (capst res)"
proof (cases "ListIfaces (r_ifaces E)")
  case (Inl e)
  with assms build_released(1) [OF assms(1,2)] show ?thesis by (auto simp: run_capture_def Let_def)
next
  case (Inr names)
  then obtain is' where "r_ifaces E = Inr is'" "names = list_loop is'"
    by (auto simp: ListIfaces_def split: sum.splits)
  with assms(1) have "distinct (map ifi_name is')" "names = list_loop is'" by (auto simp: lawful_def)
  then have d: "distinct names" by (simp add: list_loop_filter distinct_map_filter)
  obtain ok cap' where st: "start_cap E names cap = (ok, cap')" by fastforce
  from Inr assms(3) build_released(1) [OF assms(1,2)] started_released [OF assms(1,2) d st, of "r_watch E"] st
  show ?thesis
    by (cases ok) (auto simp: run_capture_def Let_def split: if_splits sum.splits option.splits)
qed

section \<open>Properties\<close>


definition example_run :: "env \<Rightarrow> ref_reg run_env" where
  "example_run env = \<lparr>r_env = env, r_version = version, r_prom = ref_prom, r_reg = ([], Map.empty),
     r_features = \<lparr>HaveRingBuf = None, HaveSchedCLS = None\<rparr>, r_tos = ref_tc ref_index, r_os = lowest_fd,
     r_basm = ret_basm, r_rng = id, r_lrng = id,
     r_ifaces = Inr [\<lparr>ifi_name = ''eth0'', ifi_flags = 1\<rparr>], r_v6 = (\<lambda>_. None), r_dial = (\<lambda>_ _. None),
     r_watch = [OnAdd ''veth1''], r_turns = []\<rparr>"

lemma example_run_lawful:
  "lawful (example_run env) ref_index" "prom_registry (r_prom (example_run env)) (\<lambda>m. set (fst m))"
  "set (fst (r_reg (example_run env))) = {}" "\<forall>s. p_val (r_prom (example_run env)) (r_reg (example_run env)) s = None"
  "load (r_turns (example_run env)) + 1 < 2 ^ 53"
  using ref_kernel.fd_kernel_axioms ref_link.link_kernel_axioms ref_registry.prom_registry_axioms
  by (simp_all add: lawful_def example_run_def ref_prom_def load_def)




lemma watch_backoff:
  "\<forall>run \<in> set runs. (\<exists>cbs e. run = ((cbs, WatchErr e), False)) \<Longrightarrow>
     snd (watch_restarts runs (Second * min (2 ^ k) 32)) =
       map (\<lambda>i. Second * min (2 ^ i) 32) [k..<k + length runs]"
proof (induction runs arbitrary: k)
  case (Cons run runs)
  then obtain cbs e where r: "run = ((cbs, WatchErr e), False)" by auto
  have "(if Second * min (2 ^ k) 32 < 30 * Second then Second * min (2 ^ k) 32 * 2 else Second * min (2 ^ k) 32) =
      Second * min (2 ^ Suc k) 32"
  proof (cases "k < 5")
    case True
    then consider "k = 0" | "k = 1" | "k = 2" | "k = 3" | "k = 4" by linarith
    then show ?thesis by cases (simp_all add: Second_def)
  next
    case False
    then have "(2 :: int) ^ 5 \<le> 2 ^ k" by (intro power_increasing) simp_all
    then show ?thesis by (simp add: Second_def min_def)
  qed
  moreover have u: "[k..<k + length (run # runs)] = k # [Suc k..<Suc k + length runs]"
    by (simp add: upt_conv_Cons del: upt_Suc)
  ultimately show ?case
    using Cons.IH [of "Suc k"] Cons.prems unfolding u
    by (auto simp: r case_prod_beta simp del: upt_Suc power_Suc)
qed simp

text \<open>C29: the waits between restarts of a watcher that keeps failing. They double from one second and
  stop growing at 32 seconds, the first value that is not below the limit of 30.\<close>

theorem watch_backoff_bounds:
  assumes "\<forall>run \<in> set runs. (\<exists>cbs e. run = ((cbs, WatchErr e), False))"
  shows "snd (watch_restarts runs Second) = map (\<lambda>i. Second * min (2 ^ i) 32) [0..<length runs]"
  using watch_backoff [OF assms, of 0] by simp

theorem watch_backoff_bounds_witness:
  "snd (watch_restarts (replicate 7 (([], WatchErr ''closed''), False)) Second) =
     map (\<lambda>s. s * Second) [1, 2, 4, 8, 16, 32, 32]"
  using watch_backoff_bounds [of "replicate 7 (([], WatchErr ''closed''), False)"]
  by (simp add: upt_conv_Cons Second_def)

end
