(* ===== verification/Source.thy ===== *)
theory Source
  imports Capture
begin

text \<open>
  What the capture goroutines of the two backends have in common, for the pipeline that they feed.
  Both are loops of blocking calls that end in the same statement: count the packet, then
  \<open>select\<close> between sending it to the channel and the end of the context. The locale
  \<open>capture_source\<close> is that contract: one answer of the kernel at a time, and what the loop does
  until it next blocks.
\<close>

section \<open>Steps of a capture goroutine\<close>

text \<open>\<open>Goes\<close>: on to the next call. \<open>Offers\<close>: at the \<open>select\<close> with a packet. \<open>Returns\<close>: the goroutine
  ends, and its deferred \<open>close(out)\<close> runs.\<close>

datatype 's outcome = Goes 's | Offers Packet 's | Returns 's | Panics

text \<open>The goroutine on answers, each with the arm that a \<open>select\<close> it leads to takes. The first
  component tells whether it is still running. \<open>None\<close>: a panic, or an answer to another call.\<close>

fun source_run ::
  "('s \<Rightarrow> 'i \<Rightarrow> 's outcome option) \<Rightarrow> ('i \<times> bool) list \<Rightarrow> 's \<Rightarrow> Packet list \<Rightarrow> (bool \<times> 's \<times> Packet list) option"
where
  "source_run nxt [] s out = Some (True, s, out)"
| "source_run nxt ((i, sent) # is) s out =
     (case nxt s i of
        Some (Goes s) \<Rightarrow> source_run nxt is s out
      | Some (Offers pkt s) \<Rightarrow> if sent then source_run nxt is s (out @ [pkt]) else Some (False, s, out)
      | Some (Returns s) \<Rightarrow> Some (False, s, out)
      | _ \<Rightarrow> None)"

lemma source_run_append:
  "source_run nxt is s out = Some (True, s', out') \<Longrightarrow> source_run nxt (is @ js) s out = source_run nxt js s' out'"
  by (induction nxt "is" s out rule: source_run.induct) (auto split: option.splits outcome.splits if_splits)

text \<open>\<open>quiet s\<close>: the answers that a kernel without new traffic gives once the shutdown has been
  posted. \<open>wakes\<close>: whatever these answers are, the goroutine returns, without another packet.\<close>

inductive wakes :: "('s \<Rightarrow> 'i \<Rightarrow> 's outcome option) \<Rightarrow> ('s \<Rightarrow> 'i \<Rightarrow> bool) \<Rightarrow> 's \<Rightarrow> bool"
  for nxt :: "'s \<Rightarrow> 'i \<Rightarrow> 's outcome option" and quiet :: "'s \<Rightarrow> 'i \<Rightarrow> bool"
where
  wakesI: "\<exists>i. quiet s i \<Longrightarrow>
    (\<And>i. quiet s i \<Longrightarrow> (\<exists>s'. nxt s i = Some (Returns s')) \<or> (\<exists>s'. nxt s i = Some (Goes s') \<and> wakes nxt quiet s')) \<Longrightarrow>
    wakes nxt quiet s"

text \<open>\<open>cnt\<close> is the counter of captured packets.\<close>

locale capture_source =
  fixes nxt :: "'s \<Rightarrow> 'i \<Rightarrow> 's outcome option" and quiet :: "'s \<Rightarrow> 'i \<Rightarrow> bool" and cnt :: "'s \<Rightarrow> u64"
  assumes no_panic: "nxt s i \<noteq> Some Panics"
    and goes_count: "nxt s i = Some (Goes s') \<Longrightarrow> cnt s' = cnt s"
    and offers_count: "nxt s i = Some (Offers pkt s') \<Longrightarrow> cnt s' = cnt s + 1"
    and returns_count: "nxt s i = Some (Returns s') \<Longrightarrow> cnt s' = cnt s"
    and quiet_wakes: "wakes nxt quiet s"
begin

text \<open>Only a packet that met the end of the context is counted and not delivered, and it is the last.\<close>

lemma source_run_count:
  "source_run nxt is s out = Some (live, s', out') \<Longrightarrow>
     \<exists>new lost. out' = out @ new \<and> cnt s' = cnt s + of_nat (length new) + of_nat lost \<and> lost \<le> (if live then 0 else 1)"
proof (induction "is" arbitrary: s out)
  case (Cons x "is")
  obtain i sent where x: "x = (i, sent)" by fastforce
  from Cons.prems consider s1 where "nxt s i = Some (Goes s1)" "source_run nxt is s1 out = Some (live, s', out')"
    | pkt s1 where "nxt s i = Some (Offers pkt s1)" "sent" "source_run nxt is s1 (out @ [pkt]) = Some (live, s', out')"
    | pkt where "nxt s i = Some (Offers pkt s')" "\<not> live" "out' = out"
    | "nxt s i = Some (Returns s')" "\<not> live" "out' = out"
    by (auto simp: x split: option.splits outcome.splits if_splits)
  then show ?case
  proof cases
    case (1 s1)
    with Cons.IH [OF 1(2)] show ?thesis by (simp add: goes_count)
  next
    case (2 pkt s1)
    from Cons.IH [OF 2(3)] obtain new lost where "out' = out @ (pkt # new)"
      "cnt s' = cnt s + of_nat (length (pkt # new)) + of_nat lost" "lost \<le> (if live then 0 else 1)"
      by (auto simp: offers_count [OF 2(1)] algebra_simps)
    then show ?thesis by blast
  next
    case (3 pkt)
    then show ?thesis by (intro exI [of _ "[]"] exI [of _ "1 :: nat"]) (simp add: offers_count)
  next
    case 4
    then show ?thesis by (intro exI [of _ "[]"] exI [of _ "0 :: nat"]) (simp add: returns_count)
  qed
qed simp

end

end
