(* ===== verification/Afp_Source.thy ===== *)
theory Afp_Source
  imports Afp_Loop Source
begin

text \<open>
  \<open>eventLoop\<close> and \<open>drainSocket\<close> of \<open>internal/capture/afpacket.go\<close> as a \<open>capture_source\<close>: the same loops as in
  theory \<open>Afp_Loop\<close>, cut at their system calls and at the lookup under \<open>socketsMu\<close>.
\<close>

section \<open>The machine\<close>

text \<open>In \<open>epoll_wait\<close>; with the rest of a batch, before the lookup of its first descriptor; in
  \<open>drainSocket\<close> on a socket with its name, with the rest of the batch.\<close>

datatype afp_pc = AWait | ABatch "32 word" "32 word list" | ADrain string "32 word list"

datatype afp_answer = AWaitErr errno | AWaitOK "32 word list" | ALookup "table_change list"
  | AReadErr errno | AReadOK bytes

fun next_event :: "32 word list \<Rightarrow> afp_pc" where
  "next_event [] = AWait"
| "next_event (fd # fds) = ABatch fd fds"

fun afp_next :: "AFPacket \<times> afp_pc \<Rightarrow> afp_answer \<Rightarrow> (AFPacket \<times> afp_pc) outcome option" where
  "afp_next (a, AWait) (AWaitErr e) = Some (if e = EINTR then Goes (a, AWait) else Returns (a, AWait))"
| "afp_next (a, AWait) (AWaitOK fds) = Some (Goes (a, next_event fds))"
| "afp_next (a, ABatch fd fds) (ALookup cs) =
     Some (if fd = int32 (eventFD a) then Returns (a, ABatch fd fds)
       else let a = change_table cs a;
                name = (case ifaceByFD a fd of Some n \<Rightarrow> n | None \<Rightarrow> [])
            in Goes (a, ADrain name fds))"
| "afp_next (a, ADrain name fds) (AReadErr e) =
     Some (if e = EAGAIN then Goes (a, next_event fds)
       else if e = EINTR then Goes (a, ADrain name fds)
       else Returns (a, ADrain name fds))"
| "afp_next (a, ADrain name fds) (AReadOK d) =
     (let data = take (buf a) d in
      Some (if length data = 0 then Goes (a, next_event fds)
        else Offers \<lparr>Data = data, Iface = name, Dir = DirUnknown\<rparr> (a\<lparr>captured := captured a + 1\<rparr>, ADrain name fds)))"
| "afp_next s i = None"

definition afp_count :: "AFPacket \<times> afp_pc \<Rightarrow> u64" where
  "afp_count s = captured (fst s)"

section \<open>It is the event loop\<close>

lemma drainSocket_machine:
  "drainSocket name rs a out = (r, a', out') \<Longrightarrow>
     \<exists>is pc. source_run afp_next is (a, ADrain name fds) out = Some (r \<noteq> Some False, (a', pc), out') \<and>
       (r = None \<longrightarrow> pc = ADrain name fds) \<and> (r = Some True \<longrightarrow> pc = next_event fds)"
proof (induction name rs a out rule: drainSocket.induct)
  case (1 name a out)
  then show ?case by (intro exI [of _ "[]"]) simp
next
  case (2 name e rs a out)
  show ?case
  proof (cases "e = EINTR")
    case True
    with 2 obtain "is" pc where "source_run afp_next is (a, ADrain name fds) out = Some (r \<noteq> Some False, (a', pc), out')"
      "r = None \<longrightarrow> pc = ADrain name fds" "r = Some True \<longrightarrow> pc = next_event fds" by auto
    with True show ?thesis by (intro exI [of _ "(AReadErr EINTR, True) # is"]) auto
  next
    case False
    with 2 show ?thesis by (intro exI [of _ "[(AReadErr e, True)]"]) (auto split: if_splits)
  qed
next
  case (3 name d sent rs a out)
  let ?a = "a\<lparr>captured := captured a + 1\<rparr>" and ?p = "\<lparr>Data = take (buf a) d, Iface = name, Dir = DirUnknown\<rparr>"
  consider "take (buf a) d = []" | "take (buf a) d \<noteq> []" "\<not> sent" | "take (buf a) d \<noteq> []" "sent" by blast
  then show ?case
  proof cases
    case 1
    with 3 show ?thesis by (intro exI [of _ "[(AReadOK d, True)]"]) (auto simp: Let_def)
  next
    case 2
    with 3 show ?thesis by (intro exI [of _ "[(AReadOK d, False)]"]) (auto simp: Let_def)
  next
    case _: 3
    then have "drainSocket name rs ?a (out @ [?p]) = (r, a', out')" using "3.prems" by (simp add: Let_def)
    from "3.IH" [OF refl _ refl \<open>sent\<close> this] \<open>take (buf a) d \<noteq> []\<close> obtain "is" pc where
      "source_run afp_next is (?a, ADrain name fds) (out @ [?p]) = Some (r \<noteq> Some False, (a', pc), out')"
      "r = None \<longrightarrow> pc = ADrain name fds" "r = Some True \<longrightarrow> pc = next_event fds" by auto
    with \<open>take (buf a) d \<noteq> []\<close> show ?thesis by (intro exI [of _ "(AReadOK d, True) # is"]) (auto simp: Let_def)
  qed
qed

lemma drain_batch_machine:
  "drain_batch evs a out = (r, a', out') \<Longrightarrow>
     \<exists>is pc. source_run afp_next is (a, next_event (map (fst \<circ> snd) evs)) out = Some (r \<noteq> Some False, (a', pc), out') \<and>
       (r = Some True \<longrightarrow> pc = AWait)"
proof (induction evs arbitrary: a out)
  case Nil
  then show ?case by (intro exI [of _ "[]"]) auto
next
  case (Cons ev evs)
  obtain cs fd rs where ev: "ev = (cs, fd, rs)" by (metis prod_cases3)
  let ?fds = "map (fst \<circ> snd) evs" and ?a = "change_table cs a"
  let ?name = "case ifaceByFD ?a fd of Some n \<Rightarrow> n | None \<Rightarrow> []"
  show ?case
  proof (cases "fd = int32 (eventFD a)")
    case True
    with Cons.prems show ?thesis by (intro exI [of _ "[(ALookup cs, True)]"]) (auto simp: ev)
  next
    case False
    obtain r1 a1 out1 where d: "drainSocket ?name rs ?a out = (r1, a1, out1)" by (metis prod_cases3)
    from drainSocket_machine [OF d, of ?fds] obtain "is" pc where
      run: "source_run afp_next is (?a, ADrain ?name ?fds) out = Some (r1 \<noteq> Some False, (a1, pc), out1)"
      and pc: "r1 = Some True \<longrightarrow> pc = next_event ?fds" by blast
    have start: "source_run afp_next ((ALookup cs, True) # js) (a, next_event (map (fst \<circ> snd) (ev # evs))) out =
        source_run afp_next js (?a, ADrain ?name ?fds) out" for js
      using False by (simp add: ev Let_def)
    show ?thesis
    proof (cases "r1 = Some True")
      case True
      then have "drain_batch evs a1 out1 = (r, a', out')" using Cons.prems False d by (simp add: ev Let_def)
      from Cons.IH [OF this] obtain js pc' where
        "source_run afp_next js (a1, next_event ?fds) out1 = Some (r \<noteq> Some False, (a', pc'), out')"
        "r = Some True \<longrightarrow> pc' = AWait" by blast
      with source_run_append [of afp_next "is" "(?a, ADrain ?name ?fds)" out "(a1, pc)" out1 js] run pc True show ?thesis
        by (intro exI [of _ "(ALookup cs, True) # is @ js"]) (simp only: start, auto)
    next
      case n: False
      then have "r = r1 \<and> a' = a1 \<and> out' = out1" using Cons.prems False d by (auto simp: ev Let_def split: option.splits bool.splits)
      with run n show ?thesis by (intro exI [of _ "(ALookup cs, True) # is"]) (simp only: start, auto)
    qed
  qed
qed

text \<open>Whatever the event loop of theory \<open>Afp_Loop\<close> does on its inputs, the machine does on some answers.\<close>

lemma eventLoop_machine:
  "eventLoop ws a out = (r, a', out') \<Longrightarrow>
     \<exists>is pc. source_run afp_next is (a, AWait) out = Some (r = None, (a', pc), out')"
proof (induction ws arbitrary: a out)
  case Nil
  then show ?case by (intro exI [of _ "[]"]) auto
next
  case (Cons w ws)
  show ?case
  proof (cases w)
    case (WaitErr e)
    show ?thesis
    proof (cases "e = EINTR")
      case True
      then have "eventLoop ws a out = (r, a', out')" using Cons.prems WaitErr by simp
      from Cons.IH [OF this] obtain "is" pc where "source_run afp_next is (a, AWait) out = Some (r = None, (a', pc), out')" by blast
      with True show ?thesis by (intro exI [of _ "(AWaitErr EINTR, True) # is"]) auto
    next
      case False
      with Cons.prems WaitErr show ?thesis by (intro exI [of _ "[(AWaitErr e, True)]"]) (auto split: if_splits)
    qed
  next
    case (WaitOK evs)
    obtain r1 a1 out1 where d: "drain_batch evs a out = (r1, a1, out1)" by (metis prod_cases3)
    from drain_batch_machine [OF d] obtain "is" pc where
      run: "source_run afp_next is (a, next_event (map (fst \<circ> snd) evs)) out = Some (r1 \<noteq> Some False, (a1, pc), out1)"
      and pc: "r1 = Some True \<longrightarrow> pc = AWait" by blast
    have start: "source_run afp_next ((AWaitOK (map (fst \<circ> snd) evs), True) # js) (a, AWait) out =
        source_run afp_next js (a, next_event (map (fst \<circ> snd) evs)) out" for js by simp
    show ?thesis
    proof (cases "r1 = Some True")
      case True
      then have "eventLoop ws a1 out1 = (r, a', out')" using Cons.prems WaitOK d by simp
      from Cons.IH [OF this] obtain js pc' where "source_run afp_next js (a1, AWait) out1 = Some (r = None, (a', pc'), out')" by blast
      with source_run_append [OF run [unfolded True, simplified], of js] pc True show ?thesis
        by (intro exI [of _ "(AWaitOK (map (fst \<circ> snd) evs), True) # is @ js"]) (auto simp: start)
    next
      case False
      then have "r = r1 \<and> a' = a1 \<and> out' = out1" using Cons.prems WaitOK d by (auto split: option.splits bool.splits)
      with run False show ?thesis
        by (intro exI [of _ "(AWaitOK (map (fst \<circ> snd) evs), True) # is"]) (cases r1, auto simp: start)
    qed
  qed
qed

section \<open>Its contract\<close>

text \<open>After the post: \<open>epoll_wait\<close> reports the event descriptor, and the sockets are empty.\<close>

fun afp_quiet :: "AFPacket \<times> afp_pc \<Rightarrow> afp_answer \<Rightarrow> bool" where
  "afp_quiet (a, AWait) i = (i = AWaitOK [int32 (eventFD a)])"
| "afp_quiet (a, ABatch fd fds) i = (i = ALookup [])"
| "afp_quiet (a, ADrain name fds) i = (i = AReadErr EAGAIN)"

lemma next_event_wakes: "wakes afp_next afp_quiet (a, next_event fds)"
proof (induction fds)
  case Nil
  have "wakes afp_next afp_quiet (a, ABatch (int32 (eventFD a)) [])" by (rule wakesI) auto
  then have "wakes afp_next afp_quiet (a, AWait)" by (intro wakesI) auto
  then show ?case by simp
next
  case (Cons fd fds)
  then have "wakes afp_next afp_quiet (a, ADrain name fds)" for name by (intro wakesI) auto
  then show ?case by (intro wakesI) (auto simp: Let_def)
qed

interpretation afp_source: capture_source afp_next afp_quiet afp_count
proof
  fix s :: "AFPacket \<times> afp_pc" and i s' pkt
  obtain a pc where s: "s = (a, pc)" by fastforce
  show "afp_next s i \<noteq> Some Panics" by (cases "(s, i)" rule: afp_next.cases) (auto simp: Let_def split: if_splits)
  show "afp_next s i = Some (Goes s') \<Longrightarrow> afp_count s' = afp_count s"
    "afp_next s i = Some (Offers pkt s') \<Longrightarrow> afp_count s' = afp_count s + 1"
    "afp_next s i = Some (Returns s') \<Longrightarrow> afp_count s' = afp_count s"
    by (cases "(s, i)" rule: afp_next.cases, auto simp: Let_def afp_count_def change_table_eq split: if_splits)+
  show "wakes afp_next afp_quiet s"
  proof (cases pc)
    case (ADrain name fds)
    then show ?thesis using next_event_wakes [of a fds] by (intro wakesI) (auto simp: s)
  qed (use next_event_wakes [of a "[]"] next_event_wakes [of a "_ # _"] in \<open>auto simp: s\<close>)
qed

end
