(* ===== verification/Tc_Source.thy ===== *)
theory Tc_Source
  imports Tc_Loop Source
begin

text \<open>
  \<open>reader\<close> of \<open>internal/capture/tcbpf.go\<close> as a \<open>capture_source\<close>: the loop of theory \<open>Tcbpf\<close>, cut at
  \<open>rb.Read()\<close>. \<open>Attach\<close> and \<open>Detach\<close> change the table of names under \<open>linksMu\<close> while it waits.
\<close>

datatype tc_answer = TClosed | TErr | TSample bytes | TTable "(int \<times> string) list"

fun tc_next :: "TCBPF \<Rightarrow> tc_answer \<Rightarrow> TCBPF outcome option" where
  "tc_next t TClosed = Some (Returns t)"
| "tc_next t TErr = Some (Goes t)"
| "tc_next t (TSample raw) =
     Some (if length raw < evHdrLen then Goes t
       else case read_sample (ifaces t) raw of
           None \<Rightarrow> Panics
         | Some pkt \<Rightarrow> Offers pkt (t\<lparr>captured := captured t + 1\<rparr>))"
| "tc_next t (TTable names) = Some (Goes (t\<lparr>ifaces := names\<rparr>))"

text \<open>\<open>closeRB\<close> makes \<open>Read\<close> return \<open>ErrClosed\<close>.\<close>

definition tc_quiet :: "TCBPF \<Rightarrow> tc_answer \<Rightarrow> bool" where
  "tc_quiet t i \<longleftrightarrow> i = TClosed"

fun answer :: "rb_result \<Rightarrow> tc_answer \<times> bool" where
  "answer RbClosed = (TClosed, True)"
| "answer RbErr = (TErr, True)"
| "answer (RbSample raw sent) = (TSample raw, sent)"

lemma reader_machine: "reader rs t out = source_run tc_next (map answer rs) t out"
  by (induction rs t out rule: reader.induct) (auto simp: Let_def split: option.splits)

interpretation tc_source: capture_source tc_next tc_quiet captured
proof
  fix t t' i pkt
  show "tc_next t i \<noteq> Some Panics"
  proof (cases i)
    case (TSample raw)
    then show ?thesis
      using read_sample_total [of raw "ifaces t"] by (cases "length raw < evHdrLen") auto
  qed simp_all
  show "tc_next t i = Some (Goes t') \<Longrightarrow> captured t' = captured t"
    "tc_next t i = Some (Offers pkt t') \<Longrightarrow> captured t' = captured t + 1"
    "tc_next t i = Some (Returns t') \<Longrightarrow> captured t' = captured t"
    by (cases i; auto split: if_splits option.splits)+
  show "wakes tc_next tc_quiet t" by (rule wakesI) (simp_all add: tc_quiet_def)
qed

end
