(* ===== verification/Pipeline.thy ===== *)
theory Pipeline
  imports Goroutines Afp_Source Tc_Source
begin

text \<open>
  The pipeline of a running sensor: the capture goroutine of either backend, the channel
  \<open>make(chan Packet, 1024)\<close> that its \<open>Start\<close> returns, and the loop \<open>for pkt := range packets\<close> of \<open>run\<close>.
  The context may end at any time. Shown are what the channel does to the packets, and that
  a shutdown ends the loop.
\<close>

section \<open>Steps\<close>

definition chan_cap :: nat where "chan_cap = 1024"

text \<open>\<open>q_hand\<close>: the packet with which the goroutine is at its \<open>select\<close>. \<open>q_open\<close>: it has not returned,
  so the channel is open. \<open>q_run\<close>: \<open>run\<close> is in its loop. Auxiliary: the packets offered so far,
  the turns of the loop, and what the \<open>ctx.Done()\<close> arm dropped.\<close>

record ('s, 'm) pipe =
  q_src :: 's
  q_hand :: "Packet option"
  q_open :: bool
  q_chan :: "Packet list"
  q_done :: bool
  q_loop :: "Server \<times> 'm \<times> Forwarder"
  q_run :: bool
  q_offered :: "Packet list"
  q_turns :: "turn list"
  q_lost :: "Packet list"

text \<open>\<open>ok\<close> restricts the answers of the kernel. A turn of the loop is one turn of \<open>packet_loop\<close>; its clock
  and its socket answer are arbitrary.\<close>

inductive pstep ::
  "('s \<Rightarrow> 'i \<Rightarrow> 's outcome option) \<Rightarrow> ('s \<Rightarrow> 'i \<Rightarrow> bool) \<Rightarrow> 'm prom \<Rightarrow> ('s, 'm) pipe \<Rightarrow> ('s, 'm) pipe \<Rightarrow> bool"
  for nxt :: "'s \<Rightarrow> 'i \<Rightarrow> 's outcome option" and ok :: "'s \<Rightarrow> 'i \<Rightarrow> bool" and P :: "'m prom"
where
  ctx_done: "\<not> q_done w \<Longrightarrow> pstep nxt ok P w (w\<lparr>q_done := True\<rparr>)"
| src_goes: "q_open w \<Longrightarrow> q_hand w = None \<Longrightarrow> ok (q_src w) i \<Longrightarrow> nxt (q_src w) i = Some (Goes s) \<Longrightarrow>
    pstep nxt ok P w (w\<lparr>q_src := s\<rparr>)"
| src_offers: "q_open w \<Longrightarrow> q_hand w = None \<Longrightarrow> ok (q_src w) i \<Longrightarrow> nxt (q_src w) i = Some (Offers pkt s) \<Longrightarrow>
    pstep nxt ok P w (w\<lparr>q_src := s, q_hand := Some pkt, q_offered := q_offered w @ [pkt]\<rparr>)"
| src_returns: "q_open w \<Longrightarrow> q_hand w = None \<Longrightarrow> ok (q_src w) i \<Longrightarrow> nxt (q_src w) i = Some (Returns s) \<Longrightarrow>
    pstep nxt ok P w (w\<lparr>q_src := s, q_open := False\<rparr>)"
| select_send: "q_hand w = Some pkt \<Longrightarrow> length (q_chan w) < chan_cap \<Longrightarrow>
    pstep nxt ok P w (w\<lparr>q_hand := None, q_chan := q_chan w @ [pkt]\<rparr>)"
| select_done: "q_hand w = Some pkt \<Longrightarrow> q_done w \<Longrightarrow>
    pstep nxt ok P w (w\<lparr>q_hand := None, q_open := False, q_lost := q_lost w @ [pkt]\<rparr>)"
| loop_takes: "q_run w \<Longrightarrow> q_chan w = pkt # ps \<Longrightarrow> packet_loop P metrics [(pkt, t1, wr, t2)] (q_loop w) = Some st \<Longrightarrow>
    pstep nxt ok P w (w\<lparr>q_chan := ps, q_loop := st, q_turns := q_turns w @ [(pkt, t1, wr, t2)]\<rparr>)"
| loop_ends: "q_run w \<Longrightarrow> q_chan w = [] \<Longrightarrow> \<not> q_open w \<Longrightarrow> pstep nxt ok P w (w\<lparr>q_run := False\<rparr>)"

abbreviation (input) any_answer :: "'s \<Rightarrow> 'i \<Rightarrow> bool" where "any_answer \<equiv> \<lambda>_ _. True"

definition piped :: "'s \<Rightarrow> Server \<times> 'm \<times> Forwarder \<Rightarrow> ('s, 'm) pipe" where
  "piped s st = \<lparr>q_src = s, q_hand = None, q_open = True, q_chan = [], q_done = False, q_loop = st, q_run = True,
     q_offered = [], q_turns = [], q_lost = []\<rparr>"

section \<open>The packet loop, turn by turn\<close>

lemma packet_loop_append:
  "packet_loop P M (xs @ ys) st = Option.bind (packet_loop P M xs st) (packet_loop P M ys)"
proof (induction P M xs st rule: packet_loop.induct)
  case (2 P M pkt t1 wr t2 turns hs m fwd)
  then show ?case by (auto simp: Let_def split: option.splits)
qed simp

lemma packet_loop_total:
  assumes "fwd_inv f"
  shows "\<exists>hs' m' f'. packet_loop P metrics turns (hs, m, f) = Some (hs', m', f') \<and> fwd_inv f'"
  using assms
proof (induction turns arbitrary: hs m f)
  case (Cons turn turns)
  obtain pkt t1 wr t2 where t: "turn = (pkt, t1, wr, t2)" by (metis prod_cases4)
  obtain f' n dg where s: "Send wr f (Data pkt) = Some (f', n, dg)" using Send_inv [OF Cons.prems] by (metis prod_cases3)
  with Cons.IH Send_fwd_inv [OF Cons.prems s] show ?case by (simp add: t vec_add_series Let_def)
qed simp

section \<open>Invariant\<close>

definition pipe_inv ::
  "('s \<Rightarrow> u64) \<Rightarrow> 'm prom \<Rightarrow> u64 \<Rightarrow> Server \<times> 'm \<times> Forwarder \<Rightarrow> ('s, 'm) pipe \<Rightarrow> bool" where
  "pipe_inv cnt P n st w \<longleftrightarrow>
     q_offered w = map fst (q_turns w) @ q_chan w @ (case q_hand w of None \<Rightarrow> [] | Some pkt \<Rightarrow> [pkt]) @ q_lost w \<and>
     cnt (q_src w) = n + of_nat (length (q_offered w)) \<and> length (q_chan w) \<le> chan_cap \<and>
     length (q_lost w) \<le> 1 \<and> (q_lost w \<noteq> [] \<longrightarrow> q_done w \<and> \<not> q_open w) \<and>
     (q_hand w \<noteq> None \<longrightarrow> q_open w) \<and> (\<not> q_run w \<longrightarrow> \<not> q_open w \<and> q_chan w = []) \<and>
     packet_loop P metrics (q_turns w) st = Some (q_loop w)"

lemma piped_inv: "pipe_inv cnt P (cnt s) st (piped s st)"
  by (cases st) (simp add: pipe_inv_def piped_def)

context capture_source
begin

lemma pstep_inv: "pstep nxt ok P w w' \<Longrightarrow> pipe_inv cnt P n st w \<Longrightarrow> pipe_inv cnt P n st w'"
proof (induction rule: pstep.cases)
  case (loop_takes w pkt ps t1 wr t2 st')
  then show ?case by (auto simp: pipe_inv_def packet_loop_append)
qed (auto simp: pipe_inv_def goes_count offers_count returns_count split: option.splits)

lemma psteps_inv: "(pstep nxt ok P)\<^sup>*\<^sup>* w w' \<Longrightarrow> pipe_inv cnt P n st w \<Longrightarrow> pipe_inv cnt P n st w'"
  by (induction rule: rtranclp_induct) (auto intro: pstep_inv)

end

section \<open>Shutdown\<close>

text \<open>All that is left to do apart from the steps of the goroutine.\<close>

definition pipe_left :: "('s, 'm) pipe \<Rightarrow> nat" where
  "pipe_left w = (if q_hand w = None then 0 else 2) + length (q_chan w) + (if q_open w then 1 else 0) +
     (if q_run w then 1 else 0) + (if q_done w then 0 else 1)"

lemma pstep_left:
  assumes "pstep nxt ok P w w'"
  obtains (other) "pipe_left w' < pipe_left w" "q_src w' = q_src w"
  | (goes) i s where "q_open w" "ok (q_src w) i" "nxt (q_src w) i = Some (Goes s)" "w' = w\<lparr>q_src := s\<rparr>"
  | (offers) i pkt s where "q_open w" "ok (q_src w) i" "nxt (q_src w) i = Some (Offers pkt s)"
  | (returns) "pipe_left w' < pipe_left w" "q_open w" "\<not> q_open w'"
  using assms by cases (auto simp: pipe_left_def)

lemma closed_stays: "pstep nxt ok P w w' \<Longrightarrow> \<not> q_open w \<Longrightarrow> \<not> q_open w' \<and> pipe_left w' < pipe_left w"
  by (induction rule: pstep.cases) (auto simp: pipe_left_def)

lemma closed_bound: "(pstep nxt ok P ^^ k) w w' \<Longrightarrow> \<not> q_open w \<Longrightarrow> k + pipe_left w' \<le> pipe_left w"
proof (induction k arbitrary: w')
  case (Suc k)
  then obtain v where v: "(pstep nxt ok P ^^ k) w v" "pstep nxt ok P v w'" by auto
  have "\<not> q_open v" using v(1) Suc.prems(2) by (induction k arbitrary: v) (auto dest: closed_stays)
  with Suc.IH [OF v(1) Suc.prems(2)] closed_stays [OF v(2)] show ?case by simp
qed simp

lemma closed_ends: "\<not> q_open w \<Longrightarrow> termip (pstep nxt ok P) w"
proof (induction "pipe_left w" arbitrary: w rule: less_induct)
  case less
  show ?case
  proof (rule accp.accI)
    fix v assume "(pstep nxt ok P)\<inverse>\<inverse> v w"
    then have "\<not> q_open v" "pipe_left v < pipe_left w" using closed_stays [of nxt ok P w v] less.prems by simp_all
    then show "termip (pstep nxt ok P) v" by (intro less.hyps)
  qed
qed

lemma termip_no_chain: "termip R x \<Longrightarrow> f 0 = x \<Longrightarrow> \<not> (\<forall>i. R (f i) (f (Suc i)))"
proof (induction arbitrary: f rule: accp.induct)
  case (accI x)
  show ?case
  proof
    assume chain: "\<forall>i. R (f i) (f (Suc i))"
    then have "\<not> (\<forall>i. R (f (Suc i)) (f (Suc (Suc i))))"
      using accI(2) [of "f 1" "\<lambda>i. f (Suc i)"] accI.prems by (metis One_nat_def conversep_iff)
    with chain show False by blast
  qed
qed

lemma quiet_ends: "wakes nxt quiet s \<Longrightarrow> q_src w = s \<Longrightarrow> termip (pstep nxt quiet P) w"
proof (induction arbitrary: w rule: wakes.induct)
  case (wakesI s)
  note outer = wakesI.IH
  from wakesI.prems show ?case
  proof (induction "pipe_left w" arbitrary: w rule: less_induct)
    case less
    show ?case
    proof (rule accp.accI)
      fix w' assume "(pstep nxt quiet P)\<inverse>\<inverse> w' w"
      then have "pstep nxt quiet P w w'" by simp
      then show "termip (pstep nxt quiet P) w'"
      proof (cases rule: pstep_left)
        case other
        with less show ?thesis by simp
      next
        case (goes i s')
        then have "q_src w' = s'" "quiet s i" "nxt s i = Some (Goes s')" using less.prems by simp_all
        with outer [of i] show ?thesis by (metis option.inject outcome.distinct(3) outcome.inject(1))
      next
        case (offers i pkt s')
        with outer [of i] less.prems show ?thesis by auto
      next
        case returns
        then show ?thesis by (intro closed_ends)
      qed
    qed
  qed
qed

text \<open>As long as \<open>run\<close> is in its loop, something can move, if only by the quiet answers.\<close>

lemma not_stuck:
  assumes "wakes nxt quiet (q_src w)" "pipe_inv cnt P n (hs, m, f) w" "fwd_inv f" "q_run w" "q_done w"
  shows "\<exists>w'. pstep nxt quiet P w w'"
proof (cases "q_hand w")
  case (Some pkt)
  then show ?thesis using select_done [OF Some assms(5)] by blast
next
  case None
  show ?thesis
  proof (cases "q_open w")
    case True
    from assms(1) obtain i where "quiet (q_src w) i"
      "(\<exists>s'. nxt (q_src w) i = Some (Returns s')) \<or> (\<exists>s'. nxt (q_src w) i = Some (Goes s'))"
      by (cases rule: wakes.cases) blast
    with None True show ?thesis by (blast intro: src_goes src_returns)
  next
    case False
    show ?thesis
    proof (cases "q_chan w")
      case Nil
      with False assms(4) show ?thesis by (blast intro: loop_ends)
    next
      case (Cons pkt ps)
      obtain hs1 m1 f1 where st: "q_loop w = (hs1, m1, f1)" by (metis prod_cases3)
      with packet_loop_total [OF assms(3), of P "q_turns w" hs m] assms(2) have "fwd_inv f1" by (auto simp: pipe_inv_def)
      from packet_loop_total [OF this, of P "[(pkt, 0, (\<lambda>d. Inr 0), 0)]" hs1 m1] obtain st'
        where "packet_loop P metrics [(pkt, 0, (\<lambda>d. Inr 0), 0)] (q_loop w) = Some st'" by (auto simp: st)
      from loop_takes [OF assms(4) Cons this] show ?thesis by blast
    qed
  qed
qed

lemma done_stays: "(pstep nxt ok P)\<^sup>*\<^sup>* w w' \<Longrightarrow> q_done w \<Longrightarrow> q_done w'"
  by (induction rule: rtranclp_induct) (auto elim: pstep.cases)

context capture_source
begin

lemma accounts:
  assumes "(pstep nxt ok P)\<^sup>*\<^sup>* (piped s st) w"
  shows "pipe_inv cnt P (cnt s) st w"
  using psteps_inv [OF assms piped_inv] .

lemma quiet_no_chain: "f 0 = w \<Longrightarrow> \<not> (\<forall>i. pstep nxt quiet P (f i) (f (Suc i)))"
  using termip_no_chain [OF quiet_ends [OF quiet_wakes refl]] .

lemma stuck_left:
  assumes "(pstep nxt ok P)\<^sup>*\<^sup>* (piped s (hs, m, f)) w" "fwd_inv f" "q_done w"
    "(pstep nxt quiet P)\<^sup>*\<^sup>* w w'" "\<nexists>w''. pstep nxt quiet P w' w''"
  shows "\<not> q_run w'" "q_offered w' = map fst (q_turns w') @ q_lost w'" "length (q_lost w') \<le> 1"
proof -
  have i: "pipe_inv cnt P (cnt s) (hs, m, f) w'" using psteps_inv [OF assms(4) accounts [OF assms(1)]] .
  show r: "\<not> q_run w'" using not_stuck [OF quiet_wakes i assms(2)] assms(5) done_stays [OF assms(4,3)] by blast
  with i show "q_offered w' = map fst (q_turns w') @ q_lost w'" "length (q_lost w') \<le> 1"
    by (auto simp: pipe_inv_def split: option.splits)
qed

lemma closed_steps:
  assumes "(pstep nxt ok P)\<^sup>*\<^sup>* (piped s st) w" "q_done w" "\<not> q_open w" "(pstep nxt ok P ^^ k) w w'"
  shows "k \<le> chan_cap + 1"
  using closed_bound [OF assms(4,3)] accounts [OF assms(1)] assms(2,3) by (auto simp: pipe_left_def pipe_inv_def split: if_splits)

end

section \<open>Properties\<close>

text \<open>C26: the channel neither loses nor reorders packets. In every state of the pipeline, with either
  backend, whatever the kernel answers and whenever the context ends, the packets that the capture
  goroutine has counted are, in order, those the packet loop has taken, at most 1024 in the
  channel, the one at the \<open>select\<close>, and at most one that the end of the context made it drop. So
  when \<open>run\<close> has left its loop, every captured packet but at most one has gone through
  \<open>packet_loop\<close>, whose result is the state of the health server, the metrics and the forwarder.\<close>

theorem pipeline_accounts:
  assumes "(pstep tc_next any_answer P)\<^sup>*\<^sup>* (piped t st) w" "(pstep afp_next any_answer P)\<^sup>*\<^sup>* (piped (a, AWait) st) v"
  shows "q_offered w = map fst (q_turns w) @ q_chan w @ (case q_hand w of None \<Rightarrow> [] | Some pkt \<Rightarrow> [pkt]) @ q_lost w \<and>
    TCBPF.captured (q_src w) = TCBPF.captured t + of_nat (length (q_offered w)) \<and>
    length (q_chan w) \<le> 1024 \<and> length (q_lost w) \<le> 1 \<and> (q_lost w \<noteq> [] \<longrightarrow> q_done w) \<and>
    (\<not> q_run w \<longrightarrow> q_offered w = map fst (q_turns w) @ q_lost w) \<and>
    packet_loop P metrics (q_turns w) st = Some (q_loop w) \<and>
    q_offered v = map fst (q_turns v) @ q_chan v @ (case q_hand v of None \<Rightarrow> [] | Some pkt \<Rightarrow> [pkt]) @ q_lost v \<and>
    AFPacket.captured (fst (q_src v)) = AFPacket.captured a + of_nat (length (q_offered v)) \<and>
    length (q_chan v) \<le> 1024 \<and> length (q_lost v) \<le> 1 \<and> (q_lost v \<noteq> [] \<longrightarrow> q_done v) \<and>
    (\<not> q_run v \<longrightarrow> q_offered v = map fst (q_turns v) @ q_lost v) \<and>
    packet_loop P metrics (q_turns v) st = Some (q_loop v)"
  using tc_source.accounts [OF assms(1)] afp_source.accounts [OF assms(2)]
  by (simp add: pipe_inv_def chan_cap_def afp_count_def split: option.splits)

text \<open>One sample through the ring buffer to the packet loop and a shutdown; one frame of a socket that
  the end of the context drops.\<close>

definition example_st :: "Server \<times> ref_reg \<times> Forwarder" where
  "example_st = (Health.New 30, ([], Map.empty), example_fwd)"

definition example_raw :: bytes where
  "example_raw = [2, 0, 0, 0, 5, 0, 0, 0, 1, 0, 0, 0, 7, 8]"

lemma example_sample:
  "\<exists>pkt. tc_next one_tc (TSample example_raw) = Some (Offers pkt (one_tc\<lparr>captured := captured one_tc + 1\<rparr>))"
proof -
  have "\<not> length example_raw < evHdrLen" by (simp add: example_raw_def evHdrLen_def)
  with read_sample_total [of example_raw "ifaces one_tc"] show ?thesis by auto
qed

theorem pipeline_accounts_witness:
  "\<exists>w v. (pstep tc_next any_answer ref_prom)\<^sup>*\<^sup>* (piped one_tc example_st) w \<and> \<not> q_run w \<and>
     length (q_turns w) = 1 \<and> TCBPF.captured (q_src w) = TCBPF.captured one_tc + 1 \<and>
     (pstep afp_next any_answer ref_prom)\<^sup>*\<^sup>* (piped (NewAFPacket Default, AWait) example_st) v \<and>
     length (q_lost v) = 1 \<and> q_turns v = [] \<and> AFPacket.captured (fst (q_src v)) = 1"
proof -
  let ?T = "pstep tc_next any_answer ref_prom" and ?A = "pstep afp_next any_answer ref_prom"
  obtain pkt where offer: "tc_next one_tc (TSample example_raw) = Some (Offers pkt (one_tc\<lparr>captured := captured one_tc + 1\<rparr>))"
    using example_sample by blast
  have "fwd_inv example_fwd" using example_fwd by (rule New_Inr)
  then obtain st where turn: "packet_loop ref_prom metrics [(pkt, 0, (\<lambda>d. Inr 0), 0)] example_st = Some st"
    unfolding example_st_def using packet_loop_total by (metis prod_cases3)
  let ?t = "one_tc\<lparr>captured := captured one_tc + 1\<rparr>"
  let ?w1 = "(piped one_tc example_st)\<lparr>q_src := ?t, q_hand := Some pkt, q_offered := [pkt]\<rparr>"
  let ?w2 = "?w1\<lparr>q_hand := None, q_chan := [pkt]\<rparr>"
  let ?w3 = "?w2\<lparr>q_chan := [], q_loop := st, q_turns := [(pkt, 0, (\<lambda>d. Inr 0), 0)]\<rparr>"
  let ?w4 = "?w3\<lparr>q_src := ?t, q_open := False\<rparr>" and ?w = "?w3\<lparr>q_src := ?t, q_open := False, q_run := False\<rparr>"
  have "?T (piped one_tc example_st) ?w1" using src_offers [of "piped one_tc example_st" any_answer "TSample example_raw" tc_next] offer
    by (simp add: piped_def)
  moreover have "?T ?w1 ?w2" using select_send [of ?w1 pkt] by (simp add: piped_def chan_cap_def)
  moreover have "?T ?w2 ?w3" using loop_takes [of ?w2 pkt "[]"] turn by (simp add: piped_def)
  moreover have "?T ?w3 ?w4" using src_returns [of ?w3 any_answer TClosed tc_next] by (simp add: piped_def)
  moreover have "?T ?w4 ?w" using loop_ends [of ?w4] by (simp add: piped_def)
  ultimately have w: "?T\<^sup>*\<^sup>* (piped one_tc example_st) ?w" by (meson converse_rtranclp_into_rtranclp rtranclp.rtrancl_refl)
  let ?a = "NewAFPacket Default" and ?p = "\<lparr>Data = [9], Iface = [], Dir = DirUnknown\<rparr>"
  let ?v1 = "(piped (?a, AWait) example_st)\<lparr>q_src := (?a, ABatch 7 [])\<rparr>"
  let ?v2 = "?v1\<lparr>q_src := (?a, ADrain [] [])\<rparr>"
  let ?v3 = "?v2\<lparr>q_src := (AFPacket.captured_update (\<lambda>_. 1) ?a, ADrain [] []), q_hand := Some ?p, q_offered := [?p]\<rparr>"
  let ?v4 = "?v3\<lparr>q_done := True\<rparr>" and ?v = "?v3\<lparr>q_done := True, q_hand := None, q_open := False, q_lost := [?p]\<rparr>"
  have "?A (piped (?a, AWait) example_st) ?v1"
    using src_goes [of "piped (?a, AWait) example_st" any_answer "AWaitOK [7]" afp_next] by (simp add: piped_def)
  moreover have "?A ?v1 ?v2"
    using src_goes [of ?v1 any_answer "ALookup []" afp_next] by (simp add: piped_def NewAFPacket_def)
  moreover have "?A ?v2 ?v3"
    using src_offers [of ?v2 any_answer "AReadOK [9]" afp_next] by (simp add: piped_def NewAFPacket_def afpacketReadBuf_def)
  moreover have "?A ?v3 ?v4" using ctx_done [of ?v3] by (simp add: piped_def)
  moreover have "?A ?v4 ?v" using select_done [of ?v4 ?p] by (simp add: piped_def)
  ultimately have v: "?A\<^sup>*\<^sup>* (piped (?a, AWait) example_st) ?v" by (meson converse_rtranclp_into_rtranclp rtranclp.rtrancl_refl)
  note c = pipeline_accounts [OF w v]
  have "TCBPF.captured (q_src ?w) = TCBPF.captured one_tc + of_nat (length (q_offered ?w))"
    "AFPacket.captured (fst (q_src ?v)) = AFPacket.captured ?a + of_nat (length (q_offered ?v))" using c by blast+
  with w v show ?thesis by (intro exI [of _ ?w] exI [of _ ?v]) (simp add: piped_def NewAFPacket_def)
qed



end
