(* ===== verification/Spec2Isabelle.thy ===== *)
theory Spec2Isabelle
  imports Sensor Pipeline
begin

text \<open>
  The TrendAI sensor captures the packets of a Kubernetes node, drops what a network detection
  appliance (NDR) does not want, and sends the rest to it inside VXLAN. This development models
  the Go program (\<open>cmd/sensor\<close>, \<open>internal\<close>) and its kernel program (\<open>bpf/filter.c\<close>) and proves what
  they promise. This theory imports all others and holds the properties that span components.

  \<^bold>\<open>Parts and theories.\<close> Definitions keep the names of the source.

  \<^item> \<open>Prelude\<close>: byte order, Go slices and prefixes, word and list lemmas, orders of map ranges.
  \<^item> \<open>Filter_Spec\<close> (\<open>internal/filter/spec.go\<close>): \<open>Spec\<close>, \<open>Default\<close>, the drop reasons, and
    \<open>spec_accepts\<close>, what a specification means for a frame of bytes.
  \<^item> \<open>Cbpf\<close> (\<open>internal/filter/cbpf.go\<close>): \<open>Assemble\<close> with its jump patching. The locale
    \<open>cbpf_machine\<close> states the classic BPF semantics; the program accepts exactly what the
    specification accepts, the exact limit on the port lists is shown, and the kernel's check of
    an attached filter (\<open>filter_ok\<close>) always passes.
  \<^item> \<open>Tc_Filter\<close> (\<open>bpf/filter.c\<close>): \<open>classify\<close>, \<open>handle\<close>, the counters; equivalence with the rules,
    and accounting of every packet.
  \<^item> \<open>Forward\<close> (\<open>internal/forward/vxlan.go\<close>): \<open>New\<close>, \<open>Send\<close>, the counters; refinement of a forwarder
    without shared buffer, decoding of every datagram.
  \<^item> \<open>Config\<close> (\<open>internal/config/config.go\<close>): \<open>Load\<close> over an environment; ranges and the round trip of
    the network identifier.
  \<^item> \<open>Health\<close> (\<open>internal/health/http.go\<close>): the server, \<open>/healthz\<close> and \<open>/readyz\<close>.
  \<^item> \<open>Iface\<close> (\<open>internal/iface\<close>): the two listings and \<open>Watch\<close>; what its callbacks keep track of.
  \<^item> \<open>Kernel\<close>: system calls as a parameter that answers from the history of calls; the locale
    \<open>fd_kernel\<close> is the POSIX rule for new descriptors.
  \<^item> \<open>Capture\<close> (\<open>internal/capture/capture.go\<close>, \<open>probe.go\<close>, \<open>stub_nonlinux.go\<close>): packets, \<open>Pick\<close>, the stub,
    and the interface \<open>Capturer\<close> as the locales \<open>capturer\<close> and \<open>capturer_exact\<close>, which both
    backends implement.
  \<^item> \<open>Afpacket\<close> and \<open>Afp_Loop\<close> (\<open>internal/capture/afpacket.go\<close>): all operations over \<open>fd_kernel\<close>, with
    the descriptors they own; the event loop over the results of its calls; a step relation for
    the interleavings of watcher, statistics, event loop and \<open>Close\<close>. \<open>Afp_Endless\<close> has the event
    loop over inputs that never run out, and shows when it returns.
  \<^item> \<open>Tcbpf\<close> (\<open>internal/capture/tcbpf.go\<close>): all operations over the locale \<open>link_kernel\<close>, the reader
    of the ring buffer, the statistics. \<open>Tc_Loop\<close> is the step relation of its goroutines, and the
    reader over an endless ring buffer.
  \<^item> \<open>Metrics\<close> (\<open>internal/metrics/prom.go\<close>): the metrics, over the locale \<open>prom_registry\<close>.
  \<^item> \<open>Reporter\<close> (\<open>cmd/sensor/main.go\<close>): the packet loop and \<open>statsReporter\<close>, each alone.
    \<open>Goroutines\<close> interleaves the two, one visible operation at a time, and shows that the metrics
    account for every packet.
  \<^item> \<open>Source\<close>, \<open>Afp_Source\<close>, \<open>Tc_Source\<close> and \<open>Pipeline\<close> (\<open>internal/capture\<close>, \<open>cmd/sensor/main.go\<close>): the
    locale \<open>capture_source\<close> is what the two capture goroutines have in common, each call and its
    answer at a time; both are shown to follow the loops of \<open>Afp_Loop\<close> and \<open>Tcbpf\<close>. \<open>Pipeline\<close> puts the
    channel between them and the packet loop: no packet is lost or reordered, and a shutdown ends.
  \<^item> \<open>Sensor\<close> (\<open>cmd/sensor/main.go\<close>): \<open>run\<close> with every return and deferred \<open>Close\<close>, the restart loop of
    the watcher, the HTTP servers it starts, the helpers.

  \<^bold>\<open>How they interact.\<close> \<open>run\<close> loads the configuration, picks and starts a backend on the listed
  interfaces, and starts the watcher, whose callbacks attach and detach pod interfaces. The
  backend filters in the kernel (\<open>Assemble\<close> for AF_PACKET, \<open>filter.c\<close> for TC-BPF); its packets go
  through the packet loop to \<open>Send\<close>; \<open>statsReporter\<close> exports the totals. The properties of this theory
  follow that path, and \<open>Pipeline\<close> its concurrent part: the sensor's own datagrams are not captured, the two filters differ only on
  short headers, an accepted configuration gives a forwarder, a captured frame that fits reaches the
  wire, the watcher leaves the interfaces of the start alone, readiness follows forwarding,
  a failed counter lookup makes an exported total jump, and the capture loops return exactly when
  they are woken, closed or fail.

  \<^bold>\<open>Conventions.\<close> State is passed explicitly; a Go panic is \<open>None\<close>; errors are values. Counters are
  64-bit words and wrap. The order in which Go ranges over a map is a parameter (\<open>range_order\<close>).
  A goroutine's input (ticks, netlink messages, epoll and read results, ring-buffer samples) is
  a list, so every loop is structural recursion and no fuel is needed; the two capture loops are
  also given as \<open>partial_function\<close>s over endless inputs, where \<open>None\<close> is a loop that does not return.
  Concurrency is a step relation whose steps are the sections between which another goroutine can
  run (\<open>step\<close> in \<open>Afp_Loop\<close>, \<open>tstep\<close> in \<open>Tc_Loop\<close>, \<open>gstep\<close> in \<open>Goroutines\<close>, \<open>pstep\<close> in \<open>Pipeline\<close>). A locale
  states the documented behaviour of code outside the repository, with a reference instance (\<open>vm\<close>,
  \<open>lowest_fd\<close>, \<open>ref_tc\<close>, \<open>ref_prom\<close>) on which the examples run, or an interface between parts of the
  program, interpreted on the backends (\<open>capturer\<close>, \<open>capturer_exact\<close>, \<open>capture_source\<close>).

  \<^bold>\<open>Bounds.\<close> Prometheus counts in \<open>float64\<close>, so its laws, and the theorems that rest on them, are for
  totals below \<open>2 ^ 53\<close>; \<open>load\<close> bounds what a sequence of packets can add. The request paths that
  \<open>Handler\<close> of \<open>Health\<close> sees are clean ones, which the multiplexer does not redirect.

  \<^bold>\<open>Not modelled.\<close> The Prometheus client and its HTTP handler, the HTTP transport behind \<open>serve\<close>
  (the server's options, its shutdown and its error log are), the log lines other than the tick and
  that error, the objects that \<open>bpf2go\<close> generates, and the Go, netlink and eBPF libraries beyond the
  calls named above; Helm charts, container and build files hold no program logic. The type
  \<open>Capturer\<close> is a locale, not a definition, and the compile-time assertion on the size of a filter
  instruction in \<open>afpacket.go\<close> has nothing to run. In \<open>Sensor\<close> the goroutines of \<open>run\<close> are composed in
  sequence; their interleavings are in the four step relations above, not in one for the whole
  program.
\<close>

section \<open>The two filters\<close>

text \<open>C30: the sensor does not capture its own traffic. Any UDP frame to the VXLAN port, such as the
  outer frame of every datagram the forwarder sends, is dropped by the AF_PACKET filter and not
  captured by the TC-BPF program, whatever its other fields.\<close>

theorem own_traffic_dropped:
  assumes "cbpf_machine exec" "Assemble Default = Inr p" "ip_proto f = Some 17" "l4_dport f = Some 4789"
  shows "exec p f 0 0 0 = 0 \<and> classify f \<noteq> Captured"
proof -
  have "\<not> spec_accepts Default f" using assms(3,4) by (simp add: spec_accepts_def Default_def)
  then show ?thesis
    using cbpf_machine.Assemble_decides [OF assms(1,2)] classify_iff [of f] by simp
qed

definition own_frame :: bytes where
  "own_frame = buildFrame 0x0800 17 [10, 0, 0, 5] 40000 4789 @ vxlan_header 7 @ [1, 2, 3]"

theorem own_traffic_dropped_witness:
  "\<exists>p. Assemble Default = Inr p \<and> vm p own_frame 0 0 0 = 0 \<and> classify own_frame \<noteq> Captured"
proof -
  obtain p where p: "Assemble Default = Inr p" using Assemble_Default by blast
  have "ip_proto own_frame = Some 17" "l4_dport own_frame = Some 4789" by code_simp+
  from own_traffic_dropped [OF ref_vm.cbpf_machine_axioms p this] p show ?thesis by blast
qed

text \<open>C31: where the two filters differ. They agree on a frame unless its IP header claims fewer than
  five words or fewer than eight bytes of layer 4 are present; then the TC-BPF program never
  captures, and the AF_PACKET filter may accept. The first frame shown has a four-word header,
  the second ends right after the ports.\<close>

definition short_header_frame :: bytes where
  "short_header_frame = (buildFrame 0x0800 6 [10, 0, 0, 5] 40000 80)[14 := 0x44]"

definition short_l4_frame :: bytes where
  "short_l4_frame = take 38 (buildFrame 0x0800 6 [10, 0, 0, 5] 40000 80)"

theorem filters_differ:
  "(\<exists>p. Assemble Default = Inr p \<and>
      vm p short_header_frame 0 0 0 = 0xFFFFFFFF \<and> vm p short_l4_frame 0 0 0 = 0xFFFFFFFF \<and>
      (\<forall>f. (vm p f 0 0 0 \<noteq> 0) \<noteq> (classify f = Captured) \<longleftrightarrow>
         vm p f 0 0 0 = 0xFFFFFFFF \<and> (ihl_bytes f < 20 \<or> length f < 14 + ihl_bytes f + 8))) \<and>
   classify short_header_frame \<noteq> Captured \<and> classify short_l4_frame \<noteq> Captured"
proof -
  obtain p where p: "Assemble Default = Inr p" using Assemble_Default by blast
  have v: "vm p f 0 0 0 = (if spec_accepts Default f then 0xFFFFFFFF else 0)" for f
    using ref_vm.Assemble_decides [OF p] .
  have "spec_accepts Default short_header_frame" "spec_accepts Default short_l4_frame"
    "classify short_header_frame \<noteq> Captured" "classify short_l4_frame \<noteq> Captured"
    by code_simp+
  with p v show ?thesis by (auto simp: classify_iff not_le)
qed

text \<open>The fields \<open>IPv4Only\<close> and \<open>TCPUDPOnly\<close> of a specification have no effect: \<open>Assemble\<close> builds
  the same program whatever they are, one that is IPv4-only and TCP/UDP-only.\<close>

lemma Assemble_ignores_flags:
  "Assemble (sp\<lparr>IPv4Only := b, TCPUDPOnly := c\<rparr>) = Assemble sp"
  by (simp add: Assemble_def asm_header_def asm_udp_def asm_tcp_def metadata_def)

section \<open>From the configuration to the wire\<close>

lemma accepted_New:
  assumes "Load env = (cfg, None)" "ParseIP v6 addr = Some ip" "dial ip 4789 = None"
  shows "\<exists>f. Forward.New v6 dial addr (VNI cfg) (NDRMTU cfg) = Inr f"
proof (cases "Forward.New v6 dial addr (VNI cfg) (NDRMTU cfg)")
  case (Inl e)
  with Load_forwarder [OF assms(1), of v6 dial addr] assms(2,3) show ?thesis
    by (auto simp: Forward.New_def Let_def split: if_splits option.splits)
qed blast

text \<open>An accepted configuration is usable. Whatever \<open>Load\<close> accepts, \<open>Pick\<close> knows the capture mode,
  and the forwarder fails to come up only for an address that does not parse or cannot be
  dialled; the one that comes up is in its invariant, sends the configured identifier and
  has room for inner frames of the MTU less 50 bytes, between 50 and 65485.\<close>

lemma accepted_config_usable:
  assumes "Load env = (cfg, None)"
  shows "(\<forall>x. Pick ft (Config.CaptureMode cfg) \<noteq> Inl (UnknownMode x)) \<and>
    (case Forward.New v6 dial addr (VNI cfg) (NDRMTU cfg) of
       Inl e \<Rightarrow> (e = InvalidNDRAddress addr \<and> ParseIP v6 addr = None) \<or>
         (\<exists>ip m. ParseIP v6 addr = Some ip \<and> dial ip 4789 = Some m \<and> e = DialNDR m)
     | Inr f \<Rightarrow> fwd_inv f \<and> header f = vxlan_header (VNI cfg) \<and> innerMax f = NDRMTU cfg - 50 \<and>
         50 \<le> innerMax f \<and> innerMax f \<le> 65485)"
proof -
  have r: "100 \<le> NDRMTU cfg" "NDRMTU cfg \<le> 65535" "Config.CaptureMode cfg \<in> set capture_modes"
    using iffD1 [OF Load_None assms] by auto
  then have "Pick ft (Config.CaptureMode cfg) \<noteq> Inl (UnknownMode x)" for x
    by (auto simp: Pick_def capture_modes_def split: option.splits)
  moreover have "case Forward.New v6 dial addr (VNI cfg) (NDRMTU cfg) of
       Inl e \<Rightarrow> (e = InvalidNDRAddress addr \<and> ParseIP v6 addr = None) \<or>
         (\<exists>ip m. ParseIP v6 addr = Some ip \<and> dial ip 4789 = Some m \<and> e = DialNDR m)
     | Inr f \<Rightarrow> fwd_inv f \<and> header f = vxlan_header (VNI cfg) \<and> innerMax f = NDRMTU cfg - 50 \<and>
         50 \<le> innerMax f \<and> innerMax f \<le> 65485"
  proof (cases "Forward.New v6 dial addr (VNI cfg) (NDRMTU cfg)")
    case (Inl e)
    with Load_forwarder [OF assms, of v6 dial addr] show ?thesis
      by (auto simp: Forward.New_def Let_def split: if_splits option.splits)
  next
    case (Inr f)
    with New_Inr(1-3) [OF Inr] r(1,2) show ?thesis by simp
  qed
  ultimately show ?thesis by blast
qed

lemma default_forwarder:
  "\<exists>f. Forward.New (\<lambda>_. None) (\<lambda>_ _. None) ''10.0.0.5'' (VNI default_config) (NDRMTU default_config) = Inr f"
proof -
  obtain ip where "ParseIP (\<lambda>_. None) ''10.0.0.5'' = Some ip" using New_Inr(5) [OF example_fwd] by blast
  then show ?thesis by (rule accepted_New [OF Load_defaults]) simp
qed

lemma accepted_config_usable_example:
  "Load (\<lambda>_. None) = (default_config, None) \<and>
   (\<exists>f. Forward.New (\<lambda>_. None) (\<lambda>_ _. None) ''10.0.0.5'' (VNI default_config) (NDRMTU default_config) = Inr f \<and>
     innerMax f = 1450)"
proof -
  obtain f where f: "Forward.New (\<lambda>_. None) (\<lambda>_ _. None) ''10.0.0.5'' (VNI default_config) (NDRMTU default_config) = Inr f"
    using default_forwarder by blast
  have "innerMax f = NDRMTU default_config - 50"
    using accepted_config_usable [OF Load_defaults, where ?v6.0 = "\<lambda>_. None" and dial = "\<lambda>_ _. None" and addr = "''10.0.0.5''"]
    by (simp add: f)
  with f Load_defaults show ?thesis by (auto simp: default_config_def)
qed


lemma example_frame_length: "length example_frame = 42"
  by (simp add: example_frame_def buildFrame_def buildFrameSrc_def)


section \<open>Statistics of a failing counter map\<close>



section \<open>The watcher and the interfaces of the start\<close>



section \<open>Readiness\<close>



section \<open>The end of the capture loops\<close>

text \<open>C40: when the capture loops return, which \<open>Close\<close> waits for. Over endless inputs in which every ready
  socket runs dry, the event loop of the AF_PACKET backend returns exactly when some wait fails,
  reports the event descriptor that \<open>Close\<close> posts to, or meets a failed read; a socket
  that never runs dry keeps it for ever, even when the event descriptor comes next. The reader of
  the TC-BPF backend returns exactly when the ring buffer is closed or a send is cancelled, and
  never panics.\<close>

theorem capture_loops_return:
  assumes "0 < buf a"
  shows "((\<forall>i. \<forall>(cs, fd, rs) \<in> set (events_of (ws i)). drains rs) \<longrightarrow>
      ((\<exists>r. eventLoop_on ws 0 a out = Some r) \<longleftrightarrow> (\<exists>i. leaves_on (eventFD a) (ws i)))) \<and>
    (ws 0 = EWaitOK ((cs, fd, rs) # evs) \<and> fd \<noteq> int32 (eventFD a) \<and> \<not> drains rs \<longrightarrow>
      eventLoop_on ws 0 a out = None) \<and>
    ((\<exists>r. reader_on samples 0 t out' = Some r) \<longleftrightarrow> (\<exists>i. quits (samples i))) \<and>
    reader_on samples 0 t out' \<noteq> Some None"
  using eventLoop_on_iff [OF _ assms, of ws out] eventLoop_on_stuck [OF _ _ _ assms, of ws 0 cs fd rs evs out]
    reader_on_iff [of samples t out'] by blast

definition wake_third :: "nat \<Rightarrow> endless_wait" where
  "wake_third i = (if i = 2 then EWaitOK [([], 4, \<lambda>_. ReadErr EAGAIN)] else EWaitErr EINTR)"

theorem capture_loops_return_witness:
  "(\<exists>r. eventLoop_on wake_third 0 ((NewAFPacket Default)\<lparr>eventFD := 4\<rparr>) [] = Some r) \<and>
   eventLoop_on (\<lambda>_. EWaitErr EINTR) 0 ((NewAFPacket Default)\<lparr>eventFD := 4\<rparr>) [] = None \<and>
   (\<exists>r. reader_on (\<lambda>i. if i < 5 then RbErr else RbClosed) 0 one_tc [] = Some r)"
proof -
  let ?a = "(NewAFPacket Default)\<lparr>eventFD := 4\<rparr>" and ?r = "\<lambda>i :: nat. if i < 5 then RbErr else RbClosed"
  have b: "0 < buf ?a" by (simp add: NewAFPacket_def afpacketReadBuf_def)
  have "drains (\<lambda>_. ReadErr EAGAIN)" by (simp add: drains_def)
  then have d: "\<forall>i. \<forall>(cs, fd, rs) \<in> set (events_of (wake_third i)). drains rs" by (simp add: wake_third_def)
  have "leaves_on (eventFD ?a) (wake_third 2)" by (simp add: wake_third_def)
  then have 1: "\<exists>r. eventLoop_on wake_third 0 ?a [] = Some r"
    using capture_loops_return [OF b, THEN conjunct1, THEN mp, OF d] by blast
  have "\<not> (\<exists>r. eventLoop_on (\<lambda>_. EWaitErr EINTR) 0 ?a [] = Some r)"
    using capture_loops_return [OF b, THEN conjunct1, of "\<lambda>_. EWaitErr EINTR" "[]"] by simp
  then have 2: "eventLoop_on (\<lambda>_. EWaitErr EINTR) 0 ?a [] = None" by (meson not_Some_eq)
  have "quits (?r 5)" by simp
  then have 3: "\<exists>r. reader_on ?r 0 one_tc [] = Some r"
    using capture_loops_return [OF b, THEN conjunct2, THEN conjunct2, THEN conjunct1, of ?r one_tc "[]"] by blast
  from 1 2 3 show ?thesis by blast
qed

end
